(* ===== verification/Prelude.thy ===== *)
theory Prelude
  imports Main "HOL-Library.Word"
begin

unbundle bit_operations_syntax

text \<open>
  Shared vocabulary of the development: byte strings and fixed-width integers, Go results
  (a value or an error), bslices, the big- and little-endian integer codecs of
  \<^verbatim>\<open>encoding/binary\<close>, and the generic list and word lemmas the components use.
\<close>

named_theorems codec_simps \<open>evaluation of integer codecs on encoded input\<close>
named_theorems len_simps \<open>lengths of encoded byte strings\<close>

type_synonym byte = "8 word"
type_synonym bytes = "8 word list"
type_synonym u8 = "8 word"
type_synonym u16 = "16 word"
type_synonym u32 = "32 word"
type_synonym u64 = "64 word"

subsection \<open>Results\<close>

text \<open>A Go function returning \<open>(T, error)\<close> is a value of \<open>'e + 'a\<close>; \<open>rbind\<close> is the early
  return \<open>if err != nil { return err }\<close>.\<close>

definition rbind :: "'e + 'a \<Rightarrow> ('a \<Rightarrow> 'e + 'b) \<Rightarrow> 'e + 'b" where
  "rbind r f = (case r of Inl e \<Rightarrow> Inl e | Inr x \<Rightarrow> f x)"

lemma rbind_simps [simp]:
  "rbind (Inl e) f = Inl e"
  "rbind (Inr x) f = f x"
  by (simp_all add: rbind_def)

lemma rbind_eq_Inr_iff: "rbind r f = Inr y \<longleftrightarrow> (\<exists>x. r = Inr x \<and> f x = Inr y)"
  by (cases r) auto

text \<open>\<open>guardr c e\<close> is \<open>if c { return e }\<close>.\<close>

definition guardr :: "bool \<Rightarrow> 'e \<Rightarrow> 'e + 'a \<Rightarrow> 'e + 'a" where
  "guardr c e r = (if c then Inl e else r)"

lemma guardr_eq_Inr_iff [simp]: "guardr c e r = Inr y \<longleftrightarrow> \<not> c \<and> r = Inr y"
  by (simp add: guardr_def)

text \<open>Running a fallible function over a list in order, stopping at the first error.\<close>

fun rmap :: "('a \<Rightarrow> 'e + 'b) \<Rightarrow> 'a list \<Rightarrow> 'e + 'b list" where
  "rmap f [] = Inr []"
| "rmap f (x # xs) = rbind (f x) (\<lambda>y. rbind (rmap f xs) (\<lambda>ys. Inr (y # ys)))"

lemma rmap_eq_Inr_iff: "rmap f xs = Inr ys \<longleftrightarrow> list_all2 (\<lambda>x y. f x = Inr y) xs ys"
  by (induction xs arbitrary: ys) (auto simp: rbind_eq_Inr_iff list_all2_Cons1)

lemma rmap_append:
  "rmap f (xs @ ys) = rbind (rmap f xs) (\<lambda>as. rbind (rmap f ys) (\<lambda>bs. Inr (as @ bs)))"
proof (induction xs)
  case Nil
  show ?case by (cases "rmap f ys") simp_all
next
  case (Cons x xs)
  then show ?case
    by (cases "f x"; cases "rmap f xs"; cases "rmap f ys") simp_all
qed

lemma rmap_Inr: "(\<And>x. x \<in> set xs \<Longrightarrow> f x = Inr (g x)) \<Longrightarrow> rmap f xs = Inr (map g xs)"
  by (induction xs) simp_all

subsection \<open>Slices\<close>

text \<open>\<open>b[lo:hi]\<close>; every use in the sources is guarded by a length check that keeps it in range.\<close>

definition bslice :: "nat \<Rightarrow> nat \<Rightarrow> 'a list \<Rightarrow> 'a list" where
  "bslice lo hi xs = take (hi - lo) (drop lo xs)"

lemma length_bslice [len_simps]: "length (bslice lo hi xs) = min (hi - lo) (length xs - lo)"
  by (simp add: bslice_def min.commute)

lemma bslice_skip [codec_simps]:
  "length xs \<le> lo \<Longrightarrow> bslice lo hi (xs @ ys) = bslice (lo - length xs) (hi - length xs) ys"
  "0 < lo \<Longrightarrow> bslice lo hi (x # ys) = bslice (lo - 1) (hi - 1) ys"
  by (cases "lo \<le> hi"; auto simp: bslice_def) (cases lo; auto simp: bslice_def)

lemma bslice_hit [codec_simps]: "length xs = hi \<Longrightarrow> bslice 0 hi (xs @ ys) = xs"
  by (auto simp: bslice_def)

lemma bslice_all: "length xs \<le> hi \<Longrightarrow> bslice 0 hi xs = xs"
  by (simp add: bslice_def)

lemma bslice_append_exact: "lo = length xs \<Longrightarrow> hi = lo + length ys \<Longrightarrow> bslice lo hi (xs @ ys @ zs) = ys"
  by (simp add: bslice_def)

subsection \<open>Integer codecs (encoding/binary)\<close>

fun put_be :: "nat \<Rightarrow> nat \<Rightarrow> bytes" where
  "put_be 0 x = []"
| "put_be (Suc n) x = put_be n (x div 256) @ [word_of_nat x]"

definition get_be :: "bytes \<Rightarrow> nat" where
  "get_be bs = foldl (\<lambda>a b. a * 256 + unat b) 0 bs"

definition get_le :: "bytes \<Rightarrow> nat" where
  "get_le bs = get_be (rev bs)"

lemma length_put_be [simp, len_simps]: "length (put_be n x) = n"
  by (induction n arbitrary: x) simp_all

lemma get_be_snoc: "get_be (bs @ [b]) = get_be bs * 256 + unat b"
  by (simp add: get_be_def)

lemma unat_bounds:
  "unat (a :: u8) < 256" "unat (b :: u16) < 65536" "unat (c :: u32) < 4294967296"
  "unat (d :: u64) < 18446744073709551616"
  using unsigned_less [of a, where 'a = nat] unsigned_less [of b, where 'a = nat]
    unsigned_less [of c, where 'a = nat] unsigned_less [of d, where 'a = nat]
  by simp_all

lemma unat_word_of_nat_byte: "unat (word_of_nat x :: byte) = x mod 256"
  by (simp add: unat_of_nat)

lemma get_put_be: "get_be (put_be n x) = x mod 256 ^ n"
proof (induction n arbitrary: x)
  case 0
  show ?case by (simp add: get_be_def)
next
  case (Suc n)
  have "get_be (put_be (Suc n) x) = (x div 256) mod 256 ^ n * 256 + x mod 256"
    by (simp add: get_be_snoc Suc.IH unat_word_of_nat_byte)
  also have "\<dots> = x mod (256 * 256 ^ n)"
    by (simp add: mod_mult2_eq)
  finally show ?case by simp
qed

lemma get_be_bound: "get_be bs < 256 ^ length bs"
proof (induction bs rule: rev_induct)
  case Nil
  show ?case by (simp add: get_be_def)
next
  case (snoc b bs)
  have "unat b < 256" by (rule unat_bounds)
  with snoc show ?case by (simp add: get_be_snoc)
qed

definition be16 :: "u16 \<Rightarrow> bytes" where "be16 w = put_be 2 (unat w)"
definition be32 :: "u32 \<Rightarrow> bytes" where "be32 w = put_be 4 (unat w)"
definition be64 :: "u64 \<Rightarrow> bytes" where "be64 w = put_be 8 (unat w)"

definition rd16 :: "bytes \<Rightarrow> u16" where "rd16 bs = word_of_nat (get_be (take 2 bs))"
definition rd32 :: "bytes \<Rightarrow> u32" where "rd32 bs = word_of_nat (get_be (take 4 bs))"
definition rd64 :: "bytes \<Rightarrow> u64" where "rd64 bs = word_of_nat (get_be (take 8 bs))"
definition rd32le :: "bytes \<Rightarrow> u32" where "rd32le bs = word_of_nat (get_le (take 4 bs))"

lemma length_be [simp, len_simps]:
  "length (be16 a) = 2" "length (be32 b) = 4" "length (be64 c) = 8"
  by (simp_all add: be16_def be32_def be64_def)

lemma rd_be_append [codec_simps]:
  "rd16 (be16 a @ xs) = a" "rd32 (be32 b @ xs) = b" "rd64 (be64 c @ xs) = c"
  using unat_bounds(2) [of a] unat_bounds(3) [of b] unat_bounds(4) [of c]
  by (simp_all add: rd16_def rd32_def rd64_def be16_def be32_def be64_def get_put_be)

lemma rd_be [codec_simps]: "rd16 (be16 a) = a" "rd32 (be32 b) = b" "rd64 (be64 c) = c"
  using rd_be_append [of _ "[]"] by simp_all

lemma push_or_nat: "b < 2 ^ n \<Longrightarrow> push_bit n a OR b = a * 2 ^ n + (b :: nat)"
proof -
  assume "b < 2 ^ n"
  then have b: "take_bit n b = b" by (simp add: take_bit_nat_eq_self)
  have "push_bit n a + b = push_bit n a OR b"
    by (rule disjunctive_add_eq_or, subst b [symmetric]) (auto simp: bit_eq_iff bit_simps)
  then show ?thesis by (simp add: push_bit_eq_mult)
qed

lemma get_be_inj:
  "length xs = length ys \<Longrightarrow> get_be xs = get_be ys \<Longrightarrow> xs = ys"
proof (induction xs arbitrary: ys rule: rev_induct)
  case Nil
  then show ?case by simp
next
  case (snoc b bs)
  then obtain c cs where ys: "ys = cs @ [c]" "length bs = length cs" 
    by (cases ys rule: rev_exhaust) auto
  from snoc.prems have eq: "get_be bs * 256 + unat b = get_be cs * 256 + unat c"
    by (simp add: ys get_be_snoc)
  have "unat b = (get_be bs * 256 + unat b) mod 256" using unat_bounds(1)[of b] by simp
  also have "\<dots> = unat c" unfolding eq using unat_bounds(1)[of c] by simp
  finally have bc: "unat b = unat c" .
  then have "b = c" by (rule unsigned_word_eqI)
  with eq bc snoc.IH ys show ?case by simp
qed

lemma rd32le_inj:
  assumes "4 \<le> length xs" "4 \<le> length ys" "rd32le xs = rd32le ys"
  shows "take 4 xs = take 4 ys"
proof -
  have b: "get_le (take 4 zs) < 2 ^ 32" if "4 \<le> length zs" for zs
    using get_be_bound [of "rev (take 4 zs)"] that by (simp add: get_le_def)
  have u: "unat (rd32le zs) = get_le (take 4 zs)" if "4 \<le> length zs" for zs
    using b [OF that] by (simp add: rd32le_def unat_of_nat)
  have "get_le (take 4 xs) = get_le (take 4 ys)"
    using u [OF assms(1)] u [OF assms(2)] assms(3) by simp
  then show ?thesis
    using get_be_inj [of "rev (take 4 xs)" "rev (take 4 ys)"] assms(1,2) by (simp add: get_le_def)
qed

lemma and_15: "(n :: nat) AND 15 = n mod 16"
proof -
  have "n AND 15 = take_bit 4 n" by (simp add: take_bit_eq_mask mask_eq_exp_minus_1)
  then show ?thesis by (simp add: take_bit_eq_mod)
qed


lemma put_get_be: "length bs = n \<Longrightarrow> put_be n (get_be bs) = bs"
proof (induction n arbitrary: bs)
  case 0
  then show ?case by simp
next
  case (Suc n)
  then obtain b cs where bs: "bs = cs @ [b]" "length cs = n" by (cases bs rule: rev_exhaust) auto
  have b: "unat b < 256" by (rule unat_bounds)
  then have "(word_of_nat (get_be bs) :: byte) = b"
    by (intro unsigned_word_eqI [where 'a = nat]) (simp only: unat_word_of_nat_byte bs get_be_snoc, simp)
  moreover have "get_be bs div 256 = get_be cs" using b by (simp add: bs get_be_snoc)
  ultimately show ?case using Suc.IH bs by simp
qed

lemma be_rd:
  "length bs = 2 \<Longrightarrow> be16 (rd16 bs) = bs" "length bs = 4 \<Longrightarrow> be32 (rd32 bs) = bs" "length bs = 8 \<Longrightarrow> be64 (rd64 bs) = bs"
  using get_be_bound [of bs]
  by (simp_all add: be16_def be32_def be64_def rd16_def rd32_def rd64_def unat_of_nat put_get_be)

lemma bslice_split: "lo \<le> mid \<Longrightarrow> mid \<le> hi \<Longrightarrow> bslice lo mid xs @ bslice mid hi xs = bslice lo hi xs"
proof -
  assume "lo \<le> mid" "mid \<le> hi"
  then obtain a b where "mid = lo + a" "hi = mid + b" by (meson le_Suc_ex)
  then show ?thesis by (simp add: bslice_def take_add add.commute)
qed

lemma take_prefix_eq: "take n a = take n b \<Longrightarrow> m \<le> n \<Longrightarrow> take m a = take m b"
  by (metis min.absorb1 take_take)

lemma bslice_nth: "i < length xs \<Longrightarrow> bslice i (Suc i) xs = [xs ! i]"
  by (simp add: bslice_def take_Suc_conv_app_nth hd_drop_conv_nth)

lemma unat_eq_simp [simp]: "unat a = unat b \<longleftrightarrow> a = (b :: 'a :: len word)"
  by (auto intro: unsigned_word_eqI)

subsection \<open>Decimal numerals (fmt verb \<open>%d\<close>, strconv)\<close>

definition digit :: "nat \<Rightarrow> char" where
  "digit d = char_of (48 + d)"

definition is_digit :: "char \<Rightarrow> bool" where
  "is_digit c \<longleftrightarrow> 48 \<le> (of_char c :: nat) \<and> (of_char c :: nat) \<le> 57"

fun dec :: "nat \<Rightarrow> string" where
  "dec n = (if n < 10 then [digit n] else dec (n div 10) @ [digit (n mod 10)])"

declare dec.simps [simp del]

definition dec_value :: "string \<Rightarrow> nat" where
  "dec_value s = foldl (\<lambda>a c. a * 10 + (of_char c - 48)) 0 s"

text \<open>\<open>strconv.ParseUint(s, 10, 64)\<close>: a non-empty digit string whose value fits 64 bits.\<close>

definition ParseUint :: "string \<Rightarrow> u64 option" where
  "ParseUint s =
     (if s \<noteq> [] \<and> list_all is_digit s \<and> dec_value s < 2 ^ 64 then Some (word_of_nat (dec_value s)) else None)"

lemma digit_props: "d < 10 \<Longrightarrow> is_digit (digit d) \<and> (of_char (digit d) :: nat) = 48 + d"
  by (simp add: digit_def is_digit_def)

lemma dec_digits: "list_all is_digit (dec n)"
  by (induction n rule: dec.induct) (subst dec.simps, simp add: digit_props)

lemma dec_nonempty: "dec n \<noteq> []"
  by (subst dec.simps) simp

lemma dec_value_dec [simp]: "dec_value (dec n) = n"
proof (induction n rule: dec.induct)
  case (1 n)
  show ?case
  proof (cases "n < 10")
    case True
    then show ?thesis by (subst dec.simps) (simp add: dec_value_def digit_props)
  next
    case False
    with 1 have "dec_value (dec n) = n div 10 * 10 + n mod 10"
      by (subst dec.simps) (simp add: dec_value_def digit_props)
    then show ?thesis by simp
  qed
qed

lemma ParseUint_dec: "ParseUint (dec (unat w)) = Some w"
  using unat_bounds(4) [of w] by (simp add: ParseUint_def dec_digits dec_nonempty)

lemma dec_inj [simp]: "dec a = dec b \<longleftrightarrow> a = b"
  using dec_value_dec by metis

lemma digits_split:
  assumes "list_all P xs" "list_all P ys" "\<not> P c" "\<not> P d" "xs @ c # us = ys @ d # vs"
  shows "xs = ys \<and> c = d \<and> us = vs"
proof -
  have "takeWhile P (xs @ c # us) = xs" "takeWhile P (ys @ d # vs) = ys"
    using assms(1-4) by (auto simp: list_all_iff takeWhile_append)
  with assms(5) show ?thesis by simp
qed

text \<open>A numeral is determined by what follows it, up to the first non-digit.\<close>

lemma dec_split:
  "\<not> is_digit c \<Longrightarrow> \<not> is_digit d \<Longrightarrow> dec a @ c # us = dec b @ d # vs \<longleftrightarrow> a = b \<and> c = d \<and> us = vs"
  using digits_split [of is_digit "dec a" "dec b" c d us vs] dec_digits [of a] dec_digits [of b]
    by auto

lemma not_digits [simp]:
  "\<not> is_digit (CHR ''.'')" "\<not> is_digit (CHR ''-'')" "\<not> is_digit (CHR '':'')" "\<not> is_digit (CHR ''/'')"
  "\<not> is_digit (CHR ''~'')"
  by (simp_all add: is_digit_def)

lemma dec_split_simps:
  "dec a @ CHR ''.'' # us = dec b @ CHR ''.'' # vs \<longleftrightarrow> a = b \<and> us = vs"
  "dec a @ CHR ''-'' # us = dec b @ CHR ''-'' # vs \<longleftrightarrow> a = b \<and> us = vs"
  "dec a @ CHR '':'' # us = dec b @ CHR '':'' # vs \<longleftrightarrow> a = b \<and> us = vs"
  "dec a @ CHR ''.'' # us \<noteq> dec b @ CHR ''-'' # vs" "dec a @ CHR ''-'' # us \<noteq> dec b @ CHR ''.'' # vs"
  by (simp_all add: dec_split)

end
