(* ===== verification/Lz4.thy ===== *)
theory Lz4
  imports Prelude
begin

unbundle bit_operations_syntax

text \<open>
  The LZ4 block codec of \<^verbatim>\<open>src/internal/lz4/block.go\<close>: a greedy encoder with a hash table of
  last positions and a strict decoder that demands an exact output length. The main result
  is that decoding an encoded block returns the block.
\<close>

subsection \<open>Constants and errors\<close>

datatype lz4_error = ErrTruncated | ErrBadOffset nat | ErrBadLength | ErrTooLarge nat | ErrShortOutput nat

definition minMatch :: nat where "minMatch = 4"
definition maxOffset :: nat where "maxOffset = 65535"

subsection \<open>The encoder\<close>

text \<open>\<open>appendLengthBytes\<close>: the bytes it appends for a length \<open>n\<close>.\<close>

fun length_bytes :: "nat \<Rightarrow> bytes" where
  "length_bytes n = (if n \<ge> 255 then 255 # length_bytes (n - 255) else [word_of_nat n])"

declare length_bytes.simps [simp del]

definition appendLengthBytes :: "bytes \<Rightarrow> nat \<Rightarrow> bytes" where
  "appendLengthBytes dst n = dst @ length_bytes n"

text \<open>\<open>binary.LittleEndian.Uint32(src[i:])\<close> and the multiplicative hash over it.\<close>

definition word_at :: "bytes \<Rightarrow> nat \<Rightarrow> u32" where
  "word_at src i = rd32le (drop i src)"

definition hash :: "bytes \<Rightarrow> nat \<Rightarrow> u32" where
  "hash src i = drop_bit (32 - 16) (word_at src i * 2654435761)"

text \<open>The match-extension loop \<open>for i < len(src) && src[cand+(i-start)] == src[i]\<close>.\<close>

function extend :: "bytes \<Rightarrow> nat \<Rightarrow> nat \<Rightarrow> nat \<Rightarrow> nat" where
  "extend src cand start i =
     (if i < length src \<and> src ! (cand + (i - start)) = src ! i
      then extend src cand start (i + 1) else i)"
  by pat_completeness auto
termination
  by (relation "measure (\<lambda>(src, cand, start, i). length src - i)") auto

declare extend.simps [simp del]

definition token_of :: "nat \<Rightarrow> nat \<Rightarrow> byte" where
  "token_of litLen ml =
     (if litLen \<ge> 15 then 0xF0 else push_bit 4 (word_of_nat litLen))
       OR (if ml \<ge> 15 then 0x0F else word_of_nat ml)"

text \<open>One emitted sequence: token, long literal length, literals, offset, long match length.\<close>

definition emit_match :: "bytes \<Rightarrow> nat \<Rightarrow> nat \<Rightarrow> bytes" where
  "emit_match lits offset ml =
     token_of (length lits) ml # (if length lits \<ge> 15 then length_bytes (length lits - 15) else [])
       @ lits @ [word_of_nat offset, word_of_nat (drop_bit 8 offset)]
       @ (if ml \<ge> 15 then length_bytes (ml - 15) else [])"

definition emit_literals :: "bytes \<Rightarrow> bytes" where
  "emit_literals lits =
     token_of (length lits) 0 # (if length lits \<ge> 15 then length_bytes (length lits - 15) else []) @ lits"

lemma extend_ge: "i \<le> extend src cand start i"
  by (induction src cand start i rule: extend.induct) (subst extend.simps, auto)

text \<open>The main loop: hash table \<open>table\<close> (\<open>None\<close> is Go's \<open>-1\<close>), \<open>anchor\<close>, position \<open>i\<close>, output.\<close>

function encode_loop ::
  "bytes \<Rightarrow> (u32 \<rightharpoonup> nat) \<Rightarrow> nat \<Rightarrow> nat \<Rightarrow> bytes \<Rightarrow> nat \<times> bytes" where
  "encode_loop src table anchor i dst =
     (if i + minMatch \<le> length src then
        (let h = hash src i; table' = table(h \<mapsto> i) in
         case table h of
           None \<Rightarrow> encode_loop src table' anchor (i + 1) dst
         | Some cand \<Rightarrow>
             if i - cand > maxOffset \<or> cand + minMatch > length src \<or> word_at src cand \<noteq> word_at src i
             then encode_loop src table' anchor (i + 1) dst
             else
               (let start = i; j = extend src cand start (i + minMatch); matchLen = j - start in
                encode_loop src table' j j
                  (dst @ emit_match (bslice anchor start src) (start - cand) (matchLen - minMatch))))
      else (anchor, dst))"
  by pat_completeness auto
termination
proof (relation "measure (\<lambda>(src, table, anchor, i, dst). length src - i)", goal_cases)
  case 1
  show ?case by simp
next
  case 2
  then show ?case by (auto simp: minMatch_def)
next
  case 3
  then show ?case by (auto simp: minMatch_def)
next
  case (4 src table anchor i dst h table' cand start j matchLen)
  have "i + minMatch \<le> j" using 4 extend_ge [of "i + minMatch" src cand start] by simp
  with 4 show ?case by (auto simp: minMatch_def)
qed

declare encode_loop.simps [simp del]

definition EncodeBlock :: "bytes \<Rightarrow> bytes" where
  "EncodeBlock src =
     (if length src = 0 then []
      else let (anchor, dst) = encode_loop src Map.empty 0 0 [] in
        if length src - anchor > 0 then dst @ emit_literals (drop anchor src) else dst)"

subsection \<open>The decoder\<close>

text \<open>\<open>readLength\<close>, on the unread suffix \<open>src[i:]\<close>; it returns the total and the new suffix.\<close>

fun readLength :: "bytes \<Rightarrow> nat \<Rightarrow> lz4_error + (nat \<times> bytes)" where
  "readLength [] tot = Inl ErrTruncated"
| "readLength (b # bs) tot =
     (let tot' = tot + unat b in
      if b \<noteq> 255 then Inr (tot', bs)
      else if tot' > 2 ^ 30 then Inl ErrBadLength
      else readLength bs tot')"

text \<open>The byte-wise, possibly overlapping match copy.\<close>

fun copy_match :: "bytes \<Rightarrow> nat \<Rightarrow> nat \<Rightarrow> bytes" where
  "copy_match out offset 0 = out"
| "copy_match out offset (Suc k) = copy_match (out @ [out ! (length out - offset)]) offset k"

lemma readLength_shorter: "readLength bs t = Inr (n, bs') \<Longrightarrow> length bs' < length bs"
proof (induction bs t rule: readLength.induct)
  case (1 tot)
  then show ?case by simp
next
  case (2 b bs tot)
  then show ?case
    by (cases "b = 255"; cases "tot + unat b > 2 ^ 30") (auto simp: Let_def less_Suc_eq)
qed

text \<open>A length field: the nibble itself, or 15 plus the extension bytes.\<close>

definition read_field :: "nat \<Rightarrow> bytes \<Rightarrow> lz4_error + (nat \<times> bytes)" where
  "read_field nib rest =
     (if nib = 15 then rbind (readLength rest 0) (\<lambda>(n, rest'). Inr (nib + n, rest'))
      else Inr (nib, rest))"

lemma read_field_le: "read_field nib rest = Inr (n, rest') \<Longrightarrow> length rest' \<le> length rest"
  by (auto simp: read_field_def rbind_eq_Inr_iff split: if_splits dest: readLength_shorter)

lemma decode_rest_shorter:
  assumes "read_field a rest = Inr (l, rest1)" "lo # hi # rest3 = drop l rest1"
    and "read_field b rest3 = Inr (n, rest4)"
  shows "length rest4 < Suc (length rest)"
proof -
  have "length (drop l rest1) = Suc (Suc (length rest3))" using assms(2) [symmetric] by simp
  then have "length rest3 < length rest1" by simp
  with assms(1,3) show ?thesis by (auto dest!: read_field_le)
qed

function decode_loop :: "nat \<Rightarrow> bytes \<Rightarrow> bytes \<Rightarrow> lz4_error + bytes" where
  "decode_loop expected src out =
     (case src of
        [] \<Rightarrow> if length out \<noteq> expected then Inl (ErrShortOutput (length out)) else Inr out
      | token # rest \<Rightarrow>
          (case read_field (unat (drop_bit 4 token)) rest of
             Inl e \<Rightarrow> Inl e
           | Inr (litLen, rest1) \<Rightarrow>
               if litLen > length rest1 then Inl ErrTruncated
               else
                 (let out1 = out @ take litLen rest1; rest2 = drop litLen rest1 in
                  case rest2 of
                    [] \<Rightarrow> if length out1 \<noteq> expected then Inl (ErrShortOutput (length out1)) else Inr out1
                  | [_] \<Rightarrow> Inl ErrTruncated
                  | lo # hi # rest3 \<Rightarrow>
                      (let offset = unat lo OR push_bit 8 (unat hi) in
                       if offset = 0 \<or> offset > length out1 then Inl (ErrBadOffset offset)
                       else
                         (case read_field (unat (token AND 0x0F)) rest3 of
                            Inl e \<Rightarrow> Inl e
                          | Inr (n, rest4) \<Rightarrow>
                              (let matchLen = n + minMatch in
                               if length out1 + matchLen > expected
                               then Inl (ErrTooLarge (length out1 + matchLen))
                               else decode_loop expected rest4 (copy_match out1 offset matchLen)))))))"
  by pat_completeness auto
termination
  by (relation "measure (\<lambda>(expected, src, out). length src)") (auto intro: decode_rest_shorter)

declare decode_loop.simps [simp del]

definition DecodeBlock :: "bytes \<Rightarrow> nat \<Rightarrow> lz4_error + bytes" where
  "DecodeBlock src expected = decode_loop expected src []"

subsection \<open>Decoding what was encoded\<close>

text \<open>The extension bytes of a length field, as both sides see them.\<close>

lemma token_unat: "unat (token_of l m) = min 15 l * 16 + min 15 m"
proof -
  have "unat (token_of l m) = unat ((push_bit 4 (word_of_nat (min 15 l)) OR word_of_nat (min 15 m)) :: byte)"
    by (auto simp: token_of_def min_def)
  also have "\<dots> = (push_bit 4 (min 15 l) OR min 15 m)"
  proof -
    have "unat (push_bit 4 (word_of_nat (min 15 l)) :: byte) = push_bit 4 (min 15 l)"
      by (simp add: push_bit_eq_mult unat_word_ariths unat_of_nat)
    then show ?thesis by (simp add: unsigned_or_eq unat_of_nat)
  qed
  also have "\<dots> = min 15 l * 16 + min 15 m" by (subst push_or_nat) auto
  finally show ?thesis .
qed

lemma readLength_length_bytes:
  "t + n \<le> 2 ^ 30 \<Longrightarrow> readLength (length_bytes n @ rest) t = Inr (t + n, rest)"
proof (induction n arbitrary: t rule: length_bytes.induct)
  case (1 n)
  show ?case
  proof (cases "n \<ge> 255")
    case True
    with 1 have "readLength (length_bytes (n - 255) @ rest) (t + 255) = Inr (t + 255 + (n - 255), rest)"
      by simp
    with True 1(2) show ?thesis by (subst length_bytes.simps) simp
  next
    case False
    then have "unat (word_of_nat n :: byte) = n" "(word_of_nat n :: byte) \<noteq> 255"
      by (auto simp: unat_word_of_nat_byte dest!: arg_cong [where f = unat])
    with False show ?thesis by (subst length_bytes.simps) simp
  qed
qed

definition ext_bytes :: "nat \<Rightarrow> bytes" where "ext_bytes n = (if n \<ge> 15 then length_bytes (n - 15) else [])"

lemma read_field_ext:
  "n \<le> 2 ^ 30 \<Longrightarrow> read_field (min 15 n) (ext_bytes n @ rest) = Inr (n, rest)"
  using readLength_length_bytes [of 0 "n - 15" rest]
  by (auto simp: read_field_def ext_bytes_def min_def)

lemma token_high: "unat (drop_bit 4 (token_of l m)) = min 15 l"
proof -
  have "unat (drop_bit 4 (token_of l m)) = drop_bit 4 (unat (token_of l m))" by (rule unat_drop_bit_eq)
  then show ?thesis by (simp add: token_unat drop_bit_eq_div)
qed
lemma token_low: "unat (token_of l m AND 0x0F) = min 15 m"
proof -
  have "unat (token_of l m AND 0x0F) = unat (token_of l m) AND 15"
    by (simp only: unsigned_and_eq) simp
  then show ?thesis by (simp add: token_unat and_15)
qed

lemma emit_match_eq: "emit_match lits off ml = token_of (length lits) ml # ext_bytes (length lits) @ lits
    @ [word_of_nat off, word_of_nat (drop_bit 8 off)] @ ext_bytes ml"
  by (simp add: emit_match_def ext_bytes_def)
lemma emit_literals_eq: "emit_literals lits = token_of (length lits) 0 # ext_bytes (length lits) @ lits"
  by (simp add: emit_literals_def ext_bytes_def)

lemma decode_literals:
  assumes "length lits \<le> 2 ^ 30"
  shows "decode_loop n (emit_literals lits) out
     = (if length out + length lits \<noteq> n then Inl (ErrShortOutput (length out + length lits)) else Inr (out @ lits))"
  using read_field_ext [OF assms, of lits]
  by (subst decode_loop.simps) (simp add: emit_literals_eq token_high)

lemma offset_bytes:
  "off \<le> maxOffset \<Longrightarrow>
   unat (word_of_nat off :: byte) OR push_bit 8 (unat (word_of_nat (drop_bit 8 off) :: byte)) = off"
  by (subst or.commute, subst push_or_nat)
    (auto simp: unat_word_of_nat_byte maxOffset_def drop_bit_eq_div)

lemma decode_match:
  assumes "length lits \<le> 2 ^ 30" "ml \<le> 2 ^ 30" "0 < off" "off \<le> maxOffset"
    and "off \<le> length out + length lits" "length out + length lits + ml + minMatch \<le> n"
  shows "decode_loop n (emit_match lits off ml @ rest) out
     = decode_loop n rest (copy_match (out @ lits) off (ml + minMatch))"
  using read_field_ext [OF assms(1)] read_field_ext [OF assms(2)] assms(3-)
  by (subst decode_loop.simps) (simp add: emit_match_eq token_high token_low offset_bytes)

lemma copy_match_take:
  assumes "cand < i" "i + n \<le> length src" "\<And>k. k < n \<Longrightarrow> src ! (cand + k) = src ! (i + k)"
  shows "copy_match (take i src) (i - cand) n = take (i + n) src"
  using assms
proof (induction n arbitrary: i cand)
  case 0
  then show ?case by simp
next
  case (Suc n)
  have "take i src ! (i - (i - cand)) = src ! i" using Suc.prems Suc.prems(3) [of 0] by simp
  then have "take i src @ [take i src ! (length (take i src) - (i - cand))] = take (Suc i) src"
    using Suc.prems by (simp add: take_Suc_conv_app_nth min_def)
  moreover have "copy_match (take (Suc i) src) (Suc i - Suc cand) n = take (Suc i + n) src"
    using Suc.prems Suc.prems(3) [of "Suc _"] by (intro Suc.IH) auto
  ultimately show ?case by simp
qed

lemma extend_spec:
  assumes "start \<le> i" "i \<le> length src"
  shows "extend src cand start i \<le> length src
     \<and> (\<forall>k. i \<le> k \<and> k < extend src cand start i \<longrightarrow> src ! (cand + (k - start)) = src ! k)"
  using assms
proof (induction src cand start i rule: extend.induct)
  case (1 src cand start i)
  show ?case
  proof (cases "i < length src \<and> src ! (cand + (i - start)) = src ! i")
    case True
    with 1 have "extend src cand start (i + 1) \<le> length src
      \<and> (\<forall>k. i + 1 \<le> k \<and> k < extend src cand start (i + 1) \<longrightarrow> src ! (cand + (k - start)) = src ! k)"
      by simp
    moreover have "extend src cand start i = extend src cand start (i + 1)"
      by (subst extend.simps) (simp only: True if_True simp_thms)
    ultimately show ?thesis using True by (metis le_neq_implies_less less_iff_succ_less_eq)
  next
    case False
    then have "extend src cand start i = i" by (subst extend.simps) auto
    with 1(3) show ?thesis by auto
  qed
qed

lemma word_at_eq:
  assumes "a + minMatch \<le> length src" "b + minMatch \<le> length src" "word_at src a = word_at src b" "k < minMatch"
  shows "src ! (a + k) = src ! (b + k)"
proof -
  have "take 4 (drop a src) = take 4 (drop b src)"
    using assms(1-3) by (intro rd32le_inj) (auto simp: word_at_def minMatch_def)
  then have "take 4 (drop a src) ! k = take 4 (drop b src) ! k" by simp
  with assms show ?thesis by (simp add: minMatch_def)
qed
lemma decode_emit:
  assumes "length src \<le> 2 ^ 30" "anchor \<le> i" "i + minMatch \<le> length src" "cand < i"
    and "i - cand \<le> maxOffset" "word_at src cand = word_at src i"
  defines "j \<equiv> extend src cand i (i + minMatch)"
  shows "decode_loop (length src) (emit_match (bslice anchor i src) (i - cand) (j - i - minMatch) @ rest) (take anchor src)
     = decode_loop (length src) rest (take j src)"
proof -
  have ext: "j \<le> length src" "\<And>k. i + minMatch \<le> k \<Longrightarrow> k < j \<Longrightarrow> src ! (cand + (k - i)) = src ! k"
    using extend_spec [of i "i + minMatch" src cand] assms(3) by (auto simp: j_def)
  have j: "i + minMatch \<le> j" by (simp add: j_def extend_ge)
  have eq: "src ! (cand + k) = src ! (i + k)" if "k < j - i" for k
  proof (cases "k < minMatch")
    case True
    then show ?thesis using assms by (intro word_at_eq) auto
  next
    case False
    then show ?thesis using ext(2) [of "i + k"] that by simp
  qed
  have out: "take anchor src @ bslice anchor i src = take i src"
    using assms(2) by (simp add: bslice_def take_add [symmetric])
  have len: "length (take anchor src) + length (bslice anchor i src) = i"
    using assms(2,3) by (simp add: length_bslice)
  have "copy_match (take i src) (i - cand) (j - i) = take (i + (j - i)) src"
    using j ext(1) assms(4) eq by (intro copy_match_take) auto
  then show ?thesis
    using j ext(1) assms(1,3,4,5) len
    by (subst decode_match) (auto simp: out length_bslice)
qed

lemma encode_loop_decodes:
  assumes "length src \<le> 2 ^ 30" "anchor \<le> i" "i \<le> length src"
    and "\<And>h c. table h = Some c \<Longrightarrow> c < i"
    and "encode_loop src table anchor i dst = (anchor', dst')"
  shows "\<exists>tl. dst' = dst @ tl \<and> anchor' \<le> length src
     \<and> (\<forall>rest. decode_loop (length src) (tl @ rest) (take anchor src) = decode_loop (length src) rest (take anchor' src))"
  using assms
proof (induction src table anchor i dst arbitrary: anchor' dst' rule: encode_loop.induct)
  case (1 src table anchor i dst)
  let ?h = "hash src i" and ?t = "table(hash src i \<mapsto> i)"
  have tbl: "\<And>h c. ?t h = Some c \<Longrightarrow> c < i + 1" using 1(7) by (auto split: if_splits intro: less_SucI)
  show ?case
  proof (cases "i + minMatch \<le> length src")
    case False
    with 1(8) have "anchor' = anchor" "dst' = dst" by (auto simp: encode_loop.simps [of src table anchor i dst])
    with 1(5,6) show ?thesis by (intro exI [of _ "[]"]) simp
  next
    case room: True
    show ?thesis
    proof (cases "table ?h")
      case None
      with room 1(8) have "encode_loop src ?t anchor (i + 1) dst = (anchor', dst')"
        by (simp add: encode_loop.simps [of src table anchor i dst])
      with room None tbl 1(4,5) show ?thesis
        by (intro 1(1)) (auto simp: minMatch_def)
    next
      case (Some cand)
      show ?thesis
      proof (cases "i - cand > maxOffset \<or> cand + minMatch > length src \<or> word_at src cand \<noteq> word_at src i")
        case True
        with room Some 1(8) have "encode_loop src ?t anchor (i + 1) dst = (anchor', dst')"
          by (simp add: encode_loop.simps [of src table anchor i dst])
        with room Some True tbl 1(4,5) show ?thesis
          by (intro 1(2)) (auto simp: minMatch_def)
      next
        case False
        let ?j = "extend src cand i (i + minMatch)"
        let ?seq = "emit_match (bslice anchor i src) (i - cand) (?j - i - minMatch)"
        from False have ok: "i - cand \<le> maxOffset" "word_at src cand = word_at src i" by auto
        have cand: "cand < i" using 1(7) Some by blast
        have j: "i + minMatch \<le> ?j" "?j \<le> length src"
          using extend_ge [of "i + minMatch"] extend_spec [of i "i + minMatch"] room by auto
        from room Some False 1(8) have "encode_loop src ?t ?j ?j (dst @ ?seq) = (anchor', dst')"
          by (simp add: encode_loop.simps [of src table anchor i dst] Let_def)
        moreover have "\<And>h c. ?t h = Some c \<Longrightarrow> c < ?j"
          using tbl j(1) by (fastforce simp: minMatch_def)
        ultimately have "\<exists>tl. dst' = (dst @ ?seq) @ tl \<and> anchor' \<le> length src
          \<and> (\<forall>rest. decode_loop (length src) (tl @ rest) (take ?j src) = decode_loop (length src) rest (take anchor' src))"
          using room Some False 1(4) j(2) by (intro 1(3)) auto
        then obtain tl where "dst' = (dst @ ?seq) @ tl" "anchor' \<le> length src"
          "\<And>rest. decode_loop (length src) (tl @ rest) (take ?j src) = decode_loop (length src) rest (take anchor' src)"
          by blast
        then show ?thesis
          using decode_emit [OF 1(4,5) room cand ok] by (intro exI [of _ "?seq @ tl"]) simp
      qed
    qed
  qed
qed
lemma EncodeBlock_DecodeBlock:
  assumes "length src \<le> 2 ^ 30"
  shows "DecodeBlock (EncodeBlock src) (length src) = Inr src"
proof (cases "src = []")
  case True
  then show ?thesis by (simp add: EncodeBlock_def DecodeBlock_def decode_loop.simps)
next
  case nonempty: False
  obtain a d where ad: "encode_loop src Map.empty 0 0 [] = (a, d)" by fastforce
  from encode_loop_decodes [OF assms _ _ _ ad]
  have a: "a \<le> length src"
    and dec: "decode_loop (length src) (d @ rest) [] = decode_loop (length src) rest (take a src)" for rest
    by auto
  show ?thesis
  proof (cases "a < length src")
    case True
    with nonempty ad have "EncodeBlock src = d @ emit_literals (drop a src)" by (simp add: EncodeBlock_def)
    with assms a show ?thesis by (simp add: DecodeBlock_def dec decode_literals)
  next
    case False
    with nonempty a ad have "EncodeBlock src = d" by (simp add: EncodeBlock_def)
    with False a dec [of "[]"] show ?thesis by (simp add: DecodeBlock_def decode_loop.simps)
  qed
qed
lemma copy_match_length [simp]: "length (copy_match out offset k) = length out + k"
  by (induction out offset k rule: copy_match.induct) simp_all

lemma decode_loop_exact: "decode_loop n src out = Inr res \<Longrightarrow> length res = n"
proof (induction n src out rule: decode_loop.induct)
  case (1 n src out)
  from "1.prems" show ?case
    by (subst (asm) decode_loop.simps)
      (auto simp: Let_def split: list.splits sum.splits prod.splits if_splits
        dest!: "1.IH" [OF _ _ refl _ refl refl _ _ refl _ _ refl refl, rotated -1])
qed

lemma decode_empty: "DecodeBlock [] n = Inr out \<Longrightarrow> out = []"
  by (auto simp: DecodeBlock_def decode_loop.simps split: if_splits)

subsection \<open>The block codec interface\<close>

text \<open>What the page-map format relies on: a length-exact decoder that inverts the encoder on
  blocks up to a size limit.\<close>

locale block_codec =
  fixes enc :: "bytes \<Rightarrow> bytes"
    and dec :: "bytes \<Rightarrow> nat \<Rightarrow> 'e + bytes"
    and limit :: nat
  assumes dec_enc: "length xs \<le> limit \<Longrightarrow> dec (enc xs) (length xs) = Inr xs"
    and dec_exact: "dec ys n = Inr out \<Longrightarrow> length out = n"
    and dec_nil: "dec [] n = Inr out \<Longrightarrow> out = []"
begin

lemma enc_nonempty:
  assumes "xs \<noteq> []" "length xs \<le> limit"
  shows "enc xs \<noteq> []"
proof
  assume "enc xs = []"
  with dec_enc [OF assms(2)] have "dec [] (length xs) = Inr xs" by simp
  from dec_nil [OF this] assms(1) show False by simp
qed

end

interpretation lz4: block_codec EncodeBlock DecodeBlock "2 ^ 30"
proof
  show "length xs \<le> 2 ^ 30 \<Longrightarrow> DecodeBlock (EncodeBlock xs) (length xs) = Inr xs" for xs
    by (rule EncodeBlock_DecodeBlock)
  show "DecodeBlock ys n = Inr out \<Longrightarrow> length out = n" for ys n out
    by (simp add: DecodeBlock_def decode_loop_exact)
  show "DecodeBlock [] n = Inr out \<Longrightarrow> out = []" for n out
    by (rule decode_empty)
qed

subsection \<open>Properties\<close>

text \<open>C18: decompressing a compressed page with its own length returns the page, for every page of
  at most 2^30 bytes (the cap the decoder puts on a length field).\<close>

theorem lz4_roundtrip:
  "length src \<le> 2 ^ 30 \<Longrightarrow> DecodeBlock (EncodeBlock src) (length src) = Inr src"
  by (rule lz4.dec_enc)

theorem lz4_roundtrip_witness:
  "length [7, 7, 7, 7, 7, 7, 7, 7 :: byte] \<le> 2 ^ 30
     \<and> DecodeBlock (EncodeBlock [7, 7, 7, 7, 7, 7, 7, 7]) 8 = Inr [7, 7, 7, 7, 7, 7, 7, 7]"
proof -
  have len: "length [7, 7, 7, 7, 7, 7, 7, 7 :: byte] = 8" by simp
  have le: "length [7, 7, 7, 7, 7, 7, 7, 7 :: byte] \<le> 2 ^ 30" by simp
  from lz4_roundtrip [OF le] le show ?thesis unfolding len by (intro conjI)
qed

text \<open>Whatever bytes it is given, the decoder either fails or returns exactly the expected
  number of bytes, so a corrupt frame never shortens a page.\<close>

lemma lz4_exact_length:
  "DecodeBlock src expected = Inr out \<Longrightarrow> length out = expected"
  by (rule lz4.dec_exact)

lemma lz4_exact_length_applies:
  "DecodeBlock [0x20, 1, 2] 2 = Inr [1, 2] \<and> length [1, 2 :: byte] = 2"
proof -
  have dec: "DecodeBlock [0x20, 1, 2] 2 = Inr [1, 2]" by code_simp
  from lz4_exact_length [OF dec] dec show ?thesis by simp
qed

end
