(* ===== verification/Ltx.thy ===== *)
theory Ltx
  imports Prelude
begin

unbundle bit_operations_syntax

text \<open>
  Replication segments: \<^verbatim>\<open>src/internal/ltx/ltx.go\<close> (header, encode, decode, split, object names)
  and \<^verbatim>\<open>src/internal/ltx/wal_payload.go\<close> (the WAL1 transaction payload).
\<close>

subsection \<open>CRC-32C (hash/crc32 with the Castagnoli table)\<close>

definition crc_shift :: "u32 \<Rightarrow> u32" where
  "crc_shift c = (if c AND 1 = 1 then drop_bit 1 c XOR 0x82f63b78 else drop_bit 1 c)"

definition crc_entry :: "byte \<Rightarrow> u32" where
  "crc_entry b = (crc_shift ^^ 8) (ucast b)"

definition crc32c :: "bytes \<Rightarrow> u32" where
  "crc32c bs = NOT (foldl (\<lambda>c b. crc_entry (ucast c XOR b) XOR drop_bit 8 c) (NOT 0) bs)"

subsection \<open>Header, kinds and snapshot flags\<close>

definition HeaderSize :: nat where "HeaderSize = 44"
definition Magic :: bytes where "Magic = [0x4C, 0x54, 0x58, 0x31]"
definition FormatVersion :: u8 where "FormatVersion = 1"

type_synonym Kind = u8

definition KindDelta :: Kind where "KindDelta = 0"
definition KindSnapshot :: Kind where "KindSnapshot = 1"
definition KindLink :: Kind where "KindLink = 2"
definition KindMarker :: Kind where "KindMarker = 3"

lemmas kind_defs = KindDelta_def KindSnapshot_def KindLink_def KindMarker_def

record Header =
  Version :: u8
  HKind :: Kind
  Flags :: u16
  Epoch :: u64
  StartTxID :: u64
  EndTxID :: u64
  Length :: u64
  CRC :: u32

definition flagSnapshotPaged :: u16 where "flagSnapshotPaged = push_bit 15 1"
definition snapshotPartMask :: u16 where "snapshotPartMask = flagSnapshotPaged - 1"

definition SnapshotFlags :: "int \<Rightarrow> u16" where
  "SnapshotFlags part =
     (let part' = if part < 0 then 0 else part
      in flagSnapshotPaged OR (word_of_int part' AND snapshotPartMask))"

text \<open>\<open>SnapshotPart\<close> returns \<open>(part, paged)\<close>.\<close>

definition SnapshotPart :: "Header \<Rightarrow> nat \<times> bool" where
  "SnapshotPart h =
     (if HKind h \<noteq> KindSnapshot \<or> Flags h AND flagSnapshotPaged = 0 then (0, False)
      else (unat (Flags h AND snapshotPartMask), True))"

subsection \<open>Encode and Decode\<close>

datatype ltx_error = ErrShort | ErrMagic | ErrChecksum | ErrVersion u8

definition Encode :: "Header \<Rightarrow> bytes \<Rightarrow> bytes" where
  "Encode h payload =
     (let h' = h\<lparr>Version := FormatVersion, Length := word_of_nat (length payload), CRC := crc32c payload\<rparr>
      in Magic @ [Version h'] @ [HKind h'] @ be16 (Flags h') @ be64 (Epoch h') @ be64 (StartTxID h')
         @ be64 (EndTxID h') @ be64 (Length h') @ be32 (CRC h') @ payload)"

definition Decode :: "bytes \<Rightarrow> ltx_error + (Header \<times> bytes)" where
  "Decode b =
     (if length b < HeaderSize then Inl ErrShort
      else if bslice 0 4 b \<noteq> Magic then Inl ErrMagic
      else
        (let h = \<lparr>Version = b ! 4, HKind = b ! 5, Flags = rd16 (bslice 6 8 b), Epoch = rd64 (bslice 8 16 b),
                  StartTxID = rd64 (bslice 16 24 b), EndTxID = rd64 (bslice 24 32 b),
                  Length = rd64 (bslice 32 40 b), CRC = rd32 (bslice 40 44 b)\<rparr>
         in if Version h \<noteq> FormatVersion then Inl (ErrVersion (Version h))
            else if length b - HeaderSize < unat (Length h) then Inl ErrShort
            else
              (let payload = bslice HeaderSize (HeaderSize + unat (Length h)) b
               in if crc32c payload \<noteq> CRC h then Inl ErrChecksum else Inr (h, payload))))"

subsection \<open>Names and identity\<close>

definition ID :: "Header \<Rightarrow> string" where
  "ID h = dec (unat (Epoch h)) @ '':'' @ dec (unat (HKind h)) @ '':'' @ dec (unat (StartTxID h)) @ '':''
     @ dec (unat (EndTxID h)) @ '':'' @ dec (unat (CRC h))"

definition SegmentName :: "Header \<Rightarrow> string" where
  "SegmentName h =
     (if HKind h = KindSnapshot then
        (case SnapshotPart h of
           (part, True) \<Rightarrow> dec (unat (EndTxID h)) @ ''.p'' @ dec part @ ''.snapshot''
         | (_, False) \<Rightarrow> dec (unat (EndTxID h)) @ ''.snapshot'')
      else if HKind h = KindLink then dec (unat (StartTxID h)) @ ''.link''
      else if HKind h = KindMarker then dec (unat (StartTxID h)) @ ''.marker''
      else dec (unat (StartTxID h)) @ ''-'' @ dec (unat (EndTxID h)) @ ''.ltx'')"

definition BatchName :: "Header \<Rightarrow> Header \<Rightarrow> string" where
  "BatchName fst_h lst_h =
     (if HKind fst_h = KindSnapshot \<and> HKind lst_h = KindSnapshot \<and> EndTxID fst_h = EndTxID lst_h
      then dec (unat (EndTxID fst_h)) @ ''.p'' @ dec (fst (SnapshotPart fst_h)) @ ''-p''
             @ dec (fst (SnapshotPart lst_h)) @ ''.s.batch''
      else dec (unat (StartTxID fst_h)) @ ''-'' @ dec (unat (EndTxID lst_h)) @ ''.''
             @ (if HKind fst_h = KindSnapshot \<or> HKind lst_h = KindSnapshot then ''m'' else ''d'') @ ''.batch'')"

subsection \<open>Split\<close>

function Split :: "bytes \<Rightarrow> ltx_error + bytes list" where
  "Split b =
     (if length b = 0 then Inr []
      else if length b < HeaderSize then Inl ErrShort
      else if bslice 0 4 b \<noteq> Magic then Inl ErrMagic
      else
        (let len = rd64 (bslice 32 40 b)
         in if length b - HeaderSize < unat len then Inl ErrShort
            else
              (let total_len = HeaderSize + unat len; seg = take total_len b
               in case Decode seg of
                    Inl e \<Rightarrow> Inl e
                  | Inr _ \<Rightarrow> rbind (Split (drop total_len b)) (\<lambda>segs. Inr (seg # segs)))))"
  by pat_completeness auto
termination
  by (relation "measure length") (auto simp: HeaderSize_def)

declare Split.simps [simp del]

subsection \<open>The WAL1 transaction payload\<close>

definition walPayloadMagic :: bytes where "walPayloadMagic = [0x57, 0x41, 0x4C, 0x31]"

record WALFrame =
  PageNo :: u32
  DBSize :: u32
  Data :: bytes

record WALTransaction =
  Frames :: "WALFrame list"

datatype payload_error =
    ZeroPageSize | EmptyTxList | TxNoFrames nat | TxNoCommit nat | FramePageLength nat nat
  | InvalidPayloadHeader | InvalidPayloadDimensions | TruncatedTx nat | InvalidFrameCount nat
  | TruncatedFrame nat nat | TrailingPayload

text \<open>The validation pass of \<open>EncodeWALPayload\<close>, per frame and per transaction.\<close>

fun check_frames :: "u32 \<Rightarrow> nat \<Rightarrow> nat \<Rightarrow> WALFrame list \<Rightarrow> payload_error + unit" where
  "check_frames pageSize ti fi [] = Inr ()"
| "check_frames pageSize ti fi (f # fs) =
     (if length (Data f) \<noteq> unat pageSize then Inl (FramePageLength ti fi)
      else check_frames pageSize ti (Suc fi) fs)"

fun check_txs :: "u32 \<Rightarrow> nat \<Rightarrow> WALTransaction list \<Rightarrow> payload_error + unit" where
  "check_txs pageSize ti [] = Inr ()"
| "check_txs pageSize ti (tx # txs) =
     (if Frames tx = [] then Inl (TxNoFrames ti)
      else if DBSize (last (Frames tx)) = 0 then Inl (TxNoCommit ti)
      else rbind (check_frames pageSize ti 0 (Frames tx)) (\<lambda>_. check_txs pageSize (Suc ti) txs))"

definition put_frame :: "WALFrame \<Rightarrow> bytes" where
  "put_frame f = be32 (PageNo f) @ be32 (DBSize f) @ Data f"

definition put_tx :: "WALTransaction \<Rightarrow> bytes" where
  "put_tx tx = be32 (word_of_nat (length (Frames tx))) @ concat (map put_frame (Frames tx))"

definition EncodeWALPayload :: "u32 \<Rightarrow> WALTransaction list \<Rightarrow> payload_error + bytes" where
  "EncodeWALPayload pageSize txs =
     (if pageSize = 0 then Inl ZeroPageSize
      else if txs = [] then Inl EmptyTxList
      else rbind (check_txs pageSize 0 txs) (\<lambda>_.
        Inr (walPayloadMagic @ be32 pageSize @ be32 (word_of_nat (length txs)) @ concat (map put_tx txs))))"

text \<open>Decoding, on the unread suffix \<open>payload[off:]\<close>.\<close>

fun take_frames :: "u32 \<Rightarrow> nat \<Rightarrow> nat \<Rightarrow> nat \<Rightarrow> bytes \<Rightarrow> payload_error + (WALFrame list \<times> bytes)" where
  "take_frames pageSize ti fi 0 rest = Inr ([], rest)"
| "take_frames pageSize ti fi (Suc n) rest =
     (let need = 8 + unat pageSize
      in if need > length rest then Inl (TruncatedFrame ti fi)
         else
           (let frame = \<lparr>PageNo = rd32 rest, DBSize = rd32 (drop 4 rest), Data = bslice 8 need rest\<rparr>
            in rbind (take_frames pageSize ti (Suc fi) n (drop need rest))
                 (\<lambda>(fs, rest'). Inr (frame # fs, rest'))))"

fun take_txs :: "u32 \<Rightarrow> nat \<Rightarrow> nat \<Rightarrow> bytes \<Rightarrow> payload_error + (WALTransaction list \<times> bytes)" where
  "take_txs pageSize ti 0 rest = Inr ([], rest)"
| "take_txs pageSize ti (Suc n) rest =
     (if 4 > length rest then Inl (TruncatedTx ti)
      else
        (let frameCount = unat (rd32 rest); rest1 = drop 4 rest
         in if frameCount = 0 \<or> frameCount > length rest1 div (8 + unat pageSize) then Inl (InvalidFrameCount ti)
            else
              rbind (take_frames pageSize ti 0 frameCount rest1) (\<lambda>(fs, rest2).
                if DBSize (last fs) = 0 then Inl (TxNoCommit ti)
                else rbind (take_txs pageSize (Suc ti) n rest2)
                       (\<lambda>(txs, rest3). Inr (\<lparr>Frames = fs\<rparr> # txs, rest3)))))"

definition DecodeWALPayload :: "bytes \<Rightarrow> payload_error + (u32 \<times> WALTransaction list)" where
  "DecodeWALPayload payload =
     (if length payload < 12 \<or> take 4 payload \<noteq> walPayloadMagic then Inl InvalidPayloadHeader
      else
        (let pageSize = rd32 (drop 4 payload); txCount = unat (rd32 (drop 8 payload))
         in if pageSize = 0 \<or> txCount = 0 then Inl InvalidPayloadDimensions
            else
              rbind (take_txs pageSize 0 txCount (drop 12 payload)) (\<lambda>(txs, rest).
                if rest \<noteq> [] then Inl TrailingPayload else Inr (pageSize, txs))))"

subsection \<open>Segment round trips\<close>

text \<open>The header \<open>Encode\<close> really writes: format version, payload length and checksum filled in.\<close>

definition sealed :: "Header \<Rightarrow> bytes \<Rightarrow> Header" where
  "sealed h payload = h\<lparr>Version := FormatVersion, Length := word_of_nat (length payload), CRC := crc32c payload\<rparr>"

lemma length_Magic [simp]: "length Magic = 4" by (simp add: Magic_def)

lemma length_Encode: "length (Encode h payload) = HeaderSize + length payload"
  by (simp add: Encode_def HeaderSize_def)

lemma Decode_Encode_append:
  assumes "length payload < 2 ^ 64"
  shows "Decode (Encode h payload @ rest) = Inr (sealed h payload, payload)"
proof -
  have "unat (word_of_nat (length payload) :: u64) = length payload"
    using assms by (simp add: unat_of_nat)
  then show ?thesis
    by (simp add: Decode_def Encode_def sealed_def HeaderSize_def codec_simps nth_append)
qed

lemma Decode_Encode: "length payload < 2 ^ 64 \<Longrightarrow> Decode (Encode h payload) = Inr (sealed h payload, payload)"
  using Decode_Encode_append [of payload h "[]"] by simp

lemma Split_Encode_append:
  assumes "length payload < 2 ^ 64"
  shows "Split (Encode h payload @ rest) = rbind (Split rest) (\<lambda>segs. Inr (Encode h payload # segs))"
proof -
  have len: "unat (word_of_nat (length payload) :: u64) = length payload"
    using assms by (simp add: unat_of_nat)
  have "bslice 0 4 (Encode h payload @ rest) = Magic"
    and "rd64 (bslice 32 40 (Encode h payload @ rest)) = word_of_nat (length payload)"
    by (simp_all add: Encode_def codec_simps)
  with len show ?thesis
    by (simp add: Split.simps [of "Encode h payload @ rest"] length_Encode Decode_Encode [OF assms]
        HeaderSize_def)
qed

lemma Split_concat_Encode:
  "(\<And>h p. (h, p) \<in> set segs \<Longrightarrow> length p < 2 ^ 64) \<Longrightarrow>
   Split (concat (map (\<lambda>(h, p). Encode h p) segs)) = Inr (map (\<lambda>(h, p). Encode h p) segs)"
proof (induction segs)
  case Nil
  show ?case by (simp add: Split.simps)
next
  case (Cons s segs)
  obtain h p where s: "s = (h, p)" by fastforce
  from Cons have "length p < 2 ^ 64" "Split (concat (map (\<lambda>(h, p). Encode h p) segs)) = Inr (map (\<lambda>(h, p). Encode h p) segs)"
    by (auto simp: s)
  then show ?case by (simp add: s Split_Encode_append)
qed

lemma Split_sound:
  "Split b = Inr segs \<Longrightarrow> concat segs = b \<and> (\<forall>seg \<in> set segs. \<exists>r. Decode seg = Inr r)"
proof (induction b arbitrary: segs rule: Split.induct)
  case (1 b)
  show ?case
  proof (cases "length b = 0")
    case True
    with "1.prems" show ?thesis by (simp add: Split.simps [of b])
  next
    case False
    let ?n = "HeaderSize + unat (rd64 (bslice 32 40 b))"
    from False "1.prems" obtain r segs' where
      g: "\<not> length b < HeaderSize" "bslice 0 4 b = Magic"
         "\<not> length b - HeaderSize < unat (rd64 (bslice 32 40 b))"
      and dec: "Decode (take ?n b) = Inr r"
      and rec: "Split (drop ?n b) = Inr segs'" and segs: "segs = take ?n b # segs'"
      by (auto simp: Split.simps [of b] Let_def rbind_eq_Inr_iff split: if_splits sum.splits)
    from "1.IH" [OF False g(1) _ refl g(3) refl refl dec rec] g(2)
    have "concat segs' = drop ?n b \<and> (\<forall>seg \<in> set segs'. \<exists>r. Decode seg = Inr r)" by simp
    with dec segs show ?thesis by auto
  qed
qed

lemma Decode_canonical:
  assumes "Decode b = Inr (h, p)"
  shows "take (HeaderSize + length p) b = Encode h p"
proof -
  let ?n = "unat (Length h)"
  have len: "44 \<le> length b" "?n \<le> length b - 44" 
    and h: "h = \<lparr>Version = b ! 4, HKind = b ! 5, Flags = rd16 (bslice 6 8 b), Epoch = rd64 (bslice 8 16 b),
                  StartTxID = rd64 (bslice 16 24 b), EndTxID = rd64 (bslice 24 32 b),
                  Length = rd64 (bslice 32 40 b), CRC = rd32 (bslice 40 44 b)\<rparr>"
    and ok: "bslice 0 4 b = Magic" "b ! 4 = FormatVersion" "crc32c p = CRC h"
    and p: "p = bslice 44 (44 + ?n) b"
    using assms by (auto simp: Decode_def HeaderSize_def Let_def split: if_splits)
  have lp: "length p = ?n" using len by (simp add: p length_bslice)
  then have wl: "(word_of_nat (length p) :: u64) = Length h" by simp
  have "Encode h p = bslice 0 4 b @ bslice 4 5 b @ bslice 5 6 b @ bslice 6 8 b @ bslice 8 16 b @ bslice 16 24 b
      @ bslice 24 32 b @ bslice 32 40 b @ bslice 40 44 b @ bslice 44 (44 + ?n) b"
    using len bslice_nth [of 4 b] bslice_nth [of 5 b]
    unfolding Encode_def wl ok(3) p [symmetric] Let_def
    by (simp add: ok(1,2) be_rd length_bslice) (simp add: h be_rd length_bslice ok)
  also have "\<dots> = bslice 0 (44 + ?n) b" by (simp add: bslice_split)
  finally show ?thesis by (simp add: bslice_def lp HeaderSize_def)
qed
subsection \<open>Payload round trip\<close>

lemma check_frames_iff:
  "check_frames ps ti fi fs = Inr u \<longleftrightarrow> (\<forall>f \<in> set fs. length (Data f) = unat ps)"
  by (induction ps ti fi fs rule: check_frames.induct) auto

lemma check_txs_iff:
  "check_txs ps ti txs = Inr u \<longleftrightarrow>
     (\<forall>tx \<in> set txs. Frames tx \<noteq> [] \<and> DBSize (last (Frames tx)) \<noteq> 0
        \<and> (\<forall>f \<in> set (Frames tx). length (Data f) = unat ps))"
  by (induction ps ti txs rule: check_txs.induct) (auto simp: rbind_eq_Inr_iff check_frames_iff)

lemma length_put_frame: "length (put_frame f) = 8 + length (Data f)"
  by (simp add: put_frame_def)

lemma take_frames_put:
  "\<forall>f \<in> set fs. length (Data f) = unat ps \<Longrightarrow>
   take_frames ps ti fi (length fs) (concat (map put_frame fs) @ rest) = Inr (fs, rest)"
proof (induction fs arbitrary: fi)
  case Nil
  show ?case by simp
next
  case (Cons f fs)
  then have "take_frames ps ti (Suc fi) (length fs) (concat (map put_frame fs) @ rest) = Inr (fs, rest)"
    and "length (Data f) = unat ps" by simp_all
  then show ?case by (simp add: put_frame_def [of f] codec_simps)
qed

lemma length_put_frames:
  "\<forall>f \<in> set fs. length (Data f) = n \<Longrightarrow> length (concat (map put_frame fs)) = length fs * (8 + n)"
  by (induction fs) (auto simp: length_put_frame)

lemma take_txs_put:
  assumes "\<forall>tx \<in> set txs. Frames tx \<noteq> [] \<and> DBSize (last (Frames tx)) \<noteq> 0 \<and> length (Frames tx) < 2 ^ 32
        \<and> (\<forall>f \<in> set (Frames tx). length (Data f) = unat ps)"
  shows "take_txs ps ti (length txs) (concat (map put_tx txs) @ rest) = Inr (txs, rest)"
  using assms
proof (induction txs arbitrary: ti)
  case Nil
  show ?case by simp
next
  case (Cons tx txs)
  let ?fs = "Frames tx" and ?r = "concat (map put_tx txs) @ rest"
  have fs: "?fs \<noteq> []" "DBSize (last ?fs) \<noteq> 0" "length ?fs < 2 ^ 32" "\<forall>f \<in> set ?fs. length (Data f) = unat ps"
    using Cons.prems by auto
  have cnt: "unat (word_of_nat (length ?fs) :: u32) = length ?fs" using fs(3) by (simp add: unat_of_nat)
  have "length ?fs \<le> length (concat (map put_frame ?fs) @ ?r) div (8 + unat ps)"
    by (simp only: length_append length_put_frames [OF fs(4)] less_eq_div_iff_mult_less_eq)
  moreover have "take_txs ps (Suc ti) (length txs) ?r = Inr (txs, rest)"
    using Cons by simp
  ultimately show ?case
    using fs cnt take_frames_put [OF fs(4), of ti 0 ?r]
    by (simp add: put_tx_def [of tx] codec_simps not_less)
qed

lemma DecodeWALPayload_Encode:
  assumes "EncodeWALPayload ps txs = Inr b" "length txs < 2 ^ 32" "\<forall>tx \<in> set txs. length (Frames tx) < 2 ^ 32"
  shows "DecodeWALPayload b = Inr (ps, txs)"
proof -
  have ok: "ps \<noteq> 0" "txs \<noteq> []" "check_txs ps 0 txs = Inr ()"
    and b: "b = walPayloadMagic @ be32 ps @ be32 (word_of_nat (length txs)) @ concat (map put_tx txs)"
    using assms(1) by (auto simp: EncodeWALPayload_def rbind_eq_Inr_iff split: if_splits)
  have cnt: "unat (word_of_nat (length txs) :: u32) = length txs" using assms(2) by (simp add: unat_of_nat)
  have "take_txs ps 0 (length txs) (concat (map put_tx txs) @ []) = Inr (txs, [])"
    using ok(3) assms(3) by (intro take_txs_put) (auto simp: check_txs_iff)
  with ok cnt show ?thesis
    by (simp add: DecodeWALPayload_def b walPayloadMagic_def codec_simps)
qed

lemma flag_bits: "flagSnapshotPaged = push_bit 15 1" "snapshotPartMask = mask 15"
  by (simp_all add: snapshotPartMask_def flagSnapshotPaged_def mask_eq_exp_minus_1)

lemma flags_part:
  "(push_bit 15 1 OR (w AND mask 15)) AND mask 15 = (w AND mask 15 :: u16)"
  "(push_bit 15 1 OR (w AND mask 15)) AND push_bit 15 1 \<noteq> (0 :: u16)"
proof -
  show "(push_bit 15 1 OR (w AND mask 15)) AND mask 15 = (w AND mask 15 :: u16)"
    by (rule bit_eqI) (auto simp only: bit_and_iff bit_or_iff bit_push_bit_iff bit_mask_iff)
  have "bit ((push_bit 15 1 OR (w AND mask 15)) AND push_bit 15 1 :: u16) 15"
    by (simp only: bit_and_iff bit_or_iff bit_push_bit_iff) simp
  then show "(push_bit 15 1 OR (w AND mask 15)) AND push_bit 15 1 \<noteq> (0 :: u16)"
    by (auto simp only: bit_0_eq bot_apply bot_bool_def)
qed

lemma SnapshotPart_SnapshotFlags:
  assumes "0 \<le> part" "part < 2 ^ 15" "HKind h = KindSnapshot" "Flags h = SnapshotFlags part"
  shows "SnapshotPart h = (nat part, True)"
proof -
  have "unat ((word_of_int part :: u16) AND mask 15) = take_bit 15 (unat (word_of_int part :: u16))"
    by (simp only: take_bit_eq_mask [symmetric] unsigned_take_bit_eq)
  also have "unat (word_of_int part :: u16) = nat part"
    using assms(1,2) by (simp add: unsigned_of_int take_bit_int_eq_self)
  also have "take_bit 15 (nat part) = nat part"
    using assms(1,2) by (intro take_bit_nat_eq_self) simp
  finally show ?thesis
    using assms flags_part [of "word_of_int part"]
    by (simp add: SnapshotPart_def SnapshotFlags_def flag_bits Let_def not_less)
qed

lemma SnapshotPart_unpaged: "Flags h = 0 \<Longrightarrow> SnapshotPart h = (0, False)"
  by (simp add: SnapshotPart_def)

subsection \<open>Properties\<close>

text \<open>A segment decodes to the header and payload it was encoded from, with the format version,
  payload length and payload checksum filled in.\<close>

theorem ltx_roundtrip:
  assumes "length payload < 2 ^ 63"
  shows "Decode (Encode h payload) = Inr (sealed h payload, payload)"
  using assms by (intro Decode_Encode) simp

theorem ltx_roundtrip_witness:
  "length [1, 2, 3 :: byte] < 2 ^ 63
     \<and> Decode (Encode \<lparr>Version = 0, HKind = KindDelta, Flags = 0, Epoch = 3, StartTxID = 7, EndTxID = 9,
         Length = 0, CRC = 0\<rparr> [1, 2, 3])
       = Inr (\<lparr>Version = 1, HKind = KindDelta, Flags = 0, Epoch = 3, StartTxID = 7, EndTxID = 9,
         Length = 3, CRC = crc32c [1, 2, 3]\<rparr>, [1, 2, 3])"
proof -
  have le: "length [1, 2, 3 :: byte] < 2 ^ 63" by simp
  from le ltx_roundtrip [OF le] show ?thesis by (simp add: sealed_def FormatVersion_def)
qed



text \<open>Splitting a group-commit batch returns exactly the segments that were concatenated, in order.\<close>

theorem split_recovers_batch:
  assumes "\<forall>(h, p) \<in> set segs. length p < 2 ^ 63"
  shows "Split (concat (map (\<lambda>(h, p). Encode h p) segs)) = Inr (map (\<lambda>(h, p). Encode h p) segs)"
  using assms by (intro Split_concat_Encode) force

theorem split_recovers_batch_witness:
  "\<forall>h. Split (Encode h [1] @ Encode h [2, 3]) = Inr [Encode h [1], Encode h [2, 3]]"
proof
  fix h :: Header
  have "\<forall>(h, p) \<in> set [(h, [1]), (h, [2, 3 :: byte])]. length p < 2 ^ 63" by simp
  from split_recovers_batch [OF this]
  show "Split (Encode h [1] @ Encode h [2, 3]) = Inr [Encode h [1], Encode h [2, 3]]" by simp
qed



text \<open>C24: committed WAL transactions survive the WAL1 payload: decoding what the encoder accepted
  returns the page size and the same transactions, frame by frame (counts below 2^32, the width of
  the count fields).\<close>

theorem wal_payload_roundtrip:
  assumes "EncodeWALPayload ps txs = Inr b" and "length txs < 2 ^ 32"
    and "\<forall>tx \<in> set txs. length (Frames tx) < 2 ^ 32"
  shows "DecodeWALPayload b = Inr (ps, txs)"
  using assms by (rule DecodeWALPayload_Encode)

theorem wal_payload_roundtrip_witness:
  "\<exists>b. EncodeWALPayload 2 [\<lparr>Frames = [\<lparr>PageNo = 1, DBSize = 1, Data = [8, 9]\<rparr>]\<rparr>] = Inr b
     \<and> DecodeWALPayload b = Inr (2, [\<lparr>Frames = [\<lparr>PageNo = 1, DBSize = 1, Data = [8, 9]\<rparr>]\<rparr>])"
proof -
  let ?txs = "[\<lparr>Frames = [\<lparr>PageNo = 1, DBSize = 1, Data = [8, 9 :: byte]\<rparr>]\<rparr>]"
  obtain b where b: "EncodeWALPayload 2 ?txs = Inr b" by (simp add: EncodeWALPayload_def)
  have "DecodeWALPayload b = Inr (2, ?txs)" by (rule wal_payload_roundtrip [OF b]) simp_all
  with b show ?thesis by blast
qed

text \<open>When two headers name the same object.\<close>

definition same_object :: "Header \<Rightarrow> Header \<Rightarrow> bool" where
  "same_object a b \<longleftrightarrow>
     (if HKind a = KindSnapshot then HKind b = KindSnapshot \<and> EndTxID a = EndTxID b \<and> SnapshotPart a = SnapshotPart b
      else if HKind a = KindLink then HKind b = KindLink \<and> StartTxID a = StartTxID b
      else if HKind a = KindMarker then HKind b = KindMarker \<and> StartTxID a = StartTxID b
      else HKind b \<notin> {KindSnapshot, KindLink, KindMarker} \<and> StartTxID a = StartTxID b \<and> EndTxID a = EndTxID b)"

lemma SnapshotPart_unpaged_fst: "SnapshotPart h = (n, False) \<Longrightarrow> n = 0"
  by (auto simp: SnapshotPart_def split: if_splits)

text \<open>Object names do not collide: two segments get the same object key exactly when they are the
  same kind of segment over the same transaction ids and, for snapshots, the same part.\<close>

lemma segment_name_identifies: "SegmentName a = SegmentName b \<longleftrightarrow> same_object a b"
  by (cases "SnapshotPart a"; cases "SnapshotPart b"; cases "snd (SnapshotPart a)"; cases "snd (SnapshotPart b)")
    (auto simp: SegmentName_def same_object_def dec_split_simps kind_defs dest: SnapshotPart_unpaged_fst)

text \<open>The content identity of a segment is exactly its epoch, kind, transaction range and checksum.\<close>

lemma id_identifies:
  "ID a = ID b \<longleftrightarrow> Epoch a = Epoch b \<and> HKind a = HKind b \<and> StartTxID a = StartTxID b
     \<and> EndTxID a = EndTxID b \<and> CRC a = CRC b"
  by (simp add: ID_def dec_split_simps)

text \<open>A part index of 2^15 is not clamped to the largest index but wraps to part 0.\<close>

theorem snapshot_flags_wrap:
  "SnapshotFlags 32768 = SnapshotFlags 0 \<and> SnapshotFlags 32768 \<noteq> SnapshotFlags 32767"
  by (simp add: SnapshotFlags_def snapshotPartMask_def flagSnapshotPaged_def)

end
