(* ===== verification/PageMap.thy ===== *)
theory PageMap
  imports Ltx Lz4
begin

unbundle bit_operations_syntax

text \<open>
  Page-map payloads: \<^verbatim>\<open>src/internal/ltx/wal_pagemap.go\<close> (collapsing committed transactions to the
  final page images, the fixed-frame WAL2 format, the compressed and indexed WAL3 format, and the
  readers over both) and \<^verbatim>\<open>src/internal/ltx/snapshot_parts.go\<close> (paging a full snapshot into parts).
\<close>

subsection \<open>Types and constants\<close>

definition walPageMapMagic :: bytes where "walPageMapMagic = [0x57, 0x41, 0x4C, 0x32]"
definition walPageMapV2Magic :: bytes where "walPageMapV2Magic = [0x57, 0x41, 0x4C, 0x33]"
definition PageMapHeaderSize :: nat where "PageMapHeaderSize = 20"
definition pageMapV2HeaderSize :: nat where "pageMapV2HeaderSize = 24"
definition pageMapV2IndexStride :: nat where "pageMapV2IndexStride = 12"
definition CodecRaw :: u32 where "CodecRaw = 0"
definition CodecLZ4 :: u32 where "CodecLZ4 = 1"
definition CodecBit :: u32 where "CodecBit = push_bit 31 1"

lemmas pm_sizes = PageMapHeaderSize_def pageMapV2HeaderSize_def pageMapV2IndexStride_def
lemmas codec_defs = CodecRaw_def CodecLZ4_def

record PageLoc =
  Pgno :: u32
  Off :: nat
  Stored :: nat
  Size :: u32
  Codec :: u32

record WALPage =
  WPageNo :: u32
  WData :: bytes

record pageMapDesc =
  pageSize :: u32
  commit :: u32
  txCount :: nat
  pageCount :: nat
  v2 :: bool

datatype pm_error =
    ZeroPage | EmptyTxs | NoFrames nat | NoCommit nat | FrameLength nat u32
  | InvalidTxCount int | PageLength u32 | NotAscending | InvalidDimensions | BadLength
  | TooManyPages | TruncatedIndex | InvalidHeader | TruncatedEntry | InvalidFrame nat | RawSize nat
  | FrameBounds nat | OutOfBounds | RawLength | UnknownCodec u32 | Lz4Error lz4_error

text \<open>An \<open>int\<close> (64 bits, two's complement) computed from non-negative operands.\<close>

definition goint :: "nat \<Rightarrow> int" where
  "goint n = sint (word_of_nat n :: u64)"

definition PageEntryOffset :: "u32 \<Rightarrow> nat \<Rightarrow> nat" where
  "PageEntryOffset ps pos = PageMapHeaderSize + pos * (4 + unat ps)"

subsection \<open>Collapsing transactions\<close>

text \<open>\<open>pages[pos].Data = frame.Data\<close> when the page was seen, \<open>append\<close> otherwise.\<close>

fun upsert :: "u32 \<Rightarrow> bytes \<Rightarrow> WALPage list \<Rightarrow> WALPage list" where
  "upsert n d [] = [\<lparr>WPageNo = n, WData = d\<rparr>]"
| "upsert n d (p # ps) = (if WPageNo p = n then p\<lparr>WData := d\<rparr> # ps else p # upsert n d ps)"

fun collapse_frames ::
  "u32 \<Rightarrow> nat \<Rightarrow> WALFrame list \<Rightarrow> WALPage list \<Rightarrow> u32 \<Rightarrow> pm_error + (WALPage list \<times> u32)" where
  "collapse_frames ps ti [] pages cm = Inr (pages, cm)"
| "collapse_frames ps ti (f # fs) pages cm =
     (if length (Data f) \<noteq> unat ps then Inl (FrameLength ti (PageNo f))
      else collapse_frames ps ti fs (upsert (PageNo f) (Data f) pages) (if DBSize f \<noteq> 0 then DBSize f else cm))"

fun collapse_txs ::
  "u32 \<Rightarrow> nat \<Rightarrow> WALTransaction list \<Rightarrow> WALPage list \<Rightarrow> u32 \<Rightarrow> pm_error + (WALPage list \<times> u32)" where
  "collapse_txs ps ti [] pages cm = Inr (pages, cm)"
| "collapse_txs ps ti (tx # txs) pages cm =
     (if Frames tx = [] then Inl (NoFrames ti)
      else if DBSize (last (Frames tx)) = 0 then Inl (NoCommit ti)
      else rbind (collapse_frames ps ti (Frames tx) pages cm)
             (\<lambda>(pages', cm'). collapse_txs ps (Suc ti) txs pages' cm'))"

definition PageMapFromTransactions :: "u32 \<Rightarrow> WALTransaction list \<Rightarrow> pm_error + (u32 \<times> WALPage list)" where
  "PageMapFromTransactions ps txs =
     (if ps = 0 then Inl ZeroPage
      else if txs = [] then Inl EmptyTxs
      else rbind (collapse_txs ps 0 txs [] 0) (\<lambda>(pages, cm). Inr (cm, sort_key WPageNo pages)))"

subsection \<open>Writers\<close>

text \<open>\<open>i > 0 && page.PageNo <= seen\<close>; \<open>None\<close> is the state before the first page.\<close>

definition not_ascending :: "u32 option \<Rightarrow> u32 \<Rightarrow> bool" where
  "not_ascending seen n = (case seen of None \<Rightarrow> False | Some s \<Rightarrow> n \<le> s)"

text \<open>The frame stored for a page: its LZ4 block when that is smaller, else the raw page.\<close>

definition page_frame :: "bytes \<Rightarrow> bytes \<times> u32" where
  "page_frame d = (let enc = EncodeBlock d in if length enc < length d then (enc, CodecLZ4) else (d, CodecRaw))"

fun build_frames ::
  "u32 \<Rightarrow> nat \<Rightarrow> u32 option \<Rightarrow> bytes \<Rightarrow> WALPage list \<Rightarrow> pm_error + (PageLoc list \<times> bytes)" where
  "build_frames ps indexEnd seen frames [] = Inr ([], frames)"
| "build_frames ps indexEnd seen frames (p # pages) =
     (if length (WData p) \<noteq> unat ps then Inl (PageLength (WPageNo p))
      else if not_ascending seen (WPageNo p) then Inl NotAscending
      else
        (let (frame, codec) = page_frame (WData p);
             loc = \<lparr>Pgno = WPageNo p, Off = indexEnd + length frames, Stored = length frame, Size = ps, Codec = codec\<rparr>
         in rbind (build_frames ps indexEnd (Some (WPageNo p)) (frames @ frame) pages)
              (\<lambda>(locs, frames'). Inr (loc # locs, frames'))))"

definition put_loc :: "PageLoc \<Rightarrow> bytes" where
  "put_loc l =
     be32 (Pgno l) @ be32 (word_of_nat (Off l))
       @ be32 (if Codec l = CodecLZ4 then word_of_nat (Stored l) OR CodecBit else word_of_nat (Stored l))"

fun put_pages_v1 :: "u32 \<Rightarrow> u32 option \<Rightarrow> WALPage list \<Rightarrow> pm_error + bytes" where
  "put_pages_v1 ps seen [] = Inr []"
| "put_pages_v1 ps seen (p # pages) =
     (if length (WData p) \<noteq> unat ps then Inl (PageLength (WPageNo p))
      else if not_ascending seen (WPageNo p) then Inl NotAscending
      else rbind (put_pages_v1 ps (Some (WPageNo p)) pages) (\<lambda>rest. Inr (be32 (WPageNo p) @ WData p @ rest)))"

definition encodeWALPageMapV1 :: "u32 \<Rightarrow> u32 \<Rightarrow> int \<Rightarrow> WALPage list \<Rightarrow> pm_error + bytes" where
  "encodeWALPageMapV1 ps cm tc pages =
     (if ps = 0 then Inl ZeroPage
      else if tc \<le> 0 then Inl (InvalidTxCount tc)
      else rbind (put_pages_v1 ps None pages) (\<lambda>body.
        Inr (walPageMapMagic @ be32 ps @ be32 cm @ be32 (word_of_int tc) @ be32 (word_of_nat (length pages)) @ body)))"

text \<open>The package variable \<open>CompressionEnabled\<close> is the first argument.\<close>

definition EncodeWALPageMap :: "bool \<Rightarrow> u32 \<Rightarrow> u32 \<Rightarrow> int \<Rightarrow> WALPage list \<Rightarrow> pm_error + bytes" where
  "EncodeWALPageMap compressionEnabled ps cm tc pages =
     (if \<not> compressionEnabled then encodeWALPageMapV1 ps cm tc pages
      else if ps = 0 then Inl ZeroPage
      else if tc \<le> 0 then Inl (InvalidTxCount tc)
      else
        (let indexEnd = pageMapV2HeaderSize + length pages * pageMapV2IndexStride
         in rbind (build_frames ps indexEnd None [] pages) (\<lambda>(locs, frames).
              Inr (walPageMapV2Magic @ be32 ps @ be32 cm @ be32 (word_of_int tc)
                   @ be32 (word_of_nat (length pages)) @ be32 0 @ concat (map put_loc locs) @ frames))))"

subsection \<open>Readers\<close>

definition describePageMap :: "bytes \<Rightarrow> pm_error + pageMapDesc" where
  "describePageMap payload =
     (let d = \<lparr>pageSize = rd32 (drop 4 payload), commit = rd32 (drop 8 payload),
               txCount = unat (rd32 (drop 12 payload)), pageCount = unat (rd32 (drop 16 payload)), v2 = False\<rparr>
      in if length payload \<ge> 20 \<and> take 4 payload = walPageMapMagic then
           (if pageSize d = 0 \<or> txCount d = 0 then Inl InvalidDimensions
            else if goint (20 + pageCount d * (4 + unat (pageSize d))) \<noteq> int (length payload) then Inl BadLength
            else Inr d)
         else if length payload \<ge> pageMapV2HeaderSize \<and> take 4 payload = walPageMapV2Magic then
           (let d = d\<lparr>v2 := True\<rparr>
            in if pageSize d = 0 \<or> txCount d = 0 then Inl InvalidDimensions
               else if pageCount d > 2 ^ 31 div pageMapV2IndexStride then Inl TooManyPages
               else if pageMapV2HeaderSize + pageCount d * pageMapV2IndexStride > length payload then Inl TruncatedIndex
               else Inr d)
         else Inl InvalidHeader)"

fun locs_v1 :: "bytes \<Rightarrow> u32 \<Rightarrow> nat \<Rightarrow> u32 option \<Rightarrow> nat \<Rightarrow> pm_error + PageLoc list" where
  "locs_v1 payload ps 0 prev off = Inr []"
| "locs_v1 payload ps (Suc n) prev off =
     (if off + 4 + unat ps > length payload then Inl TruncatedEntry
      else
        (let pgno = rd32 (drop off payload)
         in if not_ascending prev pgno then Inl NotAscending
            else rbind (locs_v1 payload ps n (Some pgno) (off + 4 + unat ps))
                   (\<lambda>locs. Inr (\<lparr>Pgno = pgno, Off = off + 4, Stored = unat ps, Size = ps, Codec = CodecRaw\<rparr> # locs))))"

fun locs_v2 :: "bytes \<Rightarrow> u32 \<Rightarrow> nat \<Rightarrow> nat \<Rightarrow> nat \<Rightarrow> u32 option \<Rightarrow> pm_error + PageLoc list" where
  "locs_v2 payload ps indexEnd 0 i prev = Inr []"
| "locs_v2 payload ps indexEnd (Suc n) i prev =
     (let at = pageMapV2HeaderSize + i * pageMapV2IndexStride;
          pgno = rd32 (drop at payload);
          off = unat (rd32 (drop (at + 4) payload));
          w = rd32 (drop (at + 8) payload);
          stored = unat (w AND NOT CodecBit);
          codec = (if w AND CodecBit \<noteq> 0 then CodecLZ4 else CodecRaw)
      in if not_ascending prev pgno then Inl NotAscending
         else if stored = 0 \<or> codec > CodecLZ4 then Inl (InvalidFrame i)
         else if codec = CodecRaw \<and> stored \<noteq> unat ps then Inl (RawSize i)
         else if off < indexEnd \<or> off + stored > length payload then Inl (FrameBounds i)
         else rbind (locs_v2 payload ps indexEnd n (Suc i) (Some pgno))
                (\<lambda>locs. Inr (\<lparr>Pgno = pgno, Off = off, Stored = stored, Size = ps, Codec = codec\<rparr> # locs)))"

definition PageLocs :: "bytes \<Rightarrow> pm_error + PageLoc list" where
  "PageLocs payload =
     rbind (describePageMap payload) (\<lambda>d.
       if \<not> v2 d then locs_v1 payload (pageSize d) (pageCount d) None PageMapHeaderSize
       else locs_v2 payload (pageSize d) (pageMapV2HeaderSize + pageCount d * pageMapV2IndexStride)
              (pageCount d) 0 None)"

definition FrameData :: "bytes \<Rightarrow> PageLoc \<Rightarrow> pm_error + bytes" where
  "FrameData payload loc =
     (if Off loc + Stored loc > length payload then Inl OutOfBounds
      else
        (let frame = bslice (Off loc) (Off loc + Stored loc) payload
         in if Codec loc = CodecRaw then
              (if length frame \<noteq> unat (Size loc) then Inl RawLength else Inr frame)
            else if Codec loc = CodecLZ4 then
              (case DecodeBlock frame (unat (Size loc)) of Inl e \<Rightarrow> Inl (Lz4Error e) | Inr out \<Rightarrow> Inr out)
            else Inl (UnknownCodec (Codec loc))))"

definition DecodeWALPageMap :: "bytes \<Rightarrow> pm_error + (u32 \<times> u32 \<times> nat \<times> WALPage list)" where
  "DecodeWALPageMap payload =
     rbind (describePageMap payload) (\<lambda>d.
     rbind (PageLocs payload) (\<lambda>locs.
     rbind (rmap (\<lambda>loc. rbind (FrameData payload loc) (\<lambda>data. Inr \<lparr>WPageNo = Pgno loc, WData = data\<rparr>)) locs) (\<lambda>pages.
       Inr (pageSize d, commit d, txCount d, pages))))"

definition PageMapNumbers :: "bytes \<Rightarrow> pm_error + u32 list" where
  "PageMapNumbers payload = rbind (PageLocs payload) (\<lambda>locs. Inr (map Pgno locs))"

fun lookup_locs :: "bytes \<Rightarrow> u32 \<Rightarrow> PageLoc list \<Rightarrow> pm_error + bytes option" where
  "lookup_locs payload pgno [] = Inr None"
| "lookup_locs payload pgno (loc # locs) =
     (if Pgno loc = pgno then rbind (FrameData payload loc) (\<lambda>data. Inr (Some data))
      else lookup_locs payload pgno locs)"

definition PageMapLookup :: "bytes \<Rightarrow> u32 \<Rightarrow> pm_error + bytes option" where
  "PageMapLookup payload pgno = rbind (PageLocs payload) (lookup_locs payload pgno)"

subsection \<open>Snapshot parts\<close>

definition DefaultSnapshotPartBytes :: int where "DefaultSnapshotPartBytes = 8 * 2 ^ 20"
definition MaxSnapshotParts :: int where "MaxSnapshotParts = 2 ^ 15"

datatype snap_error =
    NotSnapshot | SnapZeroPage | SnapNoPages | BudgetTooSmall | SnapPageCount | PartOutOfRange | TooManyParts
  | EmptyPart | PartCover | FirstPartStart | PartStartsAtOne | LastPartEnd | NotContiguous nat | SnapPageLength nat
  | SnapPayload pm_error

fun check_part :: "u32 \<Rightarrow> nat \<Rightarrow> nat \<Rightarrow> WALPage list \<Rightarrow> snap_error + unit" where
  "check_part ps first i [] = Inr ()"
| "check_part ps first i (p # pages) =
     (if unat (WPageNo p) \<noteq> first + i then Inl (NotContiguous i)
      else if length (WData p) \<noteq> unat ps then Inl (SnapPageLength i)
      else check_part ps first (Suc i) pages)"

definition EncodeSnapshotPart ::
  "bool \<Rightarrow> Header \<Rightarrow> u32 \<Rightarrow> u32 \<Rightarrow> WALPage list \<Rightarrow> int \<Rightarrow> int \<Rightarrow> snap_error + bytes" where
  "EncodeSnapshotPart compressionEnabled h ps cm pages partIndex total_parts =
     (if HKind h \<noteq> KindSnapshot then Inl NotSnapshot
      else if ps = 0 then Inl SnapZeroPage
      else if cm = 0 then Inl SnapNoPages
      else if total_parts < 1 \<or> partIndex < 0 \<or> partIndex \<ge> total_parts then Inl PartOutOfRange
      else if total_parts > MaxSnapshotParts then Inl TooManyParts
      else if pages = [] then Inl EmptyPart
      else
        (let first = unat (WPageNo (hd pages)); lst = first + length pages - 1
         in if first < 1 \<or> lst > unat cm then Inl PartCover
            else if partIndex = 0 \<and> first \<noteq> 1 then Inl FirstPartStart
            else if partIndex > 0 \<and> first = 1 then Inl PartStartsAtOne
            else if partIndex = total_parts - 1 \<and> lst \<noteq> unat cm then Inl LastPartEnd
            else
              rbind (check_part ps first 0 pages) (\<lambda>_.
                (let ph = h\<lparr>Flags := (if total_parts = 1 then 0 else SnapshotFlags partIndex)\<rparr>
                 in case EncodeWALPageMap compressionEnabled ps cm 1 pages of
                      Inl e \<Rightarrow> Inl (SnapPayload e)
                    | Inr payload \<Rightarrow> Inr (Encode ph payload)))))"

text \<open>The loop runs over \<open>i = 0, perPart, 2 * perPart, \<dots>\<close> below \<open>len(pages)\<close>, that is over the part
  indices \<open>i / perPart = 0, \<dots>, total - 1\<close>.\<close>

definition EncodeSnapshotParts ::
  "bool \<Rightarrow> Header \<Rightarrow> u32 \<Rightarrow> u32 \<Rightarrow> WALPage list \<Rightarrow> int \<Rightarrow> snap_error + bytes list" where
  "EncodeSnapshotParts compressionEnabled h ps cm pages maxBytes =
     (if HKind h \<noteq> KindSnapshot then Inl NotSnapshot
      else if ps = 0 then Inl SnapZeroPage
      else if cm = 0 then Inl SnapNoPages
      else
        (let perPartBytes = 4 + unat ps
         in if maxBytes < int (HeaderSize + 20 + perPartBytes) then Inl BudgetTooSmall
            else if word_of_nat (length pages) \<noteq> cm then Inl SnapPageCount
            else
              (let q = (nat maxBytes - HeaderSize - 20) div perPartBytes;
                   perPart = (if q < 1 then 1 else q);
                   total_parts = (length pages + perPart - 1) div perPart
               in rmap (\<lambda>k. EncodeSnapshotPart compressionEnabled h ps cm
                          (bslice (k * perPart) (min (k * perPart + perPart) (length pages)) pages)
                          (int k) (int total_parts))
                    [0..<total_parts])))"

subsection \<open>Reading back what was written\<close>

fun asc :: "u32 option \<Rightarrow> u32 list \<Rightarrow> bool" where
  "asc prev [] = True"
| "asc prev (n # ns) = (\<not> not_ascending prev n \<and> asc (Some n) ns)"

context block_codec
begin
lemma stored_frame:
  assumes "d \<noteq> []" "length d \<le> limit" "length (enc d) < length d"
  shows "dec (enc d) (length d) = Inr d" "0 < length (enc d)"
  using assms dec_enc enc_nonempty by auto
end

definition frame_at :: "bytes \<Rightarrow> WALPage \<Rightarrow> PageLoc \<Rightarrow> bool" where
  "frame_at b p l \<longleftrightarrow> Pgno l = WPageNo p \<and> FrameData b l = Inr (WData p)"

definition pagemap_of :: "bytes \<Rightarrow> u32 \<Rightarrow> u32 \<Rightarrow> nat \<Rightarrow> WALPage list \<Rightarrow> bool" where
  "pagemap_of b ps cm tc pages \<longleftrightarrow>
     (\<exists>d locs. describePageMap b = Inr d \<and> pageSize d = ps \<and> commit d = cm \<and> txCount d = tc
        \<and> PageLocs b = Inr locs \<and> list_all2 (frame_at b) pages locs)"

lemma pagemap_of_decode: "pagemap_of b ps cm tc pages \<Longrightarrow> DecodeWALPageMap b = Inr (ps, cm, tc, pages)"
proof -
  assume "pagemap_of b ps cm tc pages"
  then obtain d locs where d: "describePageMap b = Inr d" "pageSize d = ps" "commit d = cm" "txCount d = tc"
    and locs: "PageLocs b = Inr locs" "list_all2 (frame_at b) pages locs"
    by (auto simp: pagemap_of_def)
  have "rmap (\<lambda>loc. rbind (FrameData b loc) (\<lambda>data. Inr \<lparr>WPageNo = Pgno loc, WData = data\<rparr>)) locs = Inr pages"
    unfolding rmap_eq_Inr_iff list_all2_conv_all_nth
    using locs(2) by (auto simp: list_all2_conv_all_nth frame_at_def)
  with d locs(1) show ?thesis by (simp add: DecodeWALPageMap_def)
qed

lemma pagemap_of_numbers: "pagemap_of b ps cm tc pages \<Longrightarrow> PageMapNumbers b = Inr (map WPageNo pages)"
  by (auto simp: pagemap_of_def PageMapNumbers_def list_all2_conv_all_nth frame_at_def intro!: nth_equalityI)

lemma lookup_frame_at:
  "list_all2 (frame_at b) pages locs \<Longrightarrow>
   lookup_locs b n locs = Inr (map_of (map (\<lambda>p. (WPageNo p, WData p)) pages) n)"
  by (induction rule: list_all2_induct) (auto simp: frame_at_def)

lemma pagemap_of_lookup:
  "pagemap_of b ps cm tc pages \<Longrightarrow>
   PageMapLookup b n = Inr (map_of (map (\<lambda>p. (WPageNo p, WData p)) pages) n)"
  by (auto simp: pagemap_of_def PageMapLookup_def lookup_frame_at)

lemma codec_bit:
  assumes "n < 2 ^ 31"
  defines "w \<equiv> word_of_nat n :: u32"
  shows "w AND NOT CodecBit = w" "w AND CodecBit = 0"
    "(w OR CodecBit) AND NOT CodecBit = w" "(w OR CodecBit) AND CodecBit \<noteq> 0"
proof -
  have "take_bit 31 n = n" using assms(1) by (simp add: take_bit_nat_eq_self)
  then have w: "bit w k \<Longrightarrow> k < 31" for k
    unfolding w_def by (metis bit_take_bit_iff bit_of_nat_iff)
  have cb: "bit CodecBit k \<longleftrightarrow> k = 31" for k
    by (auto simp: CodecBit_def bit_push_bit_iff bit_1_iff simp del: push_bit_of_1)
  show "w AND NOT CodecBit = w" "w AND CodecBit = 0" "(w OR CodecBit) AND NOT CodecBit = w"
    by (rule bit_eqI; auto simp: bit_and_iff bit_or_iff bit_not_iff cb dest: w)+
  have "bit ((w OR CodecBit) AND CodecBit) 31" by (simp add: bit_and_iff bit_or_iff cb)
  then show "(w OR CodecBit) AND CodecBit \<noteq> 0" by auto
qed

definition wf_loc :: "u32 \<Rightarrow> nat \<Rightarrow> nat \<Rightarrow> PageLoc \<Rightarrow> bool" where
  "wf_loc ps ie n l \<longleftrightarrow> Off l < 2 ^ 32 \<and> 0 < Stored l \<and> Stored l < 2 ^ 31 \<and> Size l = ps
     \<and> (Codec l = CodecRaw \<and> Stored l = unat ps \<or> Codec l = CodecLZ4) \<and> ie \<le> Off l \<and> Off l + Stored l \<le> n"

lemma locs_v2_put:
  assumes "drop (24 + i * 12) b = concat (map put_loc ls) @ fr"
    and "\<forall>l \<in> set ls. wf_loc ps ie (length b) l" and "asc prev (map Pgno ls)"
  shows "locs_v2 b ps ie (length ls) i prev = Inr ls"
  using assms
proof (induction ls arbitrary: i prev)
  case Nil
  then show ?case by simp
next
  case (Cons l ls)
  have at: "drop (24 + i * 12) b = put_loc l @ (concat (map put_loc ls) @ fr)" using Cons.prems(1) by simp
  have len: "length (put_loc l) = 12" by (simp add: put_loc_def)
  have "drop (24 + Suc i * 12) b = drop 12 (drop (24 + i * 12) b)" by (simp add: algebra_simps)
  then have nxt: "drop (24 + Suc i * 12) b = concat (map put_loc ls) @ fr" by (simp only: at) (simp add: len)
  have wf: "wf_loc ps ie (length b) l" using Cons.prems(2) by simp
  let ?s = "if Codec l = CodecLZ4 then word_of_nat (Stored l) OR CodecBit else word_of_nat (Stored l) :: u32"
  have d4: "drop (24 + i * 12 + 4) b = drop 4 (drop (24 + i * 12) b)" "drop (24 + i * 12 + 8) b = drop 8 (drop (24 + i * 12) b)"
    by (simp_all add: add.commute)
  have rd: "rd32 (drop (24 + i * 12) b) = Pgno l" "rd32 (drop (24 + i * 12 + 4) b) = word_of_nat (Off l)"
    "rd32 (drop (24 + i * 12 + 8) b) = ?s"
    unfolding d4 at by (simp_all add: put_loc_def codec_simps)
  have un: "unat (word_of_nat (Off l) :: u32) = Off l" "unat (word_of_nat (Stored l) :: u32) = Stored l"
    using wf by (simp_all add: wf_loc_def unat_of_nat)
  have st: "unat (?s AND NOT CodecBit) = Stored l" "(if ?s AND CodecBit \<noteq> 0 then CodecLZ4 else CodecRaw) = Codec l"
    using wf codec_bit [of "Stored l"] un(2) by (auto simp: wf_loc_def codec_defs)
  have "locs_v2 b ps ie (length ls) (Suc i) (Some (Pgno l)) = Inr ls"
    using Cons.prems nxt by (intro Cons.IH) auto
  then show ?case
    using wf Cons.prems(3)
    unfolding length_Cons locs_v2.simps pm_sizes rd st un Let_def
    by (auto simp: wf_loc_def codec_defs)
qed

lemma page_frame_cases:
  assumes "d \<noteq> []" "length d \<le> 2 ^ 30" "page_frame d = (frame, codec)"
  shows "0 < length frame" "length frame \<le> length d"
    "codec = CodecRaw \<and> frame = d \<or> codec = CodecLZ4 \<and> DecodeBlock frame (length d) = Inr d"
  using assms lz4.stored_frame [OF assms(1,2)]
  by (auto simp: page_frame_def Let_def split: if_splits)

lemma FrameData_hit:
  assumes "d \<noteq> []" "length d \<le> 2 ^ 30" "page_frame d = (frame, codec)" "length d = unat ps"
    and "Off l = length pre" "Stored l = length frame" "Size l = ps" "Codec l = codec"
  shows "FrameData (pre @ frame @ post) l = Inr d"
proof -
  have "bslice (Off l) (Off l + Stored l) (pre @ frame @ post) = frame"
    using assms(5,6) by (intro bslice_append_exact) auto
  with assms page_frame_cases(3) [OF assms(1-3)] show ?thesis
    by (auto simp: FrameData_def Let_def codec_defs)
qed

lemma build_frames_spec:
  assumes "build_frames ps ie seen fr0 pages = Inr (locs, fr)" "0 < unat ps" "unat ps \<le> 2 ^ 30"
  shows "\<exists>tl. fr = fr0 @ tl \<and> length locs = length pages \<and> length tl \<le> length pages * unat ps
     \<and> asc seen (map Pgno locs)
     \<and> (\<forall>l \<in> set locs. ie \<le> Off l \<and> Off l + Stored l \<le> ie + length fr \<and> 0 < Stored l \<and> Stored l \<le> unat ps
          \<and> Size l = ps \<and> (Codec l = CodecRaw \<and> Stored l = unat ps \<or> Codec l = CodecLZ4))
     \<and> (\<forall>pre. length pre = ie \<longrightarrow> list_all2 (frame_at (pre @ fr)) pages locs)"
  using assms(1)
proof (induction pages arbitrary: seen fr0 locs)
  case Nil
  then show ?case by auto
next
  case (Cons p pages)
  obtain frame codec where pf: "page_frame (WData p) = (frame, codec)" by fastforce
  let ?l = "\<lparr>Pgno = WPageNo p, Off = ie + length fr0, Stored = length frame, Size = ps, Codec = codec\<rparr>"
  from Cons.prems pf obtain locs' where
    g: "length (WData p) = unat ps" "\<not> not_ascending seen (WPageNo p)"
    and rec: "build_frames ps ie (Some (WPageNo p)) (fr0 @ frame) pages = Inr (locs', fr)" and locs: "locs = ?l # locs'"
    by (auto simp: Let_def rbind_eq_Inr_iff split: if_splits)
  from Cons.IH [OF rec] obtain tl where tl: "fr = (fr0 @ frame) @ tl" "length locs' = length pages"
    "length tl \<le> length pages * unat ps" "asc (Some (WPageNo p)) (map Pgno locs')"
    and ls: "\<forall>l \<in> set locs'. ie \<le> Off l \<and> Off l + Stored l \<le> ie + length fr \<and> 0 < Stored l \<and> Stored l \<le> unat ps
          \<and> Size l = ps \<and> (Codec l = CodecRaw \<and> Stored l = unat ps \<or> Codec l = CodecLZ4)"
    and la: "\<forall>pre. length pre = ie \<longrightarrow> list_all2 (frame_at (pre @ fr)) pages locs'"
    by blast
  have d: "WData p \<noteq> []" "length (WData p) \<le> 2 ^ 30" using g(1) assms(2,3) by auto
  note pfc = page_frame_cases [OF d pf]
  have "frame_at (pre @ fr) p ?l" if "length pre = ie" for pre
    using FrameData_hit [OF d pf g(1), of ?l "pre @ fr0" tl] that by (simp add: frame_at_def tl(1))
  with tl ls la pfc g show ?case
    by (intro exI [of _ "frame @ tl"]) (auto simp: locs)
qed

lemma describe_v2:
  assumes "b = walPageMapV2Magic @ be32 ps @ be32 cm @ be32 tc @ be32 pc @ be32 0 @ rest"
    and "ps \<noteq> 0" "tc \<noteq> 0" "unat pc \<le> 2 ^ 31 div 12" "24 + unat pc * 12 \<le> length b"
  shows "describePageMap b = Inr \<lparr>pageSize = ps, commit = cm, txCount = unat tc, pageCount = unat pc, v2 = True\<rparr>"
  using assms(2-)
  by (simp add: assms(1) describePageMap_def walPageMapV2Magic_def walPageMapMagic_def codec_simps pm_sizes unat_eq_0)

lemma encode_v2:
  assumes enc: "EncodeWALPageMap True ps cm tc pages = Inr b" and tc: "tc < 2 ^ 32"
    and size: "24 + length pages * (12 + unat ps) < 2 ^ 31" "unat ps \<le> 2 ^ 30"
  shows "pagemap_of b ps cm (nat tc) pages"
proof -
  let ?ie = "24 + length pages * 12"
  from enc obtain locs frames where ps: "ps \<noteq> 0" and tc0: "0 < tc"
    and bf: "build_frames ps ?ie None [] pages = Inr (locs, frames)"
    and b: "b = walPageMapV2Magic @ be32 ps @ be32 cm @ be32 (word_of_int tc)
               @ be32 (word_of_nat (length pages)) @ be32 0 @ concat (map put_loc locs) @ frames"
    by (auto simp: EncodeWALPageMap_def Let_def rbind_eq_Inr_iff pm_sizes split: if_splits)
  have ps0: "0 < unat ps" using ps by (simp add: unat_gt_0)
  have n: "length pages * 12 + length pages * unat ps < 2 ^ 31 - 24" using size(1) by (simp add: algebra_simps)
  have pc: "unat (word_of_nat (length pages) :: u32) = length pages" "length pages \<le> 2 ^ 31 div 12"
    using n by (simp_all add: unat_of_nat)
  have "unat (word_of_int tc :: u32) = nat tc"
    using tc tc0 by (simp add: unsigned_of_int take_bit_int_eq_self)
  then have utc: "unat (word_of_int tc :: u32) = nat tc" "(word_of_int tc :: u32) \<noteq> 0"
    using tc0 by auto
  obtain fr where spec: "frames = fr" "length locs = length pages" "length fr \<le> length pages * unat ps"
      "asc None (map Pgno locs)"
     and wf: "\<forall>l \<in> set locs. ?ie \<le> Off l \<and> Off l + Stored l \<le> ?ie + length frames \<and> 0 < Stored l \<and> Stored l \<le> unat ps
          \<and> Size l = ps \<and> (Codec l = CodecRaw \<and> Stored l = unat ps \<or> Codec l = CodecLZ4)"
     and at: "\<forall>pre. length pre = ?ie \<longrightarrow> list_all2 (frame_at (pre @ frames)) pages locs"
    using build_frames_spec [OF bf ps0 size(2)] by auto
  let ?pre = "walPageMapV2Magic @ be32 ps @ be32 cm @ be32 (word_of_int tc)
               @ be32 (word_of_nat (length pages)) @ be32 0 @ concat (map put_loc locs)"
  have lidx: "length (concat (map put_loc ls)) = length ls * 12" for ls
    by (induction ls) (auto simp: put_loc_def)
  have pre: "length ?pre = ?ie" by (simp add: walPageMapV2Magic_def lidx spec(2))
  have lb: "length b = ?ie + length frames" using pre by (simp add: b)
  have d: "describePageMap b = Inr \<lparr>pageSize = ps, commit = cm, txCount = nat tc, pageCount = length pages, v2 = True\<rparr>"
    using describe_v2 [OF b ps utc(2)] pc lb utc(1) by simp
  have "\<forall>l \<in> set locs. wf_loc ps ?ie (length b) l"
    using wf n spec(1,3) size(2) by (auto simp: wf_loc_def lb)
  moreover have "drop (24 + 0 * 12) b = concat (map put_loc locs) @ frames"
    by (simp add: b walPageMapV2Magic_def)
  ultimately have "locs_v2 b ps ?ie (length locs) 0 None = Inr locs"
    using spec(4) by (intro locs_v2_put)
  then have "PageLocs b = Inr locs" by (simp add: PageLocs_def d pm_sizes spec(2))
  moreover have "list_all2 (frame_at b) pages locs" using at [rule_format, OF pre] by (simp add: b)
  ultimately show ?thesis using d by (auto simp: pagemap_of_def)
qed

lemma put_pages_v1_spec:
  assumes "put_pages_v1 ps seen pages = Inr body"
  shows "body = concat (map (\<lambda>p. be32 (WPageNo p) @ WData p) pages)
    \<and> (\<forall>p \<in> set pages. length (WData p) = unat ps) \<and> asc seen (map WPageNo pages)"
  using assms
  by (induction ps seen pages arbitrary: body rule: put_pages_v1.induct) (auto simp: rbind_eq_Inr_iff split: if_splits)

lemma locs_v1_put:
  assumes "drop off b = concat (map (\<lambda>p. be32 (WPageNo p) @ WData p) pages)"
    and "\<forall>p \<in> set pages. length (WData p) = unat ps" "asc prev (map WPageNo pages)"
  shows "\<exists>locs. locs_v1 b ps (length pages) prev off = Inr locs \<and> list_all2 (frame_at b) pages locs"
  using assms
proof (induction pages arbitrary: off prev)
  case Nil
  then show ?case by simp
next
  case (Cons p pages)
  let ?tl = "concat (map (\<lambda>p. be32 (WPageNo p) @ WData p) pages)"
  let ?l = "\<lparr>Pgno = WPageNo p, Off = off + 4, Stored = unat ps, Size = ps, Codec = CodecRaw\<rparr>"
  have at: "drop off b = be32 (WPageNo p) @ WData p @ ?tl" using Cons.prems(1) by simp
  have lp: "length (WData p) = unat ps" using Cons.prems(2) by simp
  have "length (drop off b) = 4 + unat ps + length ?tl" by (simp add: at lp)
  then have len: "off + 4 + unat ps \<le> length b" by (cases "off \<le> length b") auto
  have "drop (off + 4 + unat ps) b = drop (4 + unat ps) (drop off b)" by (simp add: add.commute add.left_commute)
  then have nxt: "drop (off + 4 + unat ps) b = ?tl" by (simp only: at) (simp add: lp)
  obtain locs where locs: "locs_v1 b ps (length pages) (Some (WPageNo p)) (off + 4 + unat ps) = Inr locs"
    "list_all2 (frame_at b) pages locs"
    using Cons.IH [OF nxt, of "Some (WPageNo p)"] Cons.prems(2,3) by auto
  have "drop (off + 4) b = drop 4 (drop off b)" by (simp add: add.commute)
  then have "bslice (off + 4) (off + 4 + unat ps) b = WData p"
    by (simp only: bslice_def at) (simp add: lp)
  then have "frame_at b p ?l"
    using len lp by (simp add: frame_at_def FrameData_def codec_defs Let_def)
  moreover have "rd32 (drop off b) = WPageNo p" by (simp only: at codec_simps)
  ultimately show ?case
    using locs len Cons.prems(3) by simp
qed

lemma goint_small: "n < 2 ^ 63 \<Longrightarrow> goint n = int n"
  by (simp add: goint_def sint_uint unat_of_nat signed_take_bit_int_eq_self uint_nat)

lemma encode_v1:
  assumes enc: "encodeWALPageMapV1 ps cm tc pages = Inr b" and tc: "tc < 2 ^ 32"
    and size: "24 + length pages * (12 + unat ps) < 2 ^ 31"
  shows "pagemap_of b ps cm (nat tc) pages"
proof -
  from enc obtain body where ps: "ps \<noteq> 0" and tc0: "0 < tc" and pp: "put_pages_v1 ps None pages = Inr body"
    and b: "b = walPageMapMagic @ be32 ps @ be32 cm @ be32 (word_of_int tc) @ be32 (word_of_nat (length pages)) @ body"
    by (auto simp: encodeWALPageMapV1_def rbind_eq_Inr_iff split: if_splits)
  note spec = put_pages_v1_spec [OF pp]
  have "unat (word_of_int tc :: u32) = nat tc"
    using tc tc0 by (simp add: unsigned_of_int take_bit_int_eq_self)
  then have utc: "unat (word_of_int tc :: u32) = nat tc" "nat tc \<noteq> 0" using tc0 by auto
  have n: "length pages * 12 + length pages * unat ps < 2 ^ 31 - 24" using size by (simp add: algebra_simps)
  have pc: "unat (word_of_nat (length pages) :: u32) = length pages"
    using n by (simp add: unat_of_nat)
  have "length body = length pages * (4 + unat ps)"
    using spec by (simp add: length_concat sum_list_triv) (simp add: comp_def cong: map_cong add: sum_list_triv)
  then have lb: "length b = 20 + length pages * (4 + unat ps)" by (simp add: b walPageMapMagic_def)
  have "goint (20 + length pages * (4 + unat ps)) = int (length b)"
    using n by (subst goint_small) (simp_all add: lb algebra_simps)
  then have d: "describePageMap b = Inr \<lparr>pageSize = ps, commit = cm, txCount = nat tc, pageCount = length pages, v2 = False\<rparr>"
    using ps utc pc by (simp add: describePageMap_def b walPageMapMagic_def codec_simps)
  have "drop 20 b = concat (map (\<lambda>p. be32 (WPageNo p) @ WData p) pages)"
    using spec by (simp add: b walPageMapMagic_def)
  from locs_v1_put [OF this, of ps None] spec obtain locs where
    "locs_v1 b ps (length pages) None 20 = Inr locs" "list_all2 (frame_at b) pages locs" by auto
  then show ?thesis using d by (auto simp: pagemap_of_def PageLocs_def pm_sizes)
qed

lemma encode_pagemap:
  assumes "EncodeWALPageMap cz ps cm tc pages = Inr b" "tc < 2 ^ 32"
    and "24 + length pages * (12 + unat ps) < 2 ^ 31" "unat ps \<le> 2 ^ 30"
  shows "pagemap_of b ps cm (nat tc) pages"
  using assms encode_v1 [of ps cm tc pages b] encode_v2 [of ps cm tc pages b]
  by (cases cz) (auto simp: EncodeWALPageMap_def)

subsection \<open>Collapsing transactions\<close>

definition page_table :: "WALPage list \<Rightarrow> u32 \<rightharpoonup> bytes" where
  "page_table pages = map_of (map (\<lambda>p. (WPageNo p, WData p)) pages)"

text \<open>What the captured frames mean: written in order, each frame replaces its page.\<close>

definition replay :: "WALFrame list \<Rightarrow> (u32 \<rightharpoonup> bytes) \<Rightarrow> (u32 \<rightharpoonup> bytes)" where
  "replay fs m = fold (\<lambda>f m. m(PageNo f \<mapsto> Data f)) fs m"

definition last_commit :: "WALFrame list \<Rightarrow> u32 \<Rightarrow> u32" where
  "last_commit fs cm = fold (\<lambda>f cm. if DBSize f \<noteq> 0 then DBSize f else cm) fs cm"

lemma page_table_simps [simp]:
  "page_table [] = Map.empty"
  "page_table (p # ps) = (page_table ps)(WPageNo p \<mapsto> WData p)"
  by (simp_all add: page_table_def)

lemma page_table_dom: "dom (page_table pages) = WPageNo ` set pages"
  by (induction pages) (simp_all del: fun_upd_apply)

lemma page_table_upsert [simp]: "page_table (upsert n d ps) = (page_table ps)(n \<mapsto> d)"
  by (induction n d ps rule: upsert.induct) auto

lemma upsert_numbers: "set (map WPageNo (upsert n d ps)) = insert n (set (map WPageNo ps))"
  by (induction n d ps rule: upsert.induct) auto

lemma upsert_distinct: "distinct (map WPageNo ps) \<Longrightarrow> distinct (map WPageNo (upsert n d ps))"
proof (induction n d ps rule: upsert.induct)
  case (2 n d p ps)
  then show ?case using upsert_numbers [of n d ps] by auto
qed simp

lemma upsert_sizes:
  "\<forall>p\<in>set ps. length (WData p) = k \<Longrightarrow> length d = k \<Longrightarrow> \<forall>p\<in>set (upsert n d ps). length (WData p) = k"
  by (induction n d ps rule: upsert.induct) auto

lemma collapse_frames_spec:
  assumes "collapse_frames ps ti fs pages cm = Inr (pages', cm')"
    and "distinct (map WPageNo pages)" "\<forall>p\<in>set pages. length (WData p) = unat ps"
  shows "page_table pages' = replay fs (page_table pages) \<and> cm' = last_commit fs cm
    \<and> distinct (map WPageNo pages') \<and> (\<forall>p\<in>set pages'. length (WData p) = unat ps)"
  using assms
proof (induction ps ti fs pages cm rule: collapse_frames.induct)
  case (2 ps ti f fs pages cm)
  from 2(2) have l: "length (Data f) = unat ps"
    and r: "collapse_frames ps ti fs (upsert (PageNo f) (Data f) pages) (if DBSize f \<noteq> 0 then DBSize f else cm) = Inr (pages', cm')"
    by (simp_all split: if_split_asm)
  show ?case
    using 2(1) [OF _ r upsert_distinct [OF 2(3)] upsert_sizes [OF 2(4) l]] l by (simp add: replay_def last_commit_def fun_upd_def)
qed (simp add: replay_def last_commit_def)

lemma last_commit_last: "fs \<noteq> [] \<Longrightarrow> DBSize (last fs) \<noteq> 0 \<Longrightarrow> last_commit fs cm = DBSize (last fs)"
  by (induction fs arbitrary: cm rule: rev_induct) (auto simp: last_commit_def)

lemma collapse_txs_spec:
  assumes "collapse_txs ps ti txs pages cm = Inr (pages', cm')"
    and "distinct (map WPageNo pages)" "\<forall>p\<in>set pages. length (WData p) = unat ps"
  shows "page_table pages' = replay (concat (map Frames txs)) (page_table pages)
    \<and> (txs \<noteq> [] \<longrightarrow> cm' = DBSize (last (Frames (last txs))) \<and> cm' \<noteq> 0)
    \<and> distinct (map WPageNo pages') \<and> (\<forall>p\<in>set pages'. length (WData p) = unat ps)"
  using assms
proof (induction ps ti txs pages cm arbitrary: pages' cm' rule: collapse_txs.induct)
  case (2 ps ti tx txs pages cm)
  from 2(2) obtain p1 c1 where step: "Frames tx \<noteq> []" "DBSize (last (Frames tx)) \<noteq> 0"
    "collapse_frames ps ti (Frames tx) pages cm = Inr (p1, c1)" "collapse_txs ps (Suc ti) txs p1 c1 = Inr (pages', cm')"
    by (auto simp: rbind_eq_Inr_iff split: if_split_asm)
  note fr = collapse_frames_spec [OF step(3) 2(3,4)]
  have c1: "c1 = DBSize (last (Frames tx))" using fr last_commit_last step by simp
  show ?case
  proof (cases txs)
    case Nil
    then show ?thesis using fr step c1 by (simp add: replay_def)
  next
    case Cons
    have "page_table pages' = replay (concat (map Frames txs)) (page_table p1)
      \<and> (txs \<noteq> [] \<longrightarrow> cm' = DBSize (last (Frames (last txs))) \<and> cm' \<noteq> 0)
      \<and> distinct (map WPageNo pages') \<and> (\<forall>p\<in>set pages'. length (WData p) = unat ps)"
      by (rule 2(1) [of p1 c1]) (use step fr in simp_all)
    then show ?thesis using fr Cons by (elim conjE) (simp add: replay_def split: if_splits; elim conjE; simp)
  qed
qed (auto simp: replay_def)

lemma page_table_sort:
  assumes "distinct (map WPageNo pages)"
  shows "page_table (sort_key WPageNo pages) = page_table pages"
proof -
  have d: "distinct (map WPageNo (sort_key WPageNo pages))"
    using assms by (metis distinct_map distinct_sort set_sort)
  show ?thesis unfolding page_table_def
    by (subst map_of_inject_set) (use assms d in \<open>auto simp: comp_def\<close>)
qed

lemma sort_strict:
  assumes "distinct (map WPageNo pages)"
  shows "sorted_wrt (<) (map WPageNo (sort_key WPageNo pages))"
proof -
  have "distinct (map WPageNo (sort_key WPageNo pages))"
    using assms by (metis distinct_map distinct_sort set_sort)
  then show ?thesis by (simp add: strict_sorted_iff)
qed

text \<open>C16: collapsing the captured transactions into one page set keeps what replaying them in order
  means. If \<open>PageMapFromTransactions\<close> succeeds, the page it reports for a number is the last frame written for it and it
  reports no page that was not written, the page numbers are strictly ascending, every page has the page size, and the
  commit is the size in the last frame of the last transaction, which is not zero.\<close>

theorem collapse_is_replay:
  assumes "PageMapFromTransactions ps txs = Inr (cm, pages)"
  shows "page_table pages = replay (concat (map Frames txs)) Map.empty
    \<and> sorted_wrt (<) (map WPageNo pages) \<and> (\<forall>p\<in>set pages. length (WData p) = unat ps)
    \<and> cm = DBSize (last (Frames (last txs))) \<and> cm \<noteq> 0"
proof -
  from assms obtain p0 where ne: "txs \<noteq> []" and c: "collapse_txs ps 0 txs [] 0 = Inr (p0, cm)"
    and s: "pages = sort_key WPageNo p0"
    by (auto simp: PageMapFromTransactions_def rbind_eq_Inr_iff split: if_splits)
  from collapse_txs_spec [OF c] ne show ?thesis by (auto simp: s page_table_sort sort_strict)
qed

theorem collapse_is_replay_witness:
  defines "txs \<equiv> [\<lparr>Frames = [\<lparr>PageNo = 2, DBSize = 0, Data = [7]\<rparr>, \<lparr>PageNo = 1, DBSize = 2, Data = [8]\<rparr>]\<rparr>,
                   \<lparr>Frames = [\<lparr>PageNo = 2, DBSize = 3, Data = [9]\<rparr>]\<rparr>]"
  shows "PageMapFromTransactions 1 txs = Inr (3, [\<lparr>WPageNo = 1, WData = [8]\<rparr>, \<lparr>WPageNo = 2, WData = [9]\<rparr>])
    \<and> replay (concat (map Frames txs)) Map.empty 2 = Some [9]"
proof -
  have r: "PageMapFromTransactions 1 txs = Inr (3, [\<lparr>WPageNo = 1, WData = [8]\<rparr>, \<lparr>WPageNo = 2, WData = [9]\<rparr>])"
    by (simp add: txs_def PageMapFromTransactions_def word_le_nat_alt)
  have "page_table [\<lparr>WPageNo = 1, WData = [8]\<rparr>, \<lparr>WPageNo = 2, WData = [9]\<rparr>] (2 :: u32) = Some [9]" by simp
  with collapse_is_replay [OF r] r show ?thesis by metis
qed

subsection \<open>Arbitrary payloads\<close>

lemma asc_Some: "asc (Some m) ns \<longleftrightarrow> sorted_wrt (<) (m # ns)"
proof (induction ns arbitrary: m)
  case (Cons n ns)
  then show ?case by (auto simp: not_ascending_def)
qed simp

lemma asc_None: "asc None ns \<longleftrightarrow> sorted_wrt (<) ns"
  by (cases ns) (auto simp: not_ascending_def asc_Some)

definition loc_ok :: "bytes \<Rightarrow> u32 \<Rightarrow> PageLoc \<Rightarrow> bool" where
  "loc_ok b ps l \<longleftrightarrow> Off l + Stored l \<le> length b \<and> Size l = ps \<and> (Codec l = CodecRaw \<and> Stored l = unat ps \<or> Codec l = CodecLZ4)"

lemma locs_v1_ok:
  "locs_v1 b ps n prev off = Inr locs \<Longrightarrow>
   length locs = n \<and> asc prev (map Pgno locs) \<and> (\<forall>l\<in>set locs. loc_ok b ps l)"
proof (induction n arbitrary: prev off locs)
  case (Suc n)
  from Suc.prems obtain l ls where "locs = l # ls" "loc_ok b ps l" "\<not> not_ascending prev (Pgno l)"
    "locs_v1 b ps n (Some (Pgno l)) (off + 4 + unat ps) = Inr ls"
    by (auto simp: Let_def rbind_eq_Inr_iff loc_ok_def split: if_splits)
  with Suc.IH [of "Some (Pgno l)"] show ?case by simp
qed simp

lemma locs_v2_ok:
  "locs_v2 b ps ie n i prev = Inr locs \<Longrightarrow>
   length locs = n \<and> asc prev (map Pgno locs) \<and> (\<forall>l\<in>set locs. loc_ok b ps l)"
proof (induction n arbitrary: i prev locs)
  case (Suc n)
  from Suc.prems obtain l ls where "locs = l # ls" "loc_ok b ps l" "\<not> not_ascending prev (Pgno l)"
    "locs_v2 b ps ie n (Suc i) (Some (Pgno l)) = Inr ls"
    by (simp add: Let_def rbind_eq_Inr_iff split: if_split_asm) (auto simp: loc_ok_def)
  with Suc.IH [of "Suc i" "Some (Pgno l)"] show ?case by simp
qed simp

lemma PageLocs_ok:
  assumes "describePageMap b = Inr d" "PageLocs b = Inr locs"
  shows "length locs = pageCount d \<and> sorted_wrt (<) (map Pgno locs) \<and> (\<forall>l\<in>set locs. loc_ok b (pageSize d) l)"
  using assms
  by (auto simp: PageLocs_def simp flip: asc_None split: if_splits dest!: locs_v1_ok locs_v2_ok)


lemma FrameData_length: "loc_ok b ps l \<Longrightarrow> FrameData b l = Inr d \<Longrightarrow> length d = unat ps"
  by (auto simp: FrameData_def loc_ok_def Let_def lz4.dec_exact split: if_splits sum.splits)

lemma rmap_pages:
  assumes "rmap (\<lambda>loc. rbind (FrameData b loc) (\<lambda>data. Inr \<lparr>WPageNo = Pgno loc, WData = data\<rparr>)) locs = Inr pages"
  shows "list_all2 (frame_at b) pages locs"
proof -
  have "list_all2 (\<lambda>loc p. rbind (FrameData b loc) (\<lambda>data. Inr \<lparr>WPageNo = Pgno loc, WData = data\<rparr>) = Inr p) locs pages"
    using assms by (simp add: rmap_eq_Inr_iff)
  then show ?thesis
    by (induction rule: list_all2_induct) (auto simp: frame_at_def rbind_eq_Inr_iff)
qed

lemma decode_pagemap_of:
  "DecodeWALPageMap b = Inr (ps, cm, tc, pages) \<longleftrightarrow> pagemap_of b ps cm tc pages"
proof
  assume "DecodeWALPageMap b = Inr (ps, cm, tc, pages)"
  then show "pagemap_of b ps cm tc pages"
    by (auto simp: DecodeWALPageMap_def rbind_eq_Inr_iff pagemap_of_def intro: rmap_pages)
qed (rule pagemap_of_decode)

lemma pagemap_of_wf:
  assumes "pagemap_of b ps cm tc pages"
  shows "sorted_wrt (<) (map WPageNo pages) \<and> (\<forall>p\<in>set pages. length (WData p) = unat ps)"
proof -
  from assms obtain d locs where d: "describePageMap b = Inr d" "pageSize d = ps"
    and l: "PageLocs b = Inr locs" "list_all2 (frame_at b) pages locs"
    by (auto simp: pagemap_of_def)
  note ok = PageLocs_ok [OF d(1) l(1)]
  have "map WPageNo pages = map Pgno locs"
    using l(2) by (auto simp: list_all2_conv_all_nth frame_at_def intro!: nth_equalityI)
  moreover have "\<forall>p\<in>set pages. length (WData p) = unat ps"
    using l(2) ok d(2) by (metis FrameData_length frame_at_def in_set_conv_nth list_all2_conv_all_nth)
  ultimately show ?thesis using ok by simp
qed

text \<open>C21: whatever bytes a page-map payload holds, in either format, a successful decode yields pages
  of exactly the page size under strictly ascending numbers, and the two partial readers agree with it: the number scan
  returns those numbers and the single-page lookup returns that page, or nothing for a number outside the payload.\<close>

theorem pagemap_readers_agree:
  assumes "DecodeWALPageMap b = Inr (ps, cm, tc, pages)"
  shows "sorted_wrt (<) (map WPageNo pages) \<and> (\<forall>p\<in>set pages. length (WData p) = unat ps)
    \<and> PageMapNumbers b = Inr (map WPageNo pages) \<and> (\<forall>n. PageMapLookup b n = Inr (page_table pages n))"
  using assms pagemap_of_wf pagemap_of_numbers pagemap_of_lookup
  unfolding decode_pagemap_of page_table_def by blast

theorem pagemap_readers_agree_witness:
  defines "b \<equiv> walPageMapMagic @ [0,0,0,1, 0,0,0,2, 0,0,0,1, 0,0,0,2, 0,0,0,1,7, 0,0,0,2,8]"
  shows "DecodeWALPageMap b = Inr (1, 2, 1, [\<lparr>WPageNo = 1, WData = [7]\<rparr>, \<lparr>WPageNo = 2, WData = [8]\<rparr>])
    \<and> PageMapNumbers b = Inr [1, 2]"
proof -
  have d: "DecodeWALPageMap b = Inr (1, 2, 1, [\<lparr>WPageNo = 1, WData = [7]\<rparr>, \<lparr>WPageNo = 2, WData = [8]\<rparr>])"
    unfolding b_def by code_simp
  with pagemap_readers_agree [OF d] show ?thesis by simp
qed

text \<open>C15: a page set encoded by \<open>EncodeWALPageMap\<close>, compressed or not, decodes to the same page
  size, commit, transaction count and pages, as long as the payload stays below the 2 GiB that the 31-bit frame length
  and the offset field of the index can address.\<close>

theorem pagemap_roundtrip:
  assumes "EncodeWALPageMap cz ps cm tc pages = Inr b" "tc < 2 ^ 32"
    and "24 + length pages * (12 + unat ps) < 2 ^ 31" "unat ps \<le> 2 ^ 30"
  shows "DecodeWALPageMap b = Inr (ps, cm, nat tc, pages)"
  using encode_pagemap [OF assms] by (rule pagemap_of_decode)

theorem pagemap_roundtrip_witness:
  "\<exists>b. EncodeWALPageMap True 1 2 1 [\<lparr>WPageNo = 1, WData = [7]\<rparr>, \<lparr>WPageNo = 2, WData = [8]\<rparr>] = Inr b
     \<and> DecodeWALPageMap b = Inr (1, 2, 1, [\<lparr>WPageNo = 1, WData = [7]\<rparr>, \<lparr>WPageNo = 2, WData = [8]\<rparr>])"
proof -
  let ?p = "[\<lparr>WPageNo = 1, WData = [7]\<rparr>, \<lparr>WPageNo = 2, WData = [8]\<rparr>]"
  have "\<not> (case EncodeWALPageMap True 1 2 1 ?p of Inl _ \<Rightarrow> True | Inr _ \<Rightarrow> False)" by code_simp
  then obtain b where e: "EncodeWALPageMap True 1 2 1 ?p = Inr b" by (auto split: sum.splits)
  from pagemap_roundtrip [OF e] show ?thesis using e by simp
qed


subsection \<open>Snapshot parts\<close>

lemma frames_step: "lf \<le> d \<Longrightarrow> r \<le> (a + lf) + n * d \<Longrightarrow> r \<le> a + Suc n * (d :: nat)"
  by simp

lemma build_frames_length:
  "build_frames ps ie seen fr pages = Inr (locs, fr') \<Longrightarrow>
   length locs = length pages \<and> length fr' \<le> length fr + length pages * unat ps"
proof (induction pages arbitrary: seen fr locs fr')
  case (Cons p pages)
  obtain f c where pf: "page_frame (WData p) = (f, c)" by fastforce
  then have f: "length f \<le> length (WData p)" by (auto simp: page_frame_def Let_def split: if_splits)
  from Cons.prems pf obtain ls where "length (WData p) = unat ps" "locs = hd locs # ls"
    "build_frames ps ie (Some (WPageNo p)) (fr @ f) pages = Inr (ls, fr')"
    by (auto simp: rbind_eq_Inr_iff split: if_split_asm)
  with Cons.IH [OF this(3)] f show ?case by (metis (no_types) frames_step length_Cons length_append)
qed simp

lemma put_pages_v1_length: "put_pages_v1 ps seen pages = Inr b \<Longrightarrow> length b = length pages * (4 + unat ps)"
  by (induction ps seen pages arbitrary: b rule: put_pages_v1.induct)
     (auto simp: rbind_eq_Inr_iff len_simps split: if_splits)

lemma length_put_loc: "length (put_loc l) = 12"
  by (simp add: put_loc_def len_simps)

lemma encode_pagemap_length:
  assumes "EncodeWALPageMap cz ps cm tc pages = Inr b"
  shows "length b \<le> 24 + length pages * (12 + unat ps)"
proof (cases cz)
  case True
  with assms obtain locs fr where bf: "build_frames ps (24 + length pages * 12) None [] pages = Inr (locs, fr)"
    and b: "length b = 24 + length (concat (map put_loc locs)) + length fr"
    by (auto simp: EncodeWALPageMap_def rbind_eq_Inr_iff Let_def pageMapV2HeaderSize_def pageMapV2IndexStride_def
        walPageMapV2Magic_def len_simps split: if_splits)
  from build_frames_length [OF bf] b show ?thesis
    by (simp add: length_concat comp_def length_put_loc sum_list_triv add_mult_distrib2)
next
  case False
  with assms obtain body where pp: "put_pages_v1 ps None pages = Inr body" and b: "length b = 20 + length body"
    by (auto simp: EncodeWALPageMap_def encodeWALPageMapV1_def rbind_eq_Inr_iff walPageMapMagic_def len_simps split: if_splits)
  from put_pages_v1_length [OF pp] b show ?thesis by (simp add: add_mult_distrib2)
qed

lemma concat_chunks:
  "concat (map (\<lambda>k. bslice (k * c) (k * c + c) xs) [0..<t]) = take (t * c) xs"
proof (induction t)
  case (Suc t)
  have "take (t * c) xs = bslice 0 (t * c) xs" "take (t * c + c) xs = bslice 0 (t * c + c) xs"
    by (simp_all add: bslice_def)
  with Suc show ?case using bslice_split [of 0 "t * c" "t * c + c" xs] by (simp add: add.commute)
qed simp

lemma bslice_clip: "bslice lo (min hi (length xs)) xs = bslice lo hi xs"
  by (cases "hi \<le> length xs") (simp_all add: bslice_def min_def)

lemma ceil_mult: "0 < c \<Longrightarrow> n \<le> (n + c - 1) div c * (c :: nat)"
proof -
  assume c: "0 < c"
  have "(n + c - 1) mod c < c" using c by simp
  then show ?thesis using div_mult_mod_eq [of "n + c - 1" c] c by linarith
qed

text \<open>What one part holds: the shared header with the flags of its index, over a payload whose page map is the part's slice.\<close>

definition part_of :: "Header \<Rightarrow> u32 \<Rightarrow> u32 \<Rightarrow> nat \<Rightarrow> nat \<Rightarrow> WALPage list \<Rightarrow> bytes \<Rightarrow> bool" where
  "part_of h ps cm t k pages seg \<longleftrightarrow>
     (\<exists>h' payload. Decode seg = Inr (h', payload) \<and> pagemap_of payload ps cm 1 pages
        \<and> HKind h' = KindSnapshot \<and> Epoch h' = Epoch h \<and> StartTxID h' = StartTxID h \<and> EndTxID h' = EndTxID h
        \<and> SnapshotPart h' = (if t = 1 then (0, False) else (k, True)))"

lemma EncodeSnapshotPart_part_of:
  assumes "EncodeSnapshotPart cz h ps cm pages (int k) (int t) = Inr seg"
    and "24 + length pages * (12 + unat ps) < 2 ^ 31" "unat ps \<le> 2 ^ 30"
  shows "part_of h ps cm t k pages seg"
proof -
  let ?h = "h\<lparr>Flags := (if int t = 1 then 0 else SnapshotFlags (int k))\<rparr>"
  from assms(1) obtain payload where e: "EncodeWALPageMap cz ps cm 1 pages = Inr payload"
    and seg: "seg = Encode ?h payload" and hk: "HKind h = KindSnapshot" and kt: "k < t" "int t \<le> MaxSnapshotParts"
    unfolding EncodeSnapshotPart_def Let_def
    by (auto simp: rbind_eq_Inr_iff split: if_split_asm sum.split_asm)
  have "length payload < 2 ^ 64" using encode_pagemap_length [OF e] assms(2) by simp
  then have "Decode seg = Inr (sealed ?h payload, payload)" by (simp only: seg Decode_Encode)
  moreover have "pagemap_of payload ps cm 1 pages" using encode_pagemap [OF e _ assms(2,3)] by simp
  moreover have "SnapshotPart (sealed ?h payload) = (if t = 1 then (0, False) else (k, True))"
    using kt hk SnapshotPart_SnapshotFlags [of "int k" "sealed ?h payload"]
    by (auto simp: sealed_def SnapshotPart_unpaged MaxSnapshotParts_def)
  ultimately show ?thesis using hk unfolding part_of_def by (intro exI conjI) (auto simp: sealed_def)
qed

definition snapshot_chunk :: "nat \<Rightarrow> u32 \<Rightarrow> nat" where
  "snapshot_chunk mb ps = (mb - 64) div (4 + unat ps)"

lemma snapshot_chunk_bounds:
  assumes "68 + unat ps \<le> mb" "mb \<le> 2 ^ 29"
  shows "0 < snapshot_chunk mb ps" "unat ps \<le> 2 ^ 30"
    and "n \<le> snapshot_chunk mb ps \<Longrightarrow> 24 + n * (12 + unat ps) < 2 ^ 31"
proof -
  show "0 < snapshot_chunk mb ps" using assms by (simp add: snapshot_chunk_def div_greater_zero_iff)
  show "unat ps \<le> 2 ^ 30" using assms by simp
  assume "n \<le> snapshot_chunk mb ps"
  then have "n * (4 + unat ps) \<le> mb - 64"
    unfolding snapshot_chunk_def by (metis le_trans div_times_less_eq_dividend mult_le_mono1)
  moreover have "n * (12 + unat ps) \<le> 3 * (n * (4 + unat ps))" by (simp add: algebra_simps)
  ultimately have "n * (12 + unat ps) \<le> 3 * (mb - 64)" by (meson le_trans mult_le_mono2)
  then show "24 + n * (12 + unat ps) < 2 ^ 31" using assms by simp
qed

lemma EncodeSnapshotParts_eq:
  assumes "EncodeSnapshotParts cz h ps cm pages mb = Inr parts"
  shows "68 + unat ps \<le> nat mb \<and> cm = word_of_nat (length pages) \<and>
    (let c = snapshot_chunk (nat mb) ps; t = (length pages + c - 1) div c in
      length parts = t \<and> (\<forall>k<t. EncodeSnapshotPart cz h ps cm (bslice (k * c) (k * c + c) pages) (int k) (int t) = Inr (parts ! k)))"
proof -
  from assms have nb: "\<not> mb < int (HeaderSize + 20 + (4 + unat ps))" and cm: "cm = word_of_nat (length pages)"
    unfolding EncodeSnapshotParts_def Let_def by (auto split: if_split_asm)
  from nb have b: "68 + unat ps \<le> nat mb"
    unfolding HeaderSize_def by (simp only: not_less le_nat_iff)
  define c where "c = snapshot_chunk (nat mb) ps"
  define t where "t = (length pages + c - 1) div c"
  have c: "(nat mb - HeaderSize - 20) div (4 + unat ps) = c" by (simp add: c_def snapshot_chunk_def HeaderSize_def)
  have c0: "\<not> c < 1" using b by (simp add: c_def snapshot_chunk_def div_greater_zero_iff)
  from assms have "rmap (\<lambda>k. EncodeSnapshotPart cz h ps cm (bslice (k * c) (k * c + c) pages) (int k) (int t)) [0..<t] = Inr parts"
    unfolding EncodeSnapshotParts_def Let_def c if_not_P [OF c0] bslice_clip t_def [symmetric] by (simp split: if_split_asm)
  then have "length parts = t \<and> (\<forall>k<t. EncodeSnapshotPart cz h ps cm (bslice (k * c) (k * c + c) pages) (int k) (int t) = Inr (parts ! k))"
    by (auto simp: rmap_eq_Inr_iff list_all2_conv_all_nth)
  with b cm show ?thesis by (simp add: Let_def c_def t_def)
qed

lemma snapshot_parts_chunks:
  assumes "EncodeSnapshotParts cz h ps cm pages mb = Inr parts" "mb \<le> 2 ^ 29"
  shows "\<exists>chunks. concat chunks = pages \<and> length chunks = length parts \<and>
    (\<forall>k<length parts. part_of h ps cm (length parts) k (chunks ! k) (parts ! k))"
proof -
  define c where "c = snapshot_chunk (nat mb) ps"
  define t where "t = (length pages + c - 1) div c"
  from EncodeSnapshotParts_eq [OF assms(1)] have b: "68 + unat ps \<le> nat mb" and t: "length parts = t"
    and e: "\<And>k. k < t \<Longrightarrow> EncodeSnapshotPart cz h ps cm (bslice (k * c) (k * c + c) pages) (int k) (int t) = Inr (parts ! k)"
    by (auto simp: Let_def c_def t_def)
  have mb: "nat mb \<le> 2 ^ 29" using assms(2) by simp
  note bounds = snapshot_chunk_bounds [OF b mb, folded c_def]
  define chunks where "chunks = map (\<lambda>k. bslice (k * c) (k * c + c) pages) [0..<t]"
  have "concat chunks = pages" using bounds(1) ceil_mult [of c "length pages"]
    by (simp add: chunks_def concat_chunks t_def)
  moreover have "part_of h ps cm t k (chunks ! k) (parts ! k)" if "k < t" for k
  proof -
    have "24 + length (bslice (k * c) (k * c + c) pages) * (12 + unat ps) < 2 ^ 31"
      by (rule bounds(3)) (simp add: len_simps)
    from EncodeSnapshotPart_part_of [OF e [OF that] this bounds(2)] that show ?thesis by (simp add: chunks_def)
  qed
  ultimately show ?thesis by (intro exI [of _ chunks]) (simp add: t chunks_def)
qed

text \<open>C17: splitting a full snapshot loses nothing. Every part decodes under the snapshot's own epoch and
  transaction ids and carries its index (or no index when it is the only part), its page map declares the full commit
  size, and the pages of the parts in index order are exactly the snapshot's pages.\<close>

theorem snapshot_parts_roundtrip:
  assumes "EncodeSnapshotParts cz h ps cm pages mb = Inr parts" "mb \<le> 2 ^ 29"
  shows "\<exists>chunks. concat chunks = pages \<and> length chunks = length parts \<and>
    (\<forall>k<length parts. part_of h ps cm (length parts) k (chunks ! k) (parts ! k))"
  using assms by (rule snapshot_parts_chunks)

definition snapshot_example :: "WALPage list" where
  "snapshot_example = map (\<lambda>i. \<lparr>WPageNo = word_of_nat i, WData = [7]\<rparr>) [1..<7]"

definition snapshot_header :: Header where
  "snapshot_header = \<lparr>Version = 1, HKind = KindSnapshot, Flags = 0, Epoch = 3, StartTxID = 9, EndTxID = 9, Length = 0, CRC = 0\<rparr>"


lemma snapshot_example_payload:
  "(case EncodeWALPageMap True 1 6 1 snapshot_example of Inl _ \<Rightarrow> 0 | Inr b \<Rightarrow> length b) = 102"
  unfolding snapshot_example_def by code_simp

lemma snapshot_example_part:
  "\<exists>p. EncodeWALPageMap True 1 6 1 snapshot_example = Inr p \<and> length p = 102
     \<and> EncodeSnapshotParts True snapshot_header 1 6 snapshot_example 94 = Inr [Encode snapshot_header p]"
proof -
  from snapshot_example_payload obtain p where p: "EncodeWALPageMap True 1 6 1 snapshot_example = Inr p" "length p = 102"
    by (cases "EncodeWALPageMap True 1 6 1 snapshot_example") simp_all
  have l: "length snapshot_example = 6" by (simp add: snapshot_example_def)
  have "check_part 1 1 0 snapshot_example = Inr ()" "hd snapshot_example = \<lparr>WPageNo = 1, WData = [7]\<rparr>" "snapshot_example \<noteq> []"
    unfolding snapshot_example_def by code_simp+
  then have "EncodeSnapshotPart True snapshot_header 1 6 snapshot_example 0 1 = Inr (Encode snapshot_header p)"
    by (simp add: EncodeSnapshotPart_def p l snapshot_header_def Let_def MaxSnapshotParts_def)
  then have "EncodeSnapshotParts True snapshot_header 1 6 snapshot_example 94 = Inr [Encode snapshot_header p]"
    by (simp add: EncodeSnapshotParts_def l snapshot_header_def Let_def HeaderSize_def bslice_all)
  with p show ?thesis by blast
qed

theorem snapshot_parts_roundtrip_witness:
  "\<exists>seg. EncodeSnapshotParts True snapshot_header 1 6 snapshot_example 94 = Inr [seg]
     \<and> part_of snapshot_header 1 6 1 0 snapshot_example seg"
proof -
  from snapshot_example_part obtain seg
    where e: "EncodeSnapshotParts True snapshot_header 1 6 snapshot_example 94 = Inr [seg]" by blast
  from snapshot_parts_roundtrip [OF e] show ?thesis using e by (auto simp: length_Suc_conv)
qed

text \<open>The budget of \<open>EncodeSnapshotParts\<close> is computed with the frame overhead of the uncompressed format, so that a part
  whose pages do not compress exceeds \<open>maxBytes\<close>: here by header and payload, and by the payload alone.\<close>

theorem snapshot_part_over_budget:
  "\<exists>p seg. EncodeWALPageMap True 1 6 1 snapshot_example = Inr p \<and> seg = Encode snapshot_header p
     \<and> EncodeSnapshotParts True snapshot_header 1 6 snapshot_example 94 = Inr [seg] \<and> length p = 102"
  using snapshot_example_part by blast

end
