(* ===== verification/Wal.thy ===== *)
theory Wal imports Prelude
begin

text \<open>SQLite write-ahead log reader, package \<open>wal\<close> (\<open>wal.go\<close>): the header and frame checks, the one-shot
  \<open>Read\<close> and the incremental \<open>Cursor.Poll\<close>. A file is its bytes; the operating system's answers to one poll (the
  inode a path names, the size \<open>Stat\<close> reports, the contents at the two \<open>ReadAt\<close> calls) are the fields of a record, since
  SQLite may change the file between them. The properties show that polling delivers every committed frame exactly once,
  in order, and restarts on a new WAL generation.\<close>

unbundle bit_operations_syntax

subsection \<open>Data\<close>

definition walHeaderSize :: nat where "walHeaderSize = 32"
definition frameHdrSize :: nat where "frameHdrSize = 24"
definition magicLE :: u32 where "magicLE = 0x377f0682"
definition magicBE :: u32 where "magicBE = 0x377f0683"

datatype wal_error = ErrNoWAL | ErrHeaderChecksum | ErrFrameChecksum nat | BadMagic u32 | ZeroPageSize | IOError

record WHeader =
  wMagic :: u32
  wVersion :: u32
  wPageSize :: u32
  wCheckpointSeq :: u32
  wSalt1 :: u32
  wSalt2 :: u32
  wChecksum1 :: u32
  wChecksum2 :: u32

record Frame =
  fPageNo :: u32
  fDBSize :: u32
  fData :: bytes
  fCommitted :: bool

record Transaction =
  tFrames :: "Frame list"
  tDBSize :: u32

record Snapshot =
  sHeader :: WHeader
  sFrames :: "Frame list"
  sCommitCount :: nat
  sTotalFrames :: nat

definition noHeader :: WHeader where
  "noHeader = \<lparr>wMagic = 0, wVersion = 0, wPageSize = 0, wCheckpointSeq = 0, wSalt1 = 0, wSalt2 = 0,
     wChecksum1 = 0, wChecksum2 = 0\<rparr>"

subsection \<open>Header and checksums\<close>

definition parseHeader :: "bytes \<Rightarrow> wal_error + WHeader" where
  "parseHeader b =
     (if length b < walHeaderSize then Inl ErrNoWAL
      else
        (let h = \<lparr>wMagic = rd32 (bslice 0 4 b), wVersion = rd32 (bslice 4 8 b), wPageSize = rd32 (bslice 8 12 b),
                  wCheckpointSeq = rd32 (bslice 12 16 b), wSalt1 = rd32 (bslice 16 20 b), wSalt2 = rd32 (bslice 20 24 b),
                  wChecksum1 = rd32 (bslice 24 28 b), wChecksum2 = rd32 (bslice 28 32 b)\<rparr>
         in if wMagic h \<noteq> magicLE \<and> wMagic h \<noteq> magicBE then Inl (BadMagic (wMagic h))
            else if wPageSize h = 0 then Inl ZeroPageSize
            else Inr h))"

function checksumBytes :: "bytes \<Rightarrow> u32 \<Rightarrow> u32 \<Rightarrow> bool \<Rightarrow> u32 \<times> u32" where
  "checksumBytes b s1 s2 big =
     (if length b \<ge> 8 then
        (let x = (if big then rd32 (bslice 0 4 b) else rd32le (bslice 0 4 b));
             y = (if big then rd32 (bslice 4 8 b) else rd32le (bslice 4 8 b));
             s1' = s1 + (x + s2);
             s2' = s2 + (y + s1')
         in checksumBytes (drop 8 b) s1' s2' big)
      else (s1, s2))"
  by pat_completeness auto
termination by (relation "measure (\<lambda>(b, _). length b)") auto

declare checksumBytes.simps [simp del]

definition checksumBig :: "WHeader \<Rightarrow> bool" where "checksumBig h \<longleftrightarrow> wMagic h AND 1 = 1"

definition headerChecksum :: "bytes \<Rightarrow> WHeader \<Rightarrow> u32 \<times> u32" where
  "headerChecksum raw h = checksumBytes (take (walHeaderSize - 8) raw) 0 0 (checksumBig h)"

definition frameChecksum :: "bytes \<Rightarrow> bytes \<Rightarrow> u32 \<Rightarrow> u32 \<Rightarrow> bool \<Rightarrow> u32 \<times> u32" where
  "frameChecksum fh page s1 s2 big =
     (let (s1', s2') = checksumBytes (take 8 fh) s1 s2 big in checksumBytes page s1' s2' big)"

subsection \<open>The frame loop\<close>

definition frameSize :: "WHeader \<Rightarrow> nat" where
  "frameSize h = frameHdrSize + unat (wPageSize h)"

text \<open>The local variables of the frame loops of \<open>Read\<close> and \<open>Poll\<close>, which run the same checks. \<open>Read\<close> counts commits and
  \<open>Poll\<close> remembers the checksum at the last commit; \<open>xLast\<close> is \<open>lastCommit\<close>, \<open>-1\<close> before the first commit.\<close>

record scan =
  xFrames :: "Frame list"
  xLast :: int
  xCommits :: nat
  xs1 :: u32
  xs2 :: u32
  xlastS1 :: u32
  xlastS2 :: u32
  xBad :: bool

definition scan_start :: "u32 \<Rightarrow> u32 \<Rightarrow> scan" where
  "scan_start s1 s2 = \<lparr>xFrames = [], xLast = -1, xCommits = 0, xs1 = s1, xs2 = s2, xlastS1 = s1, xlastS2 = s2, xBad = False\<rparr>"

definition scan_frame :: "WHeader \<Rightarrow> bytes \<Rightarrow> bytes \<Rightarrow> u32 \<times> u32 \<Rightarrow> scan \<Rightarrow> scan" where
  "scan_frame h fh page ns st =
     (let f = \<lparr>fPageNo = rd32 (bslice 0 4 fh), fDBSize = rd32 (bslice 4 8 fh), fData = page, fCommitted = False\<rparr>;
          st' = st\<lparr>xs1 := fst ns, xs2 := snd ns\<rparr>;
          st'' = (if fDBSize f \<noteq> 0 then
                    st'\<lparr>xLast := int (length (xFrames st)), xCommits := xCommits st + 1, xlastS1 := fst ns, xlastS2 := snd ns\<rparr>
                  else st')
      in st''\<lparr>xFrames := xFrames st @ [f]\<rparr>)"

fun scan_loop :: "WHeader \<Rightarrow> bytes \<Rightarrow> nat \<Rightarrow> nat \<Rightarrow> scan \<Rightarrow> scan" where
  "scan_loop h data 0 off st = st"
| "scan_loop h data (Suc n) off st =
     (let fh = bslice off (off + frameHdrSize) data
      in if rd32 (bslice 8 12 fh) \<noteq> wSalt1 h \<or> rd32 (bslice 12 16 fh) \<noteq> wSalt2 h then st
         else
           (let page = bslice (off + frameHdrSize) (off + frameSize h) data;
                ns = frameChecksum fh page (xs1 st) (xs2 st) (checksumBig h)
            in if fst ns \<noteq> rd32 (bslice 16 20 fh) \<or> snd ns \<noteq> rd32 (bslice 20 24 fh) then st\<lparr>xBad := True\<rparr>
               else scan_loop h data n (off + frameSize h) (scan_frame h fh page ns st)))"

definition mark_committed :: "Frame list \<Rightarrow> Frame list" where
  "mark_committed fs = map (\<lambda>f. f\<lparr>fCommitted := True\<rparr>) fs"

subsection \<open>Read\<close>

text \<open>The argument is the result of \<open>os.ReadFile\<close>: the error \<open>ErrNoWAL\<close> when the file does not exist. A frame that
  fails its checksum ends the scan, and the frames committed before it are returned together with the error.\<close>

definition Read :: "wal_error + bytes \<Rightarrow> wal_error + (Snapshot \<times> wal_error option)" where
  "Read file = rbind file (\<lambda>data.
     if length data < walHeaderSize then Inl ErrNoWAL
     else rbind (parseHeader (take walHeaderSize data)) (\<lambda>h.
       let (s1, s2) = headerChecksum (take walHeaderSize data) h
       in if s1 \<noteq> wChecksum1 h \<or> s2 \<noteq> wChecksum2 h then Inl ErrHeaderChecksum
          else if length data < walHeaderSize + frameSize h then
            Inr (\<lparr>sHeader = h, sFrames = [], sCommitCount = 0, sTotalFrames = 0\<rparr>, None)
          else
            (let tot = (length data - walHeaderSize) div frameSize h;
                 st = scan_loop h data tot walHeaderSize (scan_start s1 s2);
                 badErr = (if xBad st then Some (ErrFrameChecksum (length (xFrames st))) else None)
             in if xLast st < 0 then
                  Inr (\<lparr>sHeader = h, sFrames = [], sCommitCount = 0, sTotalFrames = tot\<rparr>, badErr)
                else
                  Inr (\<lparr>sHeader = h, sFrames = mark_committed (take (nat (xLast st) + 1) (xFrames st)),
                        sCommitCount = xCommits st, sTotalFrames = tot\<rparr>, badErr))))"

subsection \<open>Cursor\<close>

type_synonym inode = nat

record Cursor =
  haveSalt :: bool
  salt1 :: u32
  salt2 :: u32
  cksum1 :: u32
  cksum2 :: u32
  haveCksum :: bool
  frameIdx :: nat
  cfile :: "inode option"
  cpath :: string
  bytesRead :: nat

definition NewCursor :: Cursor where
  "NewCursor = \<lparr>haveSalt = False, salt1 = 0, salt2 = 0, cksum1 = 0, cksum2 = 0, haveCksum = False, frameIdx = 0,
     cfile = None, cpath = [], bytesRead = 0\<rparr>"

definition reset :: "Cursor \<Rightarrow> Cursor" where
  "reset c = c\<lparr>frameIdx := 0, salt1 := 0, salt2 := 0, cksum1 := 0, cksum2 := 0, haveSalt := False, haveCksum := False\<rparr>"

definition Close :: "Cursor \<Rightarrow> Cursor" where
  "Close c = (case cfile c of None \<Rightarrow> c | Some _ \<Rightarrow> c\<lparr>cfile := None, cpath := []\<rparr>)"

definition Reset :: "Cursor \<Rightarrow> Cursor" where
  "Reset c = Close (reset c)"

text \<open>What the operating system answers during one poll: \<open>os.Stat\<close> of the path, \<open>os.Open\<close> of it (the error \<open>ErrNoWAL\<close> for
  \<open>os.IsNotExist\<close>), whether \<open>Stat\<close> of the held file succeeds, and of the opened file its size and its contents
  when the header and when the tail is read.\<close>

record poll_env =
  osStat :: "string \<Rightarrow> inode option"
  osOpen :: "string \<Rightarrow> wal_error + inode"
  heldStat :: bool
  fileSize :: "inode \<Rightarrow> nat option"
  headBytes :: "inode \<Rightarrow> bytes option"
  tailBytes :: "inode \<Rightarrow> bytes option"

definition open_wal :: "Cursor \<Rightarrow> string \<Rightarrow> poll_env \<Rightarrow> Cursor \<times> wal_error option" where
  "open_wal c path env =
     (if cfile c \<noteq> None \<and> cpath c = path \<and> heldStat env \<and> osStat env path \<noteq> None \<and> osStat env path = cfile c
      then (c, None)
      else
        (let c' = Close c
         in case osOpen env path of
              Inl e \<Rightarrow> (c', Some e)
            | Inr i \<Rightarrow> (c'\<lparr>cfile := Some i, cpath := path\<rparr>, None)))"

text \<open>\<open>ReadAt\<close> of \<open>n\<close> bytes at \<open>off\<close>: a short read is an error, its bytes are counted.\<close>

definition readAt :: "Cursor \<Rightarrow> bytes option \<Rightarrow> nat \<Rightarrow> nat \<Rightarrow> Cursor \<times> bytes option" where
  "readAt c file n off =
     (case file of
        None \<Rightarrow> (c, None)
      | Some b \<Rightarrow>
          (let got = bslice off (off + n) b
           in (c\<lparr>bytesRead := bytesRead c + length got\<rparr>, if length got = n then Some got else None)))"

record PollResult =
  pHeader :: WHeader
  pNewCommitted :: "Frame list"
  pTransactions :: "Transaction list"
  pCheckpoint :: bool

definition no_result :: PollResult where
  "no_result = \<lparr>pHeader = noHeader, pNewCommitted = [], pTransactions = [], pCheckpoint = False\<rparr>"

fun split_transactions :: "Frame list \<Rightarrow> nat \<Rightarrow> nat \<Rightarrow> Frame list \<Rightarrow> Transaction list" where
  "split_transactions committed start i [] = []"
| "split_transactions committed start i (f # fs) =
     (if fDBSize f = 0 then split_transactions committed start (Suc i) fs
      else \<lparr>tFrames = bslice start (Suc i) committed, tDBSize = fDBSize f\<rparr>
             # split_transactions committed (Suc i) (Suc i) fs)"

text \<open>The second half of \<open>Poll\<close>, once the header is checked: checkpoint detection, the tail read and the frame loop.\<close>

definition poll_restart :: "Cursor \<Rightarrow> WHeader \<Rightarrow> u32 \<times> u32 \<Rightarrow> nat \<Rightarrow> Cursor \<times> bool" where
  "poll_restart c h hs sz =
     (let saltChanged = (haveSalt c \<and> (salt1 c \<noteq> wSalt1 h \<or> salt2 c \<noteq> wSalt2 h))
      in if saltChanged \<or> sz < walHeaderSize + frameIdx c * frameSize h then
           (c\<lparr>frameIdx := 0, haveSalt := True, salt1 := wSalt1 h, salt2 := wSalt2 h,
              cksum1 := fst hs, cksum2 := snd hs, haveCksum := True\<rparr>, True)
         else
           (let c' = c\<lparr>haveSalt := True, salt1 := wSalt1 h, salt2 := wSalt2 h\<rparr>
            in (if \<not> haveCksum c' then c'\<lparr>cksum1 := fst hs, cksum2 := snd hs, haveCksum := True\<rparr> else c', False)))"

definition poll_tail :: "Cursor \<Rightarrow> WHeader \<Rightarrow> PollResult \<Rightarrow> nat \<Rightarrow> bytes \<Rightarrow> Cursor \<times> PollResult \<times> wal_error option" where
  "poll_tail c h res count tail =
     (let st = scan_loop h tail count 0 (scan_start (cksum1 c) (cksum2 c));
          committed = mark_committed (take (nat (xLast st) + 1) (xFrames st));
          (c', res') =
            (if xLast st \<ge> 0 then
               (c\<lparr>frameIdx := frameIdx c + nat (xLast st) + 1, cksum1 := xlastS1 st, cksum2 := xlastS2 st\<rparr>,
                res\<lparr>pNewCommitted := committed, pTransactions := split_transactions committed 0 0 committed\<rparr>)
             else (c, res))
      in (c', res', if xBad st \<and> xLast st < 0 then Some (ErrFrameChecksum (frameIdx c')) else None))"

definition poll_read :: "Cursor \<Rightarrow> WHeader \<Rightarrow> bool \<Rightarrow> nat \<Rightarrow> bytes option \<Rightarrow> Cursor \<times> PollResult \<times> wal_error option" where
  "poll_read c h checkpoint sz file =
     (let res = no_result\<lparr>pHeader := h, pCheckpoint := checkpoint\<rparr>;
          tot = (sz - walHeaderSize) div frameSize h
      in if tot \<le> frameIdx c then (c, res, None)
         else
           (let count = tot - frameIdx c
            in case readAt c file (count * frameSize h) (walHeaderSize + frameIdx c * frameSize h) of
                 (c', None) \<Rightarrow> (Close (reset c'), no_result\<lparr>pCheckpoint := True\<rparr>, None)
               | (c', Some tail) \<Rightarrow> poll_tail c' h res count tail))"

definition poll_frames :: "Cursor \<Rightarrow> WHeader \<Rightarrow> u32 \<times> u32 \<Rightarrow> nat \<Rightarrow> bytes option \<Rightarrow> Cursor \<times> PollResult \<times> wal_error option" where
  "poll_frames c h hs sz file = (let (c', checkpoint) = poll_restart c h hs sz in poll_read c' h checkpoint sz file)"

definition Poll :: "Cursor \<Rightarrow> string \<Rightarrow> poll_env \<Rightarrow> Cursor \<times> PollResult \<times> wal_error option" where
  "Poll c path env =
     (case open_wal c path env of
        (c0, Some e) \<Rightarrow>
          (if e = ErrNoWAL then
             (if haveSalt c0 then (reset c0, no_result\<lparr>pCheckpoint := True\<rparr>, None) else (c0, no_result, Some ErrNoWAL))
           else (c0, no_result, Some e))
      | (c0, None) \<Rightarrow>
          (let i = the (cfile c0)
           in case fileSize env i of
                None \<Rightarrow> (c0, no_result, Some IOError)
              | Some sz \<Rightarrow>
                  if sz < walHeaderSize then
                    (if haveSalt c0 then (reset c0, no_result\<lparr>pCheckpoint := True\<rparr>, None) else (c0, no_result, Some ErrNoWAL))
                  else
                    (case readAt c0 (headBytes env i) walHeaderSize 0 of
                       (c1, None) \<Rightarrow> (c1, no_result, Some IOError)
                     | (c1, Some headerBytes) \<Rightarrow>
                         (case parseHeader headerBytes of
                            Inl e \<Rightarrow> (c1, no_result, Some e)
                          | Inr h \<Rightarrow>
                              (let hs = headerChecksum headerBytes h
                               in if fst hs \<noteq> wChecksum1 h \<or> snd hs \<noteq> wChecksum2 h
                                  then (c1, no_result\<lparr>pHeader := h\<rparr>, Some ErrHeaderChecksum)
                                  else poll_frames c1 h hs sz (tailBytes env i))))))"

subsection \<open>What a WAL holds\<close>

text \<open>The longest run of frames that carry the header's salts and continue its checksum chain, each with the checksum
  after it, and the part of it that is committed.\<close>

definition next_frame :: "WHeader \<Rightarrow> bytes \<Rightarrow> u32 \<times> u32 \<Rightarrow> (Frame \<times> u32 \<times> u32) option" where
  "next_frame h d s =
     (let fh = take frameHdrSize d; page = take (unat (wPageSize h)) (drop frameHdrSize d);
          ns = frameChecksum fh page (fst s) (snd s) (checksumBig h)
      in if rd32 (bslice 8 12 fh) = wSalt1 h \<and> rd32 (bslice 12 16 fh) = wSalt2 h
           \<and> ns = (rd32 (bslice 16 20 fh), rd32 (bslice 20 24 fh))
         then Some (\<lparr>fPageNo = rd32 (bslice 0 4 fh), fDBSize = rd32 (bslice 4 8 fh), fData = page, fCommitted = False\<rparr>, ns)
         else None)"

fun valid_frames :: "WHeader \<Rightarrow> nat \<Rightarrow> bytes \<Rightarrow> u32 \<times> u32 \<Rightarrow> (Frame \<times> u32 \<times> u32) list" where
  "valid_frames h 0 d s = []"
| "valid_frames h (Suc n) d s =
     (case next_frame h d s of None \<Rightarrow> [] | Some v \<Rightarrow> v # valid_frames h n (drop (frameSize h) d) (snd v))"

fun committed :: "(Frame \<times> 'c) list \<Rightarrow> (Frame \<times> 'c) list" where
  "committed [] = []"
| "committed (v # vs) = (if fDBSize (fst v) \<noteq> 0 \<or> committed vs \<noteq> [] then v # committed vs else [])"

fun ck_end :: "'c \<Rightarrow> (Frame \<times> 'c) list \<Rightarrow> 'c" where
  "ck_end s [] = s"
| "ck_end s (v # vs) = ck_end (snd v) vs"

lemma committed_take: "committed vs = take (length (committed vs)) vs"
  by (induction vs rule: committed.induct) auto

lemma committed_idem [simp]: "committed (committed vs) = committed vs"
  by (induction vs rule: committed.induct) auto

lemma committed_append: "committed xs = xs \<Longrightarrow> committed (xs @ ys) = xs @ committed ys"
proof (induction xs rule: committed.induct)
  case (2 v vs)
  then have c: "committed vs = vs" "fDBSize (fst v) \<noteq> 0 \<or> vs \<noteq> []" by (auto split: if_splits)
  with 2(1) [OF c(1)] show ?case by auto
qed simp

lemma committed_length: "length (committed vs) \<le> length vs"
  by (induction vs rule: committed.induct) auto

lemma committed_all_last: "committed vs = vs \<Longrightarrow> vs \<noteq> [] \<Longrightarrow> fDBSize (fst (last vs)) \<noteq> 0"
  by (induction vs rule: committed.induct) (auto split: if_splits)

lemma ck_end_append: "ck_end s (xs @ ys) = ck_end (ck_end s xs) ys"
  by (induction s xs rule: ck_end.induct) auto

lemma valid_frames_length: "length (valid_frames h n d s) \<le> n"
  by (induction h n d s rule: valid_frames.induct) (auto split: option.split)

lemma valid_frames_add:
  "valid_frames h (n + m) d s =
     (let vs = valid_frames h n d s
      in if length vs = n then vs @ valid_frames h m (drop (n * frameSize h) d) (ck_end s vs) else vs)"
proof (induction n arbitrary: d s)
  case (Suc n)
  show ?case
    by (simp add: Suc [unfolded Let_def] Let_def add.commute [of _ "frameSize h"] split: option.split)
qed simp

lemma valid_frames_local:
  "take (n * frameSize h) d = take (n * frameSize h) d' \<Longrightarrow> valid_frames h n d s = valid_frames h n d' s"
proof (induction n arbitrary: d d' s)
  case (Suc n)
  have t: "take k d = take k d'" if "k \<le> frameSize h + n * frameSize h" for k
    using take_prefix_eq [OF Suc.prems] that by simp
  have p: "take (unat (wPageSize h)) (drop frameHdrSize d) = take (unat (wPageSize h)) (drop frameHdrSize d')"
    using t [of "frameHdrSize + unat (wPageSize h)"] by (simp add: take_drop frameSize_def add.commute)
  have r: "take (n * frameSize h) (drop (frameSize h) d) = take (n * frameSize h) (drop (frameSize h) d')"
    using t [of "frameSize h + n * frameSize h"] by (simp add: take_drop add.commute)
  have "next_frame h d s = next_frame h d' s"
    using t [of frameHdrSize] p by (simp add: next_frame_def frameSize_def)
  with Suc.IH [OF r] show ?case by (simp split: option.split)
qed simp

definition scan_next :: "scan \<Rightarrow> Frame \<times> u32 \<times> u32 \<Rightarrow> scan" where
  "scan_next st v =
     (let c = (fDBSize (fst v) \<noteq> 0)
      in \<lparr>xFrames = xFrames st @ [fst v], xLast = if c then int (length (xFrames st)) else xLast st,
          xCommits = if c then xCommits st + 1 else xCommits st, xs1 = fst (snd v), xs2 = snd (snd v),
          xlastS1 = if c then fst (snd v) else xlastS1 st, xlastS2 = if c then snd (snd v) else xlastS2 st, xBad = xBad st\<rparr>)"

lemma scan_slices:
  "bslice off (off + frameHdrSize) data = take frameHdrSize (drop off data)"
  "bslice (off + frameHdrSize) (off + frameSize h) data = take (unat (wPageSize h)) (drop frameHdrSize (drop off data))"
  by (simp_all add: bslice_def frameSize_def add.commute)

lemma scan_step_Some:
  assumes "next_frame h (drop off data) (xs1 st, xs2 st) = Some v"
  shows "scan_loop h data (Suc n) off st = scan_loop h data n (off + frameSize h) (scan_next st v)"
proof -
  have "scan_frame h (take frameHdrSize (drop off data)) (take (unat (wPageSize h)) (drop frameHdrSize (drop off data))) (snd v) st
      = scan_next st v"
    using assms by (intro scan.equality) (auto simp: scan_frame_def scan_next_def next_frame_def Let_def split: if_split_asm)
  then show ?thesis
    using assms unfolding scan_loop.simps next_frame_def Let_def scan_slices by (auto split: if_split_asm)
qed

lemma scan_step_None:
  assumes "next_frame h (drop off data) (xs1 st, xs2 st) = None"
  shows "\<exists>b. scan_loop h data (Suc n) off st = st\<lparr>xBad := b\<rparr>"
proof -
  have same: "\<exists>b. st = st\<lparr>xBad := b\<rparr>" by (rule exI [of _ "xBad st"]) simp
  show ?thesis
    using assms same unfolding scan_loop.simps next_frame_def Let_def scan_slices
    by (simp add: prod_eq_iff split: if_split_asm) blast
qed

lemma scan_loop_spec:
  "let vs = valid_frames h n (drop off data) (xs1 st, xs2 st); st' = scan_loop h data n off st; cv = committed vs
   in xFrames st' = xFrames st @ map fst vs \<and>
      (if cv = [] then xLast st' = xLast st \<and> xlastS1 st' = xlastS1 st \<and> xlastS2 st' = xlastS2 st
       else xLast st' = int (length (xFrames st) + length cv) - 1 \<and> (xlastS1 st', xlastS2 st') = snd (last cv))"
proof (induction n arbitrary: off st)
  case (Suc n)
  show ?case
  proof (cases "next_frame h (drop off data) (xs1 st, xs2 st)")
    case None
    with scan_step_None [OF None, of n] show ?thesis by (auto simp: Let_def)
  next
    case (Some v)
    have x: "(xs1 (scan_next st v), xs2 (scan_next st v)) = snd v" "xFrames (scan_next st v) = xFrames st @ [fst v]"
      by (simp_all add: scan_next_def Let_def)
    show ?thesis
      using Suc.IH [of "off + frameSize h" "scan_next st v"] Some
      unfolding scan_step_Some [OF Some] x valid_frames.simps
      by (auto simp: Let_def add.commute scan_next_def split: if_split_asm)
  qed
qed simp


definition wal_header :: "bytes \<Rightarrow> WHeader option" where
  "wal_header b =
     (if length b < walHeaderSize then None
      else case parseHeader (take walHeaderSize b) of
             Inl _ \<Rightarrow> None
           | Inr h \<Rightarrow> if headerChecksum (take walHeaderSize b) h = (wChecksum1 h, wChecksum2 h) then Some h else None)"

definition wal_start :: "WHeader \<Rightarrow> u32 \<times> u32" where
  "wal_start h = (wChecksum1 h, wChecksum2 h)"

definition wal_valid :: "WHeader \<Rightarrow> bytes \<Rightarrow> (Frame \<times> u32 \<times> u32) list" where
  "wal_valid h b = valid_frames h ((length b - walHeaderSize) div frameSize h) (drop walHeaderSize b) (wal_start h)"

definition wal_committed :: "WHeader \<Rightarrow> bytes \<Rightarrow> (Frame \<times> u32 \<times> u32) list" where
  "wal_committed h b = committed (wal_valid h b)"

definition frames_of :: "(Frame \<times> 'c) list \<Rightarrow> Frame list" where
  "frames_of vs = mark_committed (map fst vs)"

lemma frames_of_append: "frames_of (xs @ ys) = frames_of xs @ frames_of ys"
  by (simp add: frames_of_def mark_committed_def)

lemma frames_of_Nil [simp]: "frames_of [] = []"
  by (simp add: frames_of_def mark_committed_def)

lemma length_frames_of [simp]: "length (frames_of vs) = length vs"
  by (simp add: frames_of_def mark_committed_def)

lemma frameSize_pos: "0 < frameSize h"
  by (simp add: frameSize_def frameHdrSize_def)

lemma wal_header_length: "wal_header b = Some h \<Longrightarrow> walHeaderSize \<le> length b"
  by (auto simp: wal_header_def split: if_splits)

lemma wal_header_prefix:
  "take n b = take n b' \<Longrightarrow> walHeaderSize \<le> n \<Longrightarrow> n \<le> length b' \<Longrightarrow> walHeaderSize \<le> length b \<Longrightarrow> wal_header b' = wal_header b"
proof -
  assume a: "take n b = take n b'" "walHeaderSize \<le> n" "n \<le> length b'" "walHeaderSize \<le> length b"
  then have "take walHeaderSize b = take walHeaderSize b'" by (metis take_prefix_eq)
  with a show ?thesis by (auto simp: wal_header_def split: sum.split)
qed

lemma committed_frames:
  assumes "cv = committed vs"
  shows "mark_committed (take (length cv) (map fst vs)) = frames_of cv"
  using committed_take [of vs] assms by (simp add: frames_of_def take_map)

lemma Read_spec:
  assumes "wal_header b = Some h"
  shows "\<exists>snap e. Read (Inr b) = Inr (snap, e) \<and> sHeader snap = h \<and> sFrames snap = frames_of (wal_committed h b)"
proof -
  let ?n = "(length b - walHeaderSize) div frameSize h"
  from assms have l: "\<not> length b < walHeaderSize" and p: "parseHeader (take walHeaderSize b) = Inr h"
    and ck: "headerChecksum (take walHeaderSize b) h = (wChecksum1 h, wChecksum2 h)"
    by (auto simp: wal_header_def split: if_splits sum.splits)
  show ?thesis
  proof (cases "length b < walHeaderSize + frameSize h")
    case True
    then have "wal_valid h b = []" using l by (simp add: wal_valid_def)
    with True l show ?thesis by (simp add: Read_def p ck wal_committed_def)
  next
    case False
    define vs where "vs = wal_valid h b"
    define st where "st = scan_loop h b ?n walHeaderSize (scan_start (wChecksum1 h) (wChecksum2 h))"
    have "xFrames st = map fst vs \<and> (if committed vs = [] then xLast st = -1 else xLast st = int (length (committed vs)) - 1)"
      using scan_loop_spec [of h ?n walHeaderSize b "scan_start (wChecksum1 h) (wChecksum2 h)"]
      by (auto simp: Let_def st_def vs_def wal_valid_def wal_start_def scan_start_def split: if_split_asm)
    with committed_frames [of "committed vs" vs] have "if xLast st < 0 then frames_of (committed vs) = []
        else mark_committed (take (nat (xLast st) + 1) (xFrames st)) = frames_of (committed vs)"
      by (cases "committed vs") auto
    then show ?thesis
      using False l by (auto simp: Read_def p ck st_def [symmetric] wal_committed_def vs_def [symmetric] Let_def)
  qed
qed


lemma ck_end_last: "vs \<noteq> [] \<Longrightarrow> ck_end s vs = snd (last vs)"
  by (induction s vs rule: ck_end.induct) auto

lemma poll_tail_spec:
  assumes "cv = committed (valid_frames h count tail (cksum1 c, cksum2 c))" "pNewCommitted res = []" "pTransactions res = []"
  shows "\<exists>e. poll_tail c h res count tail =
    (c\<lparr>frameIdx := frameIdx c + length cv, cksum1 := fst (ck_end (cksum1 c, cksum2 c) cv),
       cksum2 := snd (ck_end (cksum1 c, cksum2 c) cv)\<rparr>,
     res\<lparr>pNewCommitted := frames_of cv, pTransactions := split_transactions (frames_of cv) 0 0 (frames_of cv)\<rparr>, e)"
proof -
  define vs where "vs = valid_frames h count tail (cksum1 c, cksum2 c)"
  define st where "st = scan_loop h tail count 0 (scan_start (cksum1 c) (cksum2 c))"
  have spec: "xFrames st = map fst vs \<and> (if cv = [] then xLast st = -1
      else xLast st = int (length cv) - 1 \<and> (xlastS1 st, xlastS2 st) = snd (last cv))"
    using scan_loop_spec [of h count 0 tail "scan_start (cksum1 c) (cksum2 c)"] assms(1)
    by (auto simp: Let_def st_def vs_def scan_start_def split: if_split_asm)
  show ?thesis
  proof (cases "cv = []")
    case True
    have "res = res\<lparr>pNewCommitted := [], pTransactions := []\<rparr>" using assms(2,3) by (intro PollResult.equality) simp_all
    with True spec show ?thesis by (simp add: poll_tail_def st_def [symmetric] Let_def)
  next
    case False
    then have n: "Suc (nat (int (length cv) - 1)) = length cv" "0 \<le> int (length cv) - 1" by (cases cv; simp)+
    from False spec have x: "xlastS1 st = fst (ck_end (cksum1 c, cksum2 c) cv)" "xlastS2 st = snd (ck_end (cksum1 c, cksum2 c) cv)"
      by (simp_all add: ck_end_last prod_eq_iff)
    have f: "mark_committed (take (Suc (nat (xLast st))) (xFrames st)) = frames_of cv"
      using committed_frames [of cv vs] False spec n assms(1) by (simp add: vs_def)
    from False spec n x f show ?thesis
      by (simp add: poll_tail_def st_def [symmetric] Let_def)
  qed
qed

text \<open>The cursor agrees with the file: its salts are the header's, and its position and checksum are those after a run of
  committed frames.\<close>

definition synced :: "Cursor \<Rightarrow> WHeader \<Rightarrow> bytes \<Rightarrow> bool" where
  "synced c h b \<longleftrightarrow>
     (haveSalt c \<longrightarrow> salt1 c = wSalt1 h \<and> salt2 c = wSalt2 h) \<and>
     (let vs = valid_frames h (frameIdx c) (drop walHeaderSize b) (wal_start h)
      in length vs = frameIdx c \<and> committed vs = vs \<and>
         (if haveCksum c then (cksum1 c, cksum2 c) = ck_end (wal_start h) vs else frameIdx c = 0))"

lemma valid_frames_take: "m \<le> k \<Longrightarrow> valid_frames h m d s = take m (valid_frames h k d s)"
proof (induction m arbitrary: k d s)
  case (Suc m)
  then obtain k' where "k = Suc k'" "m \<le> k'" by (metis Suc_le_D Suc_le_mono)
  with Suc.IH [of k'] show ?case by (auto split: option.split)
qed simp

lemma poll_restart_synced:
  assumes s: "synced c h b" and len: "walHeaderSize + frameIdx c * frameSize h \<le> length b"
  shows "\<exists>c1. poll_restart c h (wal_start h) (length b) = (c1, False) \<and> synced c1 h b \<and> haveCksum c1 \<and> haveSalt c1
    \<and> frameIdx c1 = frameIdx c
    \<and> (cksum1 c1, cksum2 c1) = ck_end (wal_start h) (valid_frames h (frameIdx c) (drop walHeaderSize b) (wal_start h))"
  using assms by (auto simp: poll_restart_def synced_def Let_def)

lemma wal_valid_split:
  assumes "synced c h b" "walHeaderSize + frameIdx c * frameSize h \<le> length b"
  defines "vs \<equiv> valid_frames h (frameIdx c) (drop walHeaderSize b) (wal_start h)"
    and "rest \<equiv> (length b - walHeaderSize) div frameSize h - frameIdx c"
  shows "frameIdx c + rest = (length b - walHeaderSize) div frameSize h"
    and "wal_committed h b = vs @ committed (valid_frames h rest (drop (walHeaderSize + frameIdx c * frameSize h) b)
           (ck_end (wal_start h) vs))"
proof -
  have "frameIdx c * frameSize h \<le> length b - walHeaderSize" using assms(2) by simp
  then have "frameIdx c \<le> (length b - walHeaderSize) div frameSize h"
    using frameSize_pos [of h] by (simp add: less_eq_div_iff_mult_less_eq)
  then show r: "frameIdx c + rest = (length b - walHeaderSize) div frameSize h" by (simp add: rest_def)
  have "length vs = frameIdx c" "committed vs = vs" using assms(1) by (auto simp: synced_def vs_def Let_def)
  then show "wal_committed h b = vs @ committed (valid_frames h rest (drop (walHeaderSize + frameIdx c * frameSize h) b)
           (ck_end (wal_start h) vs))"
    using valid_frames_add [of h "frameIdx c" rest "drop walHeaderSize b" "wal_start h"]
    unfolding wal_committed_def wal_valid_def r [symmetric]
    by (simp add: Let_def vs_def [symmetric] committed_append add.commute)
qed

lemma valid_frames_committed:
  "valid_frames h (length (wal_committed h b)) (drop walHeaderSize b) (wal_start h) = wal_committed h b"
proof -
  have "length (wal_committed h b) \<le> (length b - walHeaderSize) div frameSize h"
    unfolding wal_committed_def wal_valid_def by (meson committed_length le_trans valid_frames_length)
  then show ?thesis
    using valid_frames_take [of "length (wal_committed h b)"] committed_take [of "wal_valid h b"]
    by (simp add: wal_valid_def [symmetric] wal_committed_def)
qed

lemma synced_at_commit:
  assumes "frameIdx c = length (wal_committed h b)" "(cksum1 c, cksum2 c) = ck_end (wal_start h) (wal_committed h b)"
    and "haveCksum c" "haveSalt c \<longrightarrow> salt1 c = wSalt1 h \<and> salt2 c = wSalt2 h"
  shows "synced c h b"
  using assms valid_frames_committed [of h b] by (simp add: synced_def Let_def) (simp add: wal_committed_def)

lemma poll_read_spec:
  assumes s: "synced c h b" "haveCksum c" and len: "walHeaderSize + frameIdx c * frameSize h \<le> length b"
  shows "\<exists>c' res e new. poll_read c h cp (length b) (Some b) = (c', res, e) \<and> pCheckpoint res = cp
    \<and> wal_committed h b = valid_frames h (frameIdx c) (drop walHeaderSize b) (wal_start h) @ new
    \<and> pNewCommitted res = frames_of new \<and> pTransactions res = split_transactions (frames_of new) 0 0 (frames_of new)
    \<and> synced c' h b \<and> frameIdx c' = length (wal_committed h b)"
proof -
  let ?vs = "valid_frames h (frameIdx c) (drop walHeaderSize b) (wal_start h)"
  define rest where "rest = (length b - walHeaderSize) div frameSize h - frameIdx c"
  define d where "d = drop (walHeaderSize + frameIdx c * frameSize h) b"
  note split = wal_valid_split [OF s(1) len, folded rest_def d_def]
  have lv: "length ?vs = frameIdx c" and ck: "(cksum1 c, cksum2 c) = ck_end (wal_start h) ?vs"
    using s by (simp_all add: synced_def Let_def)
  show ?thesis
  proof (cases "rest = 0")
    case True
    then show ?thesis using s split lv by (simp add: poll_read_def no_result_def)
  next
    case False
    define cv where "cv = committed (valid_frames h rest d (ck_end (wal_start h) ?vs))"
    have "(frameIdx c + rest) * frameSize h \<le> length b - walHeaderSize" unfolding split(1) by simp
    then have "rest * frameSize h \<le> length d" unfolding d_def by (simp add: add_mult_distrib)
    then have rd: "readAt c (Some b) (rest * frameSize h) (walHeaderSize + frameIdx c * frameSize h)
        = (c\<lparr>bytesRead := bytesRead c + rest * frameSize h\<rparr>, Some (take (rest * frameSize h) d))"
      by (simp add: readAt_def bslice_def d_def min.absorb2)
    let ?c2 = "c\<lparr>bytesRead := bytesRead c + rest * frameSize h\<rparr>"
    let ?c3 = "?c2\<lparr>frameIdx := frameIdx ?c2 + length cv, cksum1 := fst (ck_end (cksum1 ?c2, cksum2 ?c2) cv),
         cksum2 := snd (ck_end (cksum1 ?c2, cksum2 ?c2) cv)\<rparr>"
    let ?res = "no_result\<lparr>pHeader := h, pCheckpoint := cp\<rparr>"
    have cv: "cv = committed (valid_frames h rest (take (rest * frameSize h) d) (cksum1 ?c2, cksum2 ?c2))"
      using valid_frames_local [of rest h "take (rest * frameSize h) d" d] ck by (simp add: cv_def)
    from poll_tail_spec [OF cv, of ?res] obtain e where pt: "poll_tail ?c2 h ?res rest (take (rest * frameSize h) d) =
      (?c3, ?res\<lparr>pNewCommitted := frames_of cv, pTransactions := split_transactions (frames_of cv) 0 0 (frames_of cv)\<rparr>, e)"
      by (auto simp: no_result_def)
    have wc: "wal_committed h b = ?vs @ cv" using split(2) by (simp add: cv_def)
    have "poll_read c h cp (length b) (Some b) = poll_tail ?c2 h ?res rest (take (rest * frameSize h) d)"
      using False rd split(1) by (simp add: poll_read_def rest_def [symmetric] Let_def)
    moreover have "synced ?c3 h b"
      using s lv ck by (intro synced_at_commit) (auto simp: wc ck_end_append synced_def)
    ultimately show ?thesis using pt wc lv by auto
  qed
qed

lemma poll_frames_spec:
  assumes s: "synced c h b" and len: "walHeaderSize + frameIdx c * frameSize h \<le> length b"
  shows "\<exists>c' res e new. poll_frames c h (wal_start h) (length b) (Some b) = (c', res, e) \<and> pCheckpoint res = False
    \<and> wal_committed h b = valid_frames h (frameIdx c) (drop walHeaderSize b) (wal_start h) @ new
    \<and> pNewCommitted res = frames_of new \<and> pTransactions res = split_transactions (frames_of new) 0 0 (frames_of new)
    \<and> synced c' h b \<and> frameIdx c' = length (wal_committed h b)"
proof -
  from poll_restart_synced [OF s len] obtain c1 where c1: "poll_restart c h (wal_start h) (length b) = (c1, False)"
    "synced c1 h b" "haveCksum c1" "frameIdx c1 = frameIdx c" by blast
  from poll_read_spec [OF c1(2,3), of False] len show ?thesis by (simp add: poll_frames_def c1)
qed

subsection \<open>Polling a live WAL\<close>

text \<open>During the poll the path names one file whose contents are \<open>b\<close>.\<close>

definition shows_wal :: "string \<Rightarrow> poll_env \<Rightarrow> bytes \<Rightarrow> bool" where
  "shows_wal path env b \<longleftrightarrow>
     (\<exists>i. osOpen env path = Inr i \<and> osStat env path = Some i \<and> fileSize env i = Some (length b)
        \<and> headBytes env i = Some b \<and> tailBytes env i = Some b)"

text \<open>SQLite's contract within one WAL generation: the header and the committed frames stay; frames after the last commit
  may be rewritten, extended or cut.\<close>

definition keeps :: "bytes \<Rightarrow> bytes \<Rightarrow> bool" where
  "keeps b b' \<longleftrightarrow>
     (\<forall>h. wal_header b = Some h \<longrightarrow>
        (let n = walHeaderSize + length (wal_committed h b) * frameSize h in n \<le> length b' \<and> take n b' = take n b))"

fun poll_all :: "Cursor \<Rightarrow> string \<Rightarrow> poll_env list \<Rightarrow> Cursor \<times> Frame list" where
  "poll_all c path [] = (c, [])"
| "poll_all c path (env # envs) =
     (let (c1, res, _) = Poll c path env; (c2, fs) = poll_all c1 path envs in (c2, pNewCommitted res @ fs))"

lemma open_wal_shows:
  assumes "shows_wal path env b"
  shows "\<exists>i. open_wal c path env = (c\<lparr>cfile := Some i, cpath := path\<rparr>, None) \<and> fileSize env i = Some (length b)
    \<and> headBytes env i = Some b \<and> tailBytes env i = Some b"
proof -
  from assms obtain i where i: "osOpen env path = Inr i" "osStat env path = Some i" "fileSize env i = Some (length b)"
    "headBytes env i = Some b" "tailBytes env i = Some b" by (auto simp: shows_wal_def)
  have "Close c\<lparr>cfile := Some i, cpath := path\<rparr> = c\<lparr>cfile := Some i, cpath := path\<rparr>"
    by (auto simp: Close_def split: option.split)
  moreover have "cfile c = Some i \<Longrightarrow> cpath c = path \<Longrightarrow> c = c\<lparr>cfile := Some i, cpath := path\<rparr>"
    by (intro Cursor.equality) simp_all
  ultimately have "open_wal c path env = (c\<lparr>cfile := Some i, cpath := path\<rparr>, None)"
    using i by (auto simp: open_wal_def Let_def)
  with i show ?thesis by blast
qed

lemma Poll_shows:
  assumes "shows_wal path env b" "wal_header b = Some h"
  shows "\<exists>i k. Poll c path env = poll_frames (c\<lparr>cfile := i, cpath := path, bytesRead := k\<rparr>) h (wal_start h) (length b) (Some b)"
proof -
  from open_wal_shows [OF assms(1)] obtain i where i: "open_wal c path env = (c\<lparr>cfile := Some i, cpath := path\<rparr>, None)"
    "fileSize env i = Some (length b)" "headBytes env i = Some b" "tailBytes env i = Some b" by blast
  from assms(2) have l: "\<not> length b < walHeaderSize" and p: "parseHeader (take walHeaderSize b) = Inr h"
    and ck: "headerChecksum (take walHeaderSize b) h = (wChecksum1 h, wChecksum2 h)"
    by (auto simp: wal_header_def split: if_splits sum.splits)
  have "readAt (c\<lparr>cfile := Some i, cpath := path\<rparr>) (Some b) walHeaderSize 0
      = (c\<lparr>cfile := Some i, cpath := path, bytesRead := bytesRead c + walHeaderSize\<rparr>, Some (take walHeaderSize b))"
    using l by (simp add: readAt_def bslice_def min.absorb2)
  then have "Poll c path env = poll_frames (c\<lparr>cfile := Some i, cpath := path, bytesRead := bytesRead c + walHeaderSize\<rparr>) h
      (wal_start h) (length b) (Some b)"
    using i l by (simp add: Poll_def Let_def p ck wal_start_def)
  then show ?thesis by blast
qed

lemma synced_cong: "synced (c\<lparr>cfile := i, cpath := p, bytesRead := k\<rparr>) h b = synced c h b"
  by (simp add: synced_def)

lemma synced_keeps:
  assumes "wal_header b = Some h" "keeps b b'" "synced c h b" "frameIdx c \<le> length (wal_committed h b)"
  shows "wal_header b' = Some h" "synced c h b'" "walHeaderSize + frameIdx c * frameSize h \<le> length b'"
    and "valid_frames h (frameIdx c) (drop walHeaderSize b') (wal_start h) = valid_frames h (frameIdx c) (drop walHeaderSize b) (wal_start h)"
proof -
  let ?n = "walHeaderSize + length (wal_committed h b) * frameSize h"
  from assms(1,2) have k: "?n \<le> length b'" "take ?n b' = take ?n b" unfolding keeps_def Let_def by blast+
  show "wal_header b' = Some h"
    using wal_header_prefix [of ?n b b'] k wal_header_length [OF assms(1)] assms(1) by simp
  have le: "walHeaderSize + frameIdx c * frameSize h \<le> ?n" using assms(4) by simp
  then show "walHeaderSize + frameIdx c * frameSize h \<le> length b'" using k(1) by linarith
  have "take (walHeaderSize + frameIdx c * frameSize h) b' = take (walHeaderSize + frameIdx c * frameSize h) b"
    by (rule take_prefix_eq [OF k(2) le])
  then have "take (frameIdx c * frameSize h) (drop walHeaderSize b') = take (frameIdx c * frameSize h) (drop walHeaderSize b)"
    by (simp add: take_drop add.commute)
  then show v: "valid_frames h (frameIdx c) (drop walHeaderSize b') (wal_start h) = valid_frames h (frameIdx c) (drop walHeaderSize b) (wal_start h)"
    by (rule valid_frames_local)
  show "synced c h b'" using assms(3) by (simp add: synced_def v)
qed

lemma Poll_synced:
  assumes "shows_wal path env b" "wal_header b = Some h" "synced c h b" "walHeaderSize + frameIdx c * frameSize h \<le> length b"
  shows "\<exists>c' res e new. Poll c path env = (c', res, e) \<and> pCheckpoint res = False
    \<and> wal_committed h b = valid_frames h (frameIdx c) (drop walHeaderSize b) (wal_start h) @ new
    \<and> pNewCommitted res = frames_of new \<and> pTransactions res = split_transactions (frames_of new) 0 0 (frames_of new)
    \<and> synced c' h b \<and> frameIdx c' = length (wal_committed h b)"
proof -
  from Poll_shows [OF assms(1,2)] obtain i k where
    p: "Poll c path env = poll_frames (c\<lparr>cfile := i, cpath := path, bytesRead := k\<rparr>) h (wal_start h) (length b) (Some b)"
    by blast
  have s: "synced (c\<lparr>cfile := i, cpath := path, bytesRead := k\<rparr>) h b" using assms(3) by (simp only: synced_cong)
  show ?thesis using poll_frames_spec [OF s] assms(4) unfolding p by simp
qed

lemma poll_all_synced:
  assumes "wal_header b = Some h" "synced c h b" "frameIdx c = length (wal_committed h b)"
    and "list_all2 (shows_wal path) envs bs" "successively keeps (b # bs)"
  shows "frames_of (wal_committed h b) @ snd (poll_all c path envs) = frames_of (wal_committed h (last (b # bs)))
    \<and> wal_header (last (b # bs)) = Some h"
  using assms(4,1,2,3,5)
proof (induction envs bs arbitrary: b c rule: list_all2_induct)
  case Nil
  then show ?case by simp
next
  case (Cons env envs b' bs)
  note sk = synced_keeps [OF Cons.prems(1) _ Cons.prems(2), of b']
  have k: "keeps b b'" "successively keeps (b' # bs)" using Cons.prems(4) by (auto simp: successively_Cons)
  from Poll_synced [OF Cons.hyps(1) sk(1,2,3)] k(1) Cons.prems(3)
  obtain c' res e new where p: "Poll c path env = (c', res, e)" "pNewCommitted res = frames_of new"
    "wal_committed h b' = valid_frames h (frameIdx c) (drop walHeaderSize b') (wal_start h) @ new"
    "synced c' h b'" "frameIdx c' = length (wal_committed h b')" by auto
  have "valid_frames h (frameIdx c) (drop walHeaderSize b) (wal_start h) = wal_committed h b"
    using Cons.prems(3) valid_frames_committed [of h b] by simp
  then have wc: "wal_committed h b' = wal_committed h b @ new" using p(3) sk(4) k(1) Cons.prems(3) by simp
  have h': "wal_header b' = Some h" using sk(1) k(1) Cons.prems(3) by simp
  show ?case using Cons.IH [OF h' p(4,5) k(2)] p(1,2) wc
    by (cases "poll_all c' path envs") (simp add: frames_of_append)
qed

subsection \<open>Transactions\<close>

fun group_frames :: "Frame list \<Rightarrow> Frame list \<Rightarrow> Transaction list" where
  "group_frames p [] = []"
| "group_frames p (f # fs) =
     (if fDBSize f = 0 then group_frames (p @ [f]) fs
      else \<lparr>tFrames = p @ [f], tDBSize = fDBSize f\<rparr> # group_frames [] fs)"

lemma split_transactions_group:
  "split_transactions (pre @ p @ fs) (length pre) (length pre + length p) fs = group_frames p fs"
proof (induction p fs arbitrary: pre rule: group_frames.induct)
  case (2 p f fs)
  have b: "bslice (length pre) (Suc (length pre + length p)) (pre @ p @ f # fs) = p @ [f]"
    by (simp add: bslice_def)
  show ?case
  proof (cases "fDBSize f = 0")
    case True
    then show ?thesis using 2(1) [of pre] by simp
  next
    case False
    then show ?thesis using 2(2) [of "pre @ p @ [f]"] b by simp
  qed
qed simp

definition is_transaction :: "Transaction \<Rightarrow> bool" where
  "is_transaction t \<longleftrightarrow> tFrames t \<noteq> [] \<and> tDBSize t = fDBSize (last (tFrames t)) \<and> tDBSize t \<noteq> 0
     \<and> (\<forall>f\<in>set (butlast (tFrames t)). fDBSize f = 0)"

lemma group_frames_spec:
  assumes "\<forall>f\<in>set p. fDBSize f = 0" "fs \<noteq> [] \<Longrightarrow> fDBSize (last fs) \<noteq> 0"
  shows "(fs \<noteq> [] \<longrightarrow> concat (map tFrames (group_frames p fs)) = p @ fs) \<and> (\<forall>t\<in>set (group_frames p fs). is_transaction t)"
  using assms
proof (induction p fs rule: group_frames.induct)
  case (2 p f fs)
  show ?case
  proof (cases "fDBSize f = 0")
    case True
    with 2(3,4) have "fs \<noteq> []" "\<forall>g\<in>set (p @ [f]). fDBSize g = 0" "fDBSize (last fs) \<noteq> 0" by (auto split: if_splits)
    with 2(1) [OF True] True show ?thesis by simp
  next
    case False
    have "fs \<noteq> [] \<Longrightarrow> fDBSize (last fs) \<noteq> 0" using 2(4) by simp
    have "is_transaction \<lparr>tFrames = p @ [f], tDBSize = fDBSize f\<rparr>" using False 2(3) by (simp add: is_transaction_def)
    with 2(2) [OF False _ \<open>fs \<noteq> [] \<Longrightarrow> fDBSize (last fs) \<noteq> 0\<close>] False show ?thesis by (cases "fs = []") simp_all
  qed
qed simp

lemma committed_frames_of_last: "cv = committed vs \<Longrightarrow> frames_of cv \<noteq> [] \<Longrightarrow> fDBSize (last (frames_of cv)) \<noteq> 0"
proof -
  assume a: "cv = committed vs" "frames_of cv \<noteq> []"
  then have "cv \<noteq> []" by auto
  then show ?thesis using committed_all_last [of cv] a by (simp add: frames_of_def mark_committed_def last_map)
qed

definition whole_transactions :: "PollResult \<Rightarrow> bool" where
  "whole_transactions res \<longleftrightarrow>
     concat (map tFrames (pTransactions res)) = pNewCommitted res \<and> (\<forall>t\<in>set (pTransactions res). is_transaction t)"

lemma whole_no_result [simp]:
  "whole_transactions no_result" "whole_transactions (no_result\<lparr>pHeader := h\<rparr>)"
  "whole_transactions (no_result\<lparr>pCheckpoint := c\<rparr>)" "whole_transactions (no_result\<lparr>pHeader := h, pCheckpoint := c\<rparr>)"
  by (simp_all add: whole_transactions_def no_result_def)

lemma poll_tail_whole:
  "whole_transactions (fst (snd (poll_tail c h (no_result\<lparr>pHeader := h, pCheckpoint := cp\<rparr>) n tail)))"
proof -
  define cv where "cv = committed (valid_frames h n tail (cksum1 c, cksum2 c))"
  from split_transactions_group [of "[]" "[]" "frames_of cv"]
  have g: "split_transactions (frames_of cv) 0 0 (frames_of cv) = group_frames [] (frames_of cv)" by simp
  from group_frames_spec [of "[]" "frames_of cv"] committed_frames_of_last [OF cv_def]
  show ?thesis
    using poll_tail_spec [OF cv_def, of "no_result\<lparr>pHeader := h, pCheckpoint := cp\<rparr>"]
    by (cases "frames_of cv = []") (auto simp: no_result_def whole_transactions_def g)
qed

lemma poll_read_whole: "whole_transactions (fst (snd (poll_read c h cp n f)))"
  using poll_tail_whole by (auto simp: poll_read_def Let_def split: prod.split option.split)

text \<open>Whatever the cursor holds and whatever the file system answers, the transactions a poll
  reports are exactly the frames it reports as newly committed, cut at the commit frames: every transaction is complete,
  its last frame carries its database size, and no other frame of it does.\<close>

lemma poll_whole_transactions: "whole_transactions (fst (snd (Poll c path env)))"
  using poll_read_whole
  by (auto simp: Poll_def poll_frames_def Let_def split: prod.split option.split sum.split)

subsection \<open>Polling and reading agree\<close>

lemma NewCursor_synced: "synced NewCursor h b"
  by (simp add: synced_def NewCursor_def)

text \<open>C8: a cursor that polls a WAL while SQLite appends to it delivers every committed frame exactly
  once and in order: the frames of all polls together are the frames a one-shot \<open>Read\<close> of the final file returns.\<close>

theorem polling_is_read:
  assumes "wal_header b = Some h" "successively keeps (b # bs)" "list_all2 (shows_wal path) envs (b # bs)"
  shows "\<exists>snap e. Read (Inr (last (b # bs))) = Inr (snap, e) \<and> snd (poll_all NewCursor path envs) = sFrames snap"
proof -
  from assms(3) obtain env envs' where e: "envs = env # envs'" "shows_wal path env b" "list_all2 (shows_wal path) envs' bs"
    by (auto simp: list_all2_Cons2)
  have "walHeaderSize + frameIdx NewCursor * frameSize h \<le> length b"
    using wal_header_length [OF assms(1)] by (simp add: NewCursor_def)
  from Poll_synced [OF e(2) assms(1) NewCursor_synced this] obtain c' res er where
    p: "Poll NewCursor path env = (c', res, er)" "pNewCommitted res = frames_of (wal_committed h b)"
    "synced c' h b" "frameIdx c' = length (wal_committed h b)" by (auto simp: NewCursor_def)
  from poll_all_synced [OF assms(1) p(3,4) e(3) assms(2)] p(1,2) Read_spec [of "last (b # bs)" h]
  show ?thesis by (cases "poll_all c' path envs'") (auto simp: e(1))
qed

text \<open>A WAL with an 8-byte page size and two frames, of which the second commits.\<close>

definition wal_example_header :: WHeader where
  "wal_example_header = \<lparr>wMagic = 0x377f0683, wVersion = 1, wPageSize = 8, wCheckpointSeq = 0, wSalt1 = 1, wSalt2 = 2,
     wChecksum1 = 0x157b20a3, wChecksum2 = 0xbbf83438\<rparr>"

definition wal_example_head :: bytes where
  "wal_example_head = [55, 127, 6, 131, 0, 0, 0, 1, 0, 0, 0, 8, 0, 0, 0, 0, 0, 0, 0, 1, 0, 0, 0, 2, 21, 123, 32, 163, 187, 248, 52, 56]"

definition wal_example_frame1 :: bytes where
  "wal_example_frame1 = [0, 0, 0, 1, 0, 0, 0, 0, 0, 0, 0, 1, 0, 0, 0, 2, 103, 231, 230, 249, 254, 92, 121, 22, 9, 9, 9, 9, 9, 9, 9, 9]"

definition wal_example_frame2 :: bytes where
  "wal_example_frame2 = [0, 0, 0, 2, 0, 0, 0, 2, 0, 0, 0, 1, 0, 0, 0, 2, 209, 236, 64, 65, 61, 148, 32, 113, 7, 7, 7, 7, 7, 7, 7, 7]"

lemma wal_example_fields [simp]:
  "wPageSize wal_example_header = 8" "wSalt1 wal_example_header = 1" "wSalt2 wal_example_header = 2"
  "checksumBig wal_example_header" "wal_start wal_example_header = (0x157b20a3, 0xbbf83438)"
  "length wal_example_head = 32" "length wal_example_frame1 = 32" "length wal_example_frame2 = 32"
  "frameSize wal_example_header = 32" "walHeaderSize = 32"
  by (simp_all add: wal_example_header_def checksumBig_def wal_start_def wal_example_head_def wal_example_frame1_def
      wal_example_frame2_def frameSize_def frameHdrSize_def walHeaderSize_def)

lemma checksum_step:
  "8 \<le> length b \<Longrightarrow> checksumBytes b s1 s2 True =
     (let s1' = s1 + (rd32 (take 4 b) + s2) in checksumBytes (drop 8 b) s1' (s2 + (rd32 (take 4 (drop 4 b)) + s1')) True)"
  "length b < 8 \<Longrightarrow> checksumBytes b s1 s2 big = (s1, s2)"
  by (simp_all add: checksumBytes.simps [of b] bslice_def Let_def)

lemma wal_example_header_ok: "wal_header (wal_example_head @ r) = Some wal_example_header"
proof -
  have "parseHeader wal_example_head = Inr wal_example_header"
    by (simp add: wal_example_head_def parseHeader_def rd32_def get_be_def bslice_def magicBE_def magicLE_def
        wal_example_header_def)
  moreover have "headerChecksum wal_example_head wal_example_header = (0x157b20a3, 0xbbf83438)"
    by (simp add: wal_example_head_def headerChecksum_def checksum_step rd32_def get_be_def)
  ultimately show ?thesis by (simp add: wal_header_def) (simp add: wal_example_header_def)
qed

lemma wal_example_next1:
  "next_frame wal_example_header (wal_example_frame1 @ r) (0x157b20a3, 0xbbf83438) =
   Some (\<lparr>fPageNo = 1, fDBSize = 0, fData = [9, 9, 9, 9, 9, 9, 9, 9], fCommitted = False\<rparr>, 0x67e7e6f9, 0xfe5c7916)"
  by (simp add: wal_example_frame1_def next_frame_def checksum_step rd32_def get_be_def frameHdrSize_def frameChecksum_def bslice_def)

lemma wal_example_next2:
  "next_frame wal_example_header wal_example_frame2 (0x67e7e6f9, 0xfe5c7916) =
   Some (\<lparr>fPageNo = 2, fDBSize = 2, fData = [7, 7, 7, 7, 7, 7, 7, 7], fCommitted = False\<rparr>, 0xd1ec4041, 0x3d942071)"
  by (simp add: wal_example_frame2_def next_frame_def checksum_step rd32_def get_be_def frameHdrSize_def frameChecksum_def bslice_def)

lemma wal_example_committed:
  "wal_committed wal_example_header (wal_example_head @ wal_example_frame1) = []"
  "map fPageNo (frames_of (wal_committed wal_example_header (wal_example_head @ wal_example_frame1 @ wal_example_frame2))) = [1, 2]"
proof -
  show "wal_committed wal_example_header (wal_example_head @ wal_example_frame1) = []"
    using wal_example_next1 [of "[]"] by (simp add: wal_committed_def wal_valid_def)
  have "(length (wal_example_head @ wal_example_frame1 @ wal_example_frame2) - walHeaderSize) div frameSize wal_example_header
      = Suc (Suc 0)" by simp
  then have "wal_valid wal_example_header (wal_example_head @ wal_example_frame1 @ wal_example_frame2)
      = valid_frames wal_example_header (Suc (Suc 0)) (wal_example_frame1 @ wal_example_frame2) (0x157b20a3, 0xbbf83438)"
    unfolding wal_valid_def by (simp only:) simp
  then show "map fPageNo (frames_of (wal_committed wal_example_header (wal_example_head @ wal_example_frame1 @ wal_example_frame2))) = [1, 2]"
    by (simp add: wal_committed_def wal_example_next1 wal_example_next2 frames_of_def mark_committed_def)
qed

definition env_of :: "bytes \<Rightarrow> poll_env" where
  "env_of b = \<lparr>osStat = (\<lambda>_. Some 1), osOpen = (\<lambda>_. Inr 1), heldStat = True, fileSize = (\<lambda>_. Some (length b)),
     headBytes = (\<lambda>_. Some b), tailBytes = (\<lambda>_. Some b)\<rparr>"

lemma env_of_shows: "shows_wal path (env_of b) b"
  by (simp add: shows_wal_def env_of_def)

theorem polling_is_read_witness:
  "map fPageNo (snd (poll_all NewCursor ''w'' [env_of (wal_example_head @ wal_example_frame1),
     env_of (wal_example_head @ wal_example_frame1 @ wal_example_frame2)])) = [1, 2]"
proof -
  let ?b1 = "wal_example_head @ wal_example_frame1"
  let ?b2 = "wal_example_head @ wal_example_frame1 @ wal_example_frame2"
  have k: "successively keeps [?b1, ?b2]"
    by (simp add: keeps_def Let_def wal_example_header_ok wal_example_committed)
  have e: "list_all2 (shows_wal ''w'') [env_of ?b1, env_of ?b2] [?b1, ?b2]"
    by (simp add: env_of_shows)
  from polling_is_read [OF wal_example_header_ok k e]
    Read_spec [OF wal_example_header_ok [of "wal_example_frame1 @ wal_example_frame2"]] wal_example_committed(2)
  show ?thesis by (auto simp del: poll_all.simps)
qed

text \<open>C19: a poll that finds another WAL generation (a rotated salt) or a file shorter than what it has
  consumed reports the checkpoint and restarts: it delivers all committed frames of the file as it is now, as a one-shot
  \<open>Read\<close> returns them.\<close>

theorem poll_checkpoint_restarts:
  assumes "shows_wal path env b" "wal_header b = Some h"
    and "haveSalt c \<and> (salt1 c \<noteq> wSalt1 h \<or> salt2 c \<noteq> wSalt2 h) \<or> length b < walHeaderSize + frameIdx c * frameSize h"
  shows "\<exists>c' res e snap e'. Poll c path env = (c', res, e) \<and> pCheckpoint res
    \<and> Read (Inr b) = Inr (snap, e') \<and> pNewCommitted res = sFrames snap \<and> frameIdx c' = length (sFrames snap)"
proof -
  from Poll_shows [OF assms(1,2)] obtain i k where
    p: "Poll c path env = poll_frames (c\<lparr>cfile := i, cpath := path, bytesRead := k\<rparr>) h (wal_start h) (length b) (Some b)"
    by blast
  define c1 where "c1 = c\<lparr>frameIdx := 0, haveSalt := True, salt1 := wSalt1 h, salt2 := wSalt2 h, cksum1 := wChecksum1 h,
     cksum2 := wChecksum2 h, haveCksum := True, cfile := i, cpath := path, bytesRead := k\<rparr>"
  have r: "poll_restart (c\<lparr>cfile := i, cpath := path, bytesRead := k\<rparr>) h (wal_start h) (length b) = (c1, True)"
    using assms(3) by (auto simp: poll_restart_def c1_def wal_start_def intro!: Cursor.equality)
  have s: "synced c1 h b" "haveCksum c1" "walHeaderSize + frameIdx c1 * frameSize h \<le> length b"
    using wal_header_length [OF assms(2)] by (simp_all add: synced_def c1_def wal_start_def)
  have "frameIdx c1 = 0" by (simp add: c1_def)
  with poll_read_spec [OF s, of True] Read_spec [OF assms(2)] show ?thesis
    unfolding p poll_frames_def r by auto
qed

theorem poll_checkpoint_restarts_witness:
  "\<exists>c' res e. Poll (NewCursor\<lparr>haveSalt := True\<rparr>) ''w'' (env_of (wal_example_head @ wal_example_frame1 @ wal_example_frame2))
     = (c', res, e) \<and> pCheckpoint res \<and> map fPageNo (pNewCommitted res) = [1, 2]"
proof -
  have r: "haveSalt (NewCursor\<lparr>haveSalt := True\<rparr>) \<and> salt1 (NewCursor\<lparr>haveSalt := True\<rparr>) \<noteq> wSalt1 wal_example_header"
    by (simp add: NewCursor_def)
  from poll_checkpoint_restarts [OF env_of_shows wal_example_header_ok] r
    Read_spec [OF wal_example_header_ok [of "wal_example_frame1 @ wal_example_frame2"]] wal_example_committed(2)
  show ?thesis by (metis (no_types, lifting) Inr_inject Pair_inject)
qed

end
