(* ===== verification/Chain.thy ===== *)
theory Chain imports PageMap "HOL-Library.Product_Lexorder"
begin

text \<open>Choice of the chain to restore from, package \<open>restore\<close> (\<open>chain.go\<close>): the newest complete snapshot with an exact,
  contiguous delta suffix, leaving out what fenced writers left behind.

  Chains are lists of indices into the segment list, as in the code. The Go maps of \<open>selectChain\<close> are association
  lists or filters over the kept indices; the code reads them only by key or in sorted key order.\<close>

subsection \<open>Chain selection\<close>

datatype chain_error =
    InvalidMarker | ConflictingMarkers u64 | NoSnapshot | IncompleteSet u64 u64 | InvalidRange u64 u64
  | NonContiguous u64 u64

fun marker_cuts :: "Header list \<Rightarrow> (u64 \<times> u64) list \<Rightarrow> chain_error + (u64 \<times> u64) list" where
  "marker_cuts [] cuts = Inr cuts"
| "marker_cuts (h # hs) cuts =
     (if HKind h = KindMarker then
        (if StartTxID h = 0 \<or> StartTxID h - 1 \<noteq> EndTxID h then Inl InvalidMarker
         else
           (case map_of cuts (Epoch h) of
              Some prev \<Rightarrow> if prev \<noteq> EndTxID h then Inl (ConflictingMarkers (Epoch h)) else marker_cuts hs cuts
            | None \<Rightarrow> marker_cuts hs ((Epoch h, EndTxID h) # cuts)))
      else marker_cuts hs cuts)"

definition truncated :: "(u64 \<times> u64) list \<Rightarrow> Header \<Rightarrow> bool" where
  "truncated cuts h \<longleftrightarrow> (\<exists>(e, c) \<in> set cuts. e > Epoch h \<and> EndTxID h > c)"

definition keep_of :: "Header list \<Rightarrow> (u64 \<times> u64) list \<Rightarrow> nat list" where
  "keep_of headers cuts = filter (\<lambda>i. \<not> truncated cuts (headers ! i)) [0..<length headers]"

definition snapshots_of :: "Header list \<Rightarrow> nat list \<Rightarrow> nat list" where
  "snapshots_of headers keep = filter (\<lambda>i. HKind (headers ! i) = KindSnapshot) keep"

definition bases_of :: "Header list \<Rightarrow> nat list \<Rightarrow> u64 list" where
  "bases_of headers keep = rev (sort (remdups (map (\<lambda>i. StartTxID (headers ! i)) (snapshots_of headers keep))))"

definition epochs_of :: "Header list \<Rightarrow> nat list \<Rightarrow> u64 \<Rightarrow> u64 list" where
  "epochs_of headers keep base =
     rev (sort (remdups (map (\<lambda>i. Epoch (headers ! i))
       (filter (\<lambda>i. StartTxID (headers ! i) = base) (snapshots_of headers keep)))))"

definition set_of :: "Header list \<Rightarrow> nat list \<Rightarrow> u64 \<Rightarrow> u64 \<Rightarrow> nat list" where
  "set_of headers keep epoch base =
     filter (\<lambda>i. Epoch (headers ! i) = epoch \<and> StartTxID (headers ! i) = base) (snapshots_of headers keep)"

text \<open>The loop of \<open>completeSnapshotSet\<close> over the variables \<open>parts\<close>, \<open>pagedSeen\<close>, \<open>unpaged\<close> and \<open>crc\<close>; \<open>None\<close> is an
  early \<open>return false\<close>.\<close>

fun complete_loop :: "Header list \<Rightarrow> nat list \<Rightarrow> nat list \<times> bool \<times> nat \<times> u32 \<Rightarrow> (nat list \<times> bool \<times> nat \<times> u32) option" where
  "complete_loop headers [] st = Some st"
| "complete_loop headers (i # idx) (parts, pagedSeen, unpaged, crc) =
     (let h = headers ! i; (part, paged) = SnapshotPart h
      in if \<not> paged then
           (if unpaged + 1 > 1 \<and> CRC h \<noteq> crc then None
            else complete_loop headers idx (parts, pagedSeen, unpaged + 1, CRC h))
         else if part \<in> set parts then None
         else complete_loop headers idx (part # parts, True, unpaged, crc))"

definition completeSnapshotSet :: "Header list \<Rightarrow> nat list \<Rightarrow> bool" where
  "completeSnapshotSet headers idx =
     (if idx = [] then False
      else
        (case complete_loop headers idx ([], False, 0, 0) of
           None \<Rightarrow> False
         | Some (parts, pagedSeen, unpaged, crc) \<Rightarrow>
             if unpaged > 0 then \<not> pagedSeen
             else if \<not> pagedSeen then False
             else (\<forall>i \<in> set [0..<length parts]. i \<in> set parts)))"

definition tail_of :: "Header list \<Rightarrow> nat list \<Rightarrow> u64 \<Rightarrow> nat list" where
  "tail_of headers keep base =
     sort_key (\<lambda>i. (StartTxID (headers ! i), EndTxID (headers ! i)))
       (filter (\<lambda>i. HKind (headers ! i) = KindDelta \<and> EndTxID (headers ! i) > base) keep)"

fun contiguous :: "Header list \<Rightarrow> u64 \<Rightarrow> nat list \<Rightarrow> chain_error + u64" where
  "contiguous headers expected [] = Inr expected"
| "contiguous headers expected (i # tail) =
     (let h = headers ! i
      in if EndTxID h < StartTxID h then Inl (InvalidRange (StartTxID h) (EndTxID h))
         else if StartTxID h \<noteq> expected then Inl (NonContiguous expected (StartTxID h))
         else contiguous headers (EndTxID h + 1) tail)"

text \<open>One round of the loop over bases and epochs.\<close>

definition try_candidate :: "Header list \<Rightarrow> nat list \<Rightarrow> u64 \<times> u64 \<Rightarrow> chain_error + (nat list \<times> nat list \<times> u64)" where
  "try_candidate headers keep be =
     (let (base, epoch) = be; snap = set_of headers keep epoch base
      in if \<not> completeSnapshotSet headers snap then Inl (IncompleteSet base epoch)
         else
           (let snap' = sort_key (\<lambda>i. fst (SnapshotPart (headers ! i))) snap;
                tail = tail_of headers keep base
            in rbind (contiguous headers (base + 1) tail) (\<lambda>expected. Inr (snap', tail, expected - 1))))"

fun try_candidates ::
  "Header list \<Rightarrow> nat list \<Rightarrow> (u64 \<times> u64) list \<Rightarrow> chain_error option \<Rightarrow> chain_error option + (nat list \<times> nat list \<times> u64)" where
  "try_candidates headers keep [] firstErr = Inl firstErr"
| "try_candidates headers keep (be # bes) firstErr =
     (case try_candidate headers keep be of
        Inr r \<Rightarrow> Inr r
      | Inl e \<Rightarrow> try_candidates headers keep bes (if firstErr = None then Some e else firstErr))"

definition candidates :: "Header list \<Rightarrow> nat list \<Rightarrow> (u64 \<times> u64) list" where
  "candidates headers keep = concat (map (\<lambda>b. map (\<lambda>e. (b, e)) (epochs_of headers keep b)) (bases_of headers keep))"

text \<open>The final \<open>return nil, nil, 0, firstErr\<close> is a success with no snapshot if no error was recorded; that cannot happen
  (\<open>selectChain_no_empty\<close> below).\<close>

definition selectChain :: "Header list \<Rightarrow> chain_error + (nat list \<times> nat list \<times> u64)" where
  "selectChain headers =
     rbind (marker_cuts headers []) (\<lambda>cuts.
       (let keep = keep_of headers cuts
        in if bases_of headers keep = [] then Inl NoSnapshot
           else
             (case try_candidates headers keep (candidates headers keep) None of
                Inr r \<Rightarrow> Inr r
              | Inl (Some e) \<Rightarrow> Inl e
              | Inl None \<Rightarrow> Inr ([], [], 0))))"

subsection \<open>Markers and kept segments\<close>

definition fenced :: "Header list \<Rightarrow> Header \<Rightarrow> bool" where
  "fenced hs h \<longleftrightarrow> (\<exists>m\<in>set hs. HKind m = KindMarker \<and> Epoch m > Epoch h \<and> EndTxID h > EndTxID m)"

lemma marker_cuts_set:
  "marker_cuts hs cuts = Inr cs \<Longrightarrow> set cs = set cuts \<union> {(Epoch m, EndTxID m) |m. m \<in> set hs \<and> HKind m = KindMarker}"
proof (induction hs cuts rule: marker_cuts.induct)
  case (2 h hs cuts)
  then show ?case by (auto split: if_splits option.splits dest: map_of_SomeD)
qed simp

lemma keep_iff:
  assumes "marker_cuts hs [] = Inr cuts"
  shows "i \<in> set (keep_of hs cuts) \<longleftrightarrow> i < length hs \<and> \<not> fenced hs (hs ! i)"
  using marker_cuts_set [OF assms] by (auto simp: keep_of_def truncated_def fenced_def)

lemma keep_distinct: "distinct (keep_of hs cuts)"
  by (simp add: keep_of_def)

subsection \<open>Snapshot sets\<close>

abbreviation part_no :: "Header list \<Rightarrow> nat \<Rightarrow> nat" where "part_no hs i \<equiv> fst (SnapshotPart (hs ! i))"
abbreviation is_paged :: "Header list \<Rightarrow> nat \<Rightarrow> bool" where "is_paged hs i \<equiv> snd (SnapshotPart (hs ! i))"

text \<open>A complete set: copies of one unpaged snapshot, or paged parts numbered 0 to N - 1, each once.\<close>

definition complete_set :: "Header list \<Rightarrow> nat list \<Rightarrow> bool" where
  "complete_set hs idx \<longleftrightarrow> idx \<noteq> [] \<and>
     ((\<forall>i\<in>set idx. \<not> is_paged hs i) \<and> (\<forall>i\<in>set idx. CRC (hs ! i) = CRC (hs ! hd idx))
      \<or> (\<forall>i\<in>set idx. is_paged hs i) \<and> distinct (map (part_no hs) idx) \<and> set (map (part_no hs) idx) = {0..<length idx})"

fun ck_last :: "Header list \<Rightarrow> nat list \<Rightarrow> u32 \<Rightarrow> u32" where
  "ck_last hs [] crc = crc"
| "ck_last hs (i # idx) crc = ck_last hs idx (if is_paged hs i then crc else CRC (hs ! i))"

definition set_ok :: "Header list \<Rightarrow> nat list \<Rightarrow> nat list \<Rightarrow> nat \<Rightarrow> u32 \<Rightarrow> bool" where
  "set_ok hs idx parts u crc \<longleftrightarrow>
     (let pg = filter (is_paged hs) idx; up = filter (\<lambda>i. \<not> is_paged hs i) idx
      in distinct (map (part_no hs) pg) \<and> set (map (part_no hs) pg) \<inter> set parts = {}
         \<and> (\<forall>i\<in>set up. CRC (hs ! i) = (if u > 0 then crc else CRC (hs ! hd up))))"

lemma set_ok_Cons:
  "set_ok hs (i # idx) parts u crc \<longleftrightarrow>
     (if is_paged hs i then part_no hs i \<notin> set parts \<and> set_ok hs idx (part_no hs i # parts) u crc
      else (u > 0 \<longrightarrow> CRC (hs ! i) = crc) \<and> set_ok hs idx parts (u + 1) (CRC (hs ! i)))"
  by (auto simp: set_ok_def Let_def)

lemma complete_loop_spec:
  "complete_loop hs idx (parts, ps, u, crc) =
     (if set_ok hs idx parts u crc then
        Some (rev (map (part_no hs) (filter (is_paged hs) idx)) @ parts, ps \<or> filter (is_paged hs) idx \<noteq> [],
              u + length (filter (\<lambda>i. \<not> is_paged hs i) idx),
              ck_last hs idx crc)
      else None)"
proof (induction hs idx "(parts, ps, u, crc)" arbitrary: parts ps u crc rule: complete_loop.induct)
  case (1 hs)
  then show ?case by (simp add: set_ok_def)
next
  case (2 hs i idx parts ps u crc)
  obtain p g where sp: "SnapshotPart (hs ! i) = (p, g)" by fastforce
  show ?case
  proof (cases g)
    case True
    then show ?thesis using 2(2) [OF refl sp [symmetric]] sp by (simp add: set_ok_Cons)
  next
    case False
    then show ?thesis using 2(1) [OF refl sp [symmetric]] sp by (cases "u = 0") (auto simp: set_ok_Cons Let_def)
  qed
qed

lemma filter_none: "filter P xs = [] \<longleftrightarrow> (\<forall>x\<in>set xs. \<not> P x)"
  by (auto simp: filter_empty_conv)

lemma parts_full:
  assumes "distinct (xs :: nat list)"
  shows "(\<forall>i<length xs. i \<in> set xs) \<longleftrightarrow> set xs = {0..<length xs}"
proof
  assume "\<forall>i<length xs. i \<in> set xs"
  then have "{0..<length xs} \<subseteq> set xs" by auto
  moreover have "card (set xs) = card {0..<length xs}" using assms by (simp add: distinct_card)
  ultimately show "set xs = {0..<length xs}" by (metis card_subset_eq finite_set)
qed auto

lemma completeSnapshotSet_iff: "completeSnapshotSet hs idx \<longleftrightarrow> complete_set hs idx"
proof -
  let ?pg = "filter (is_paged hs) idx" and ?up = "filter (\<lambda>i. \<not> is_paged hs i) idx"
  have all_up: "?pg = [] \<longleftrightarrow> (\<forall>i\<in>set idx. \<not> is_paged hs i)" and all_pg: "?up = [] \<longleftrightarrow> (\<forall>i\<in>set idx. is_paged hs i)"
    by (auto simp: filter_empty_conv)
  have eq: "completeSnapshotSet hs idx \<longleftrightarrow> idx \<noteq> [] \<and> set_ok hs idx [] 0 0 \<and>
     (if ?up \<noteq> [] then ?pg = [] else ?pg \<noteq> [] \<and> (\<forall>i<length ?pg. i \<in> set (map (part_no hs) ?pg)))"
    unfolding completeSnapshotSet_def complete_loop_spec by auto
  show ?thesis
  proof (cases "?up = []")
    case True
    then have pg: "?pg = idx" using all_pg by simp
    have "set_ok hs idx [] 0 0 \<longleftrightarrow> distinct (map (part_no hs) idx)" using True pg by (simp add: set_ok_def Let_def)
    then show ?thesis
      using eq True pg all_pg parts_full [of "map (part_no hs) idx"] by (cases "idx = []") (auto simp: complete_set_def)
  next
    case False
    show ?thesis
    proof (cases "?pg = []")
      case True
      then have up: "?up = idx" using all_up by simp
      have "set_ok hs idx [] 0 0 \<longleftrightarrow> (\<forall>i\<in>set idx. CRC (hs ! i) = CRC (hs ! hd idx))"
        using True up by (simp add: set_ok_def Let_def)
      then show ?thesis using eq False True all_up by (cases "idx = []") (auto simp: complete_set_def)
    next
      case False': False
      then show ?thesis using eq False all_up all_pg by (auto simp: complete_set_def)
    qed
  qed
qed


subsection \<open>The delta suffix\<close>

lemma tail_set: "i \<in> set (tail_of hs keep base) \<longleftrightarrow> i \<in> set keep \<and> HKind (hs ! i) = KindDelta \<and> EndTxID (hs ! i) > base"
  by (auto simp: tail_of_def)

lemma tail_sorted: "sorted (map (\<lambda>i. StartTxID (hs ! i)) (tail_of hs keep base))"
proof -
  have "sorted (map (\<lambda>i. (StartTxID (hs ! i), EndTxID (hs ! i))) (tail_of hs keep base))"
    by (simp add: tail_of_def)
  then have "sorted_wrt (\<lambda>i j. (StartTxID (hs ! i), EndTxID (hs ! i)) \<le> (StartTxID (hs ! j), EndTxID (hs ! j))) (tail_of hs keep base)"
    by (simp add: sorted_map)
  then show ?thesis unfolding sorted_map by (rule sorted_wrt_mono_rel [rotated]) (auto simp: less_eq_prod_def)
qed

text \<open>A gapless run of transaction ranges from \<open>e\<close>.\<close>

fun gapless :: "Header list \<Rightarrow> u64 \<Rightarrow> nat list \<Rightarrow> bool" where
  "gapless hs e [] = True"
| "gapless hs e (i # is) = (StartTxID (hs ! i) = e \<and> StartTxID (hs ! i) \<le> EndTxID (hs ! i) \<and> gapless hs (EndTxID (hs ! i) + 1) is)"

lemma contiguous_iff:
  "contiguous hs e tail = Inr e' \<longleftrightarrow> gapless hs e tail \<and> e' = (if tail = [] then e else EndTxID (hs ! last tail) + 1)"
  by (induction hs e tail rule: contiguous.induct) (auto simp: Let_def not_less)

lemma gapless_max:
  assumes "gapless hs e tail" "sorted (map (\<lambda>i. StartTxID (hs ! i)) tail)" "e \<noteq> 0" "i \<in> set tail"
  shows "EndTxID (hs ! i) \<le> EndTxID (hs ! last tail)"
  using assms
proof (induction hs e tail arbitrary: i rule: gapless.induct)
  case (2 hs e k ks)
  show ?case
  proof (cases ks)
    case Nil
    then show ?thesis using 2(5) by simp
  next
    case (Cons j js)
    let ?e = "EndTxID (hs ! k) + 1"
    have j: "StartTxID (hs ! j) = ?e" "StartTxID (hs ! k) \<le> StartTxID (hs ! j)" "e = StartTxID (hs ! k)"
      "StartTxID (hs ! j) \<le> EndTxID (hs ! j)" using 2(2,3) Cons by auto
    then have nz: "?e \<noteq> 0" using 2(4) by (metis word_le_0_iff)
    have IH: "EndTxID (hs ! i') \<le> EndTxID (hs ! last ks)" if "i' \<in> set ks" for i'
      using 2(1) [OF _ _ nz that] 2(2,3) by simp
    have "EndTxID (hs ! k) \<le> ?e" using nz unatSuc [of "EndTxID (hs ! k)"] by (simp add: word_le_nat_alt add.commute)
    also have "?e \<le> EndTxID (hs ! j)" using j by simp
    also have "\<dots> \<le> EndTxID (hs ! last ks)" using IH Cons by simp
    finally show ?thesis using IH 2(5) Cons by auto
  qed
qed simp

subsection \<open>Candidates\<close>

lemma snapshots_of_set [simp]: "i \<in> set (snapshots_of hs keep) \<longleftrightarrow> i \<in> set keep \<and> HKind (hs ! i) = KindSnapshot"
  by (auto simp: snapshots_of_def)

lemma candidates_iff:
  "(b, e) \<in> set (candidates hs keep) \<longleftrightarrow>
     (\<exists>i\<in>set keep. HKind (hs ! i) = KindSnapshot \<and> StartTxID (hs ! i) = b \<and> Epoch (hs ! i) = e)"
  by (fastforce simp: candidates_def bases_of_def epochs_of_def)

lemma rev_sort_remdups: "sorted_wrt (>) (rev (sort (remdups xs)))" for xs :: "'a :: linorder list"
proof -
  have "sorted (sort (remdups xs))" "distinct (sort (remdups xs))" by simp_all
  then have "sorted_wrt (<) (sort (remdups xs))" by (simp add: strict_sorted_iff)
  then show ?thesis by (simp add: sorted_wrt_rev)
qed

lemma sorted_pairs:
  assumes "sorted_wrt (>) bs" "\<And>b. sorted_wrt (>) (f b)"
  shows "sorted_wrt (>) (concat (map (\<lambda>b. map (\<lambda>e. (b, e)) (f b)) (bs :: u64 list)) :: (u64 \<times> u64) list)"
  using assms(1)
proof (induction bs)
  case (Cons b bs)
  have "sorted_wrt (>) (map (\<lambda>e. (b, e)) (f b))"
    unfolding sorted_wrt_map using assms(2) [of b] by (rule sorted_wrt_mono_rel [rotated]) (simp add: less_prod_def)
  with Cons show ?case by (auto simp: sorted_wrt_append less_prod_def)
qed simp

lemma candidates_sorted: "sorted_wrt (>) (candidates hs keep)"
  unfolding candidates_def by (rule sorted_pairs) (simp_all only: bases_of_def epochs_of_def rev_sort_remdups)

lemma try_candidates_Inr:
  "try_candidates hs keep bes fe = Inr r \<Longrightarrow>
     \<exists>pre be post. bes = pre @ be # post \<and> try_candidate hs keep be = Inr r \<and> (\<forall>b\<in>set pre. \<exists>e. try_candidate hs keep b = Inl e)"
proof (induction bes arbitrary: fe)
  case (Cons be bes)
  show ?case
  proof (cases "try_candidate hs keep be")
    case (Inl e)
    with Cons.prems have "try_candidates hs keep bes (if fe = None then Some e else fe) = Inr r" by simp
    from Cons.IH [OF this] obtain pre be' post where "bes = pre @ be' # post" "try_candidate hs keep be' = Inr r"
      "\<forall>b\<in>set pre. \<exists>e. try_candidate hs keep b = Inl e" by blast
    with Inl show ?thesis by (intro exI [of _ "be # pre"] exI [of _ be'] exI [of _ post]) simp
  next
    case (Inr x)
    with Cons.prems show ?thesis by (intro exI [of _ "[]"] exI [of _ be] exI [of _ bes]) simp
  qed
qed simp

lemma try_candidates_Inl:
  "try_candidates hs keep bes fe = Inl x \<Longrightarrow>
     (\<forall>b\<in>set bes. \<exists>e. try_candidate hs keep b = Inl e) \<and> (bes \<noteq> [] \<or> fe \<noteq> None \<longrightarrow> x \<noteq> None)"
  by (induction bes arbitrary: fe) (auto split: sum.splits if_splits)

lemma candidates_Nil: "bases_of hs keep \<noteq> [] \<Longrightarrow> candidates hs keep \<noteq> []"
proof -
  assume "bases_of hs keep \<noteq> []"
  then have "snapshots_of hs keep \<noteq> []" by (auto simp: bases_of_def)
  then obtain i where "i \<in> set (snapshots_of hs keep)" by (cases "snapshots_of hs keep") auto
  then have "(StartTxID (hs ! i), Epoch (hs ! i)) \<in> set (candidates hs keep)" by (auto simp: candidates_iff)
  then show ?thesis by auto
qed

lemma selectChain_Inr:
  assumes "selectChain hs = Inr r"
  shows "\<exists>cuts be pre post. marker_cuts hs [] = Inr cuts \<and> candidates hs (keep_of hs cuts) = pre @ be # post
    \<and> try_candidate hs (keep_of hs cuts) be = Inr r \<and> (\<forall>b\<in>set pre. \<exists>e. try_candidate hs (keep_of hs cuts) b = Inl e)"
proof -
  from assms obtain cuts where c: "marker_cuts hs [] = Inr cuts" and b: "bases_of hs (keep_of hs cuts) \<noteq> []"
    by (auto simp: selectChain_def rbind_eq_Inr_iff Let_def split: if_splits)
  let ?t = "try_candidates hs (keep_of hs cuts) (candidates hs (keep_of hs cuts)) None"
  have "?t = Inr r"
  proof (cases ?t)
    case (Inl x)
    then show ?thesis using assms try_candidates_Inl [OF Inl] candidates_Nil [OF b]
      by (auto simp: selectChain_def c b split: option.splits)
  next
    case (Inr x)
    then show ?thesis using assms by (simp add: selectChain_def c b)
  qed
  with c show ?thesis using try_candidates_Inr by blast
qed

definition chain_example :: "Header list" where
  "chain_example =
     (let h = (\<lambda>k e a b. \<lparr>Version = 1, HKind = k, Flags = 0, Epoch = e, StartTxID = a, EndTxID = b, Length = 0, CRC = 0\<rparr>)
      in [h KindSnapshot 1 10 10, h KindDelta 1 11 12, h KindDelta 1 13 15, h KindMarker 2 13 12, h KindDelta 2 13 14])"

lemma chain_example_selects: "selectChain chain_example = Inr ([0], [1, 4], 14)"
  unfolding chain_example_def by code_simp

lemma complete_set_perm:
  assumes "set ys = set xs" "distinct xs" "distinct ys" "complete_set hs xs"
  shows "complete_set hs ys"
proof -
  have l: "length ys = length xs" using assms(1-3) by (metis distinct_card)
  have ne: "ys \<noteq> []" using assms by (auto simp: complete_set_def)
  have h: "hd ys \<in> set xs" using ne assms(1) hd_in_set by metis
  from assms(4) consider
      "\<forall>i\<in>set xs. \<not> is_paged hs i" "\<forall>i\<in>set xs. CRC (hs ! i) = CRC (hs ! hd xs)"
    | "\<forall>i\<in>set xs. is_paged hs i" "inj_on (part_no hs) (set xs)" "part_no hs ` set xs = {0..<length xs}"
    by (auto simp: complete_set_def distinct_map)
  then show ?thesis
  proof cases
    case 1
    then show ?thesis using ne h assms(1) by (simp add: complete_set_def)
  next
    case 2
    then show ?thesis using ne l assms(1,3) by (simp add: complete_set_def distinct_map)
  qed
qed

lemma set_of_set: "i \<in> set (set_of hs keep epoch base) \<longleftrightarrow>
    i \<in> set keep \<and> HKind (hs ! i) = KindSnapshot \<and> Epoch (hs ! i) = epoch \<and> StartTxID (hs ! i) = base"
  by (auto simp: set_of_def)

lemma try_candidate_Inr:
  assumes "try_candidate hs keep (base, epoch) = Inr (snaps, deltas, wm)" "distinct keep"
  shows "complete_set hs snaps" "set snaps = set (set_of hs keep epoch base)" "sorted (map (part_no hs) snaps)"
    and "deltas = tail_of hs keep base" "gapless hs (base + 1) deltas"
    and "wm = (if deltas = [] then base else EndTxID (hs ! last deltas))"
proof -
  have d: "distinct (set_of hs keep epoch base)" using assms(2) by (simp add: set_of_def snapshots_of_def)
  from assms(1) obtain e where c: "complete_set hs (set_of hs keep epoch base)"
    and s: "snaps = sort_key (part_no hs) (set_of hs keep epoch base)" and t: "deltas = tail_of hs keep base"
    and e: "contiguous hs (base + 1) deltas = Inr e" "wm = e - 1"
    by (auto simp: try_candidate_def completeSnapshotSet_iff Let_def rbind_eq_Inr_iff split: if_splits)
  show "complete_set hs snaps" using complete_set_perm [OF _ d _ c, of snaps] d by (simp add: s)
  show "set snaps = set (set_of hs keep epoch base)" "sorted (map (part_no hs) snaps)" by (simp_all add: s)
  show "deltas = tail_of hs keep base" by (rule t)
  show "gapless hs (base + 1) deltas" "wm = (if deltas = [] then base else EndTxID (hs ! last deltas))"
    using e by (auto simp: contiguous_iff)
qed

lemma tail_within_watermark:
  assumes "deltas = tail_of hs keep base" "gapless hs (base + 1) deltas" "i \<in> set keep" "HKind (hs ! i) = KindDelta"
  shows "EndTxID (hs ! i) \<le> (if deltas = [] then base else EndTxID (hs ! last deltas))"
proof -
  have last_gt: "deltas \<noteq> [] \<Longrightarrow> EndTxID (hs ! last deltas) > base"
    using assms(1) tail_set [of "last deltas" hs keep base] by simp
  show ?thesis
  proof (cases "EndTxID (hs ! i) > base")
    case True
    then have "i \<in> set deltas" using assms by (simp add: tail_set)
    moreover have "base + 1 \<noteq> 0"
    proof
      assume "base + 1 = 0"
      then have "base = - 1" by (simp add: eq_neg_iff_add_eq_0)
      then show False using True by (simp add: not_less [symmetric])
    qed
    ultimately show ?thesis
      using gapless_max [OF assms(2) _ _ \<open>i \<in> set deltas\<close>] tail_sorted [of hs keep base] assms(1) by auto
  next
    case False
    then show ?thesis using last_gt by (auto simp: not_less intro: order_trans less_imp_le)
  qed
qed

text \<open>C7: the chain \<open>selectChain\<close> picks is sound. The snapshots are one complete set of one epoch at one
  transaction id; the deltas start right after it and follow each other without a gap or an overlap; no segment of the chain
  comes from a fenced writer (one whose epoch a later marker cut off below its transactions); and nothing newer is dropped:
  every delta that is not fenced and reaches past the snapshot is in the chain, so the watermark is at least its end.\<close>

theorem select_chain_sound:
  assumes "selectChain hs = Inr (snaps, deltas, wm)"
  shows "\<exists>base epoch. snaps \<noteq> [] \<and> complete_set hs snaps
    \<and> (\<forall>i\<in>set snaps. i < length hs \<and> HKind (hs ! i) = KindSnapshot \<and> StartTxID (hs ! i) = base \<and> Epoch (hs ! i) = epoch)
    \<and> gapless hs (base + 1) deltas \<and> wm = (if deltas = [] then base else EndTxID (hs ! last deltas))
    \<and> (\<forall>i\<in>set snaps \<union> set deltas. \<not> fenced hs (hs ! i))
    \<and> (\<forall>i<length hs. HKind (hs ! i) = KindDelta \<and> \<not> fenced hs (hs ! i) \<longrightarrow>
         (i \<in> set deltas \<longleftrightarrow> EndTxID (hs ! i) > base) \<and> EndTxID (hs ! i) \<le> wm)"
proof -
  from selectChain_Inr [OF assms] obtain cuts base epoch where c: "marker_cuts hs [] = Inr cuts"
    and t: "try_candidate hs (keep_of hs cuts) (base, epoch) = Inr (snaps, deltas, wm)" by fast
  note k = keep_iff [OF c] and r = try_candidate_Inr [OF t keep_distinct]
  have "snaps \<noteq> []" using r(1) by (simp add: complete_set_def)
  moreover have "\<forall>i\<in>set snaps. i < length hs \<and> HKind (hs ! i) = KindSnapshot \<and> StartTxID (hs ! i) = base \<and> Epoch (hs ! i) = epoch"
    unfolding r(2) by (auto simp: set_of_set k)
  moreover have "\<forall>i\<in>set snaps \<union> set deltas. \<not> fenced hs (hs ! i)"
    unfolding r(2) unfolding r(4) by (auto simp: set_of_set tail_set k)
  moreover have "\<forall>i<length hs. HKind (hs ! i) = KindDelta \<and> \<not> fenced hs (hs ! i) \<longrightarrow>
         (i \<in> set deltas \<longleftrightarrow> EndTxID (hs ! i) > base) \<and> EndTxID (hs ! i) \<le> wm"
    using tail_within_watermark [OF r(4,5)] r(4,6) by (auto simp: k tail_set)
  ultimately show ?thesis using r(1,5,6) by blast
qed

theorem select_chain_sound_witness:
  "selectChain chain_example = Inr ([0], [1, 4], 14) \<and> \<not> fenced chain_example (chain_example ! 4)"
  using select_chain_sound [OF chain_example_selects] chain_example_selects by auto

text \<open>C10: \<open>selectChain\<close> uses the newest base it can. Candidates are the (transaction id, epoch) pairs of the
  snapshots that are not fenced. If it succeeds, its result is that of one candidate and every candidate with a greater id, or
  the same id and a greater epoch, is unusable; if it fails on valid markers, every candidate is unusable. It never returns an
  empty chain.\<close>

theorem select_chain_newest:
  assumes "marker_cuts hs [] = Inr cuts"
  shows "case selectChain hs of
      Inr r \<Rightarrow> fst r \<noteq> [] \<and>
        (\<exists>be\<in>set (candidates hs (keep_of hs cuts)). try_candidate hs (keep_of hs cuts) be = Inr r \<and>
           (\<forall>be'\<in>set (candidates hs (keep_of hs cuts)). be' > be \<longrightarrow> (\<exists>e. try_candidate hs (keep_of hs cuts) be' = Inl e)))
    | Inl _ \<Rightarrow> (\<forall>be\<in>set (candidates hs (keep_of hs cuts)). \<exists>e. try_candidate hs (keep_of hs cuts) be = Inl e)"
proof (cases "selectChain hs")
  case (Inl e)
  then have "candidates hs (keep_of hs cuts) = [] \<or>
      (\<exists>x. try_candidates hs (keep_of hs cuts) (candidates hs (keep_of hs cuts)) None = Inl x)"
    by (auto simp: selectChain_def assms candidates_def Let_def split: if_splits sum.splits)
  then show ?thesis using Inl try_candidates_Inl by fastforce
next
  case (Inr r)
  from selectChain_Inr [OF Inr] obtain pre be post where c: "candidates hs (keep_of hs cuts) = pre @ be # post"
    and t: "try_candidate hs (keep_of hs cuts) be = Inr r" "\<forall>b\<in>set pre. \<exists>e. try_candidate hs (keep_of hs cuts) b = Inl e"
    using assms by auto
  have "\<forall>b\<in>set post. be > b" using candidates_sorted [of hs "keep_of hs cuts"] by (simp add: c sorted_wrt_append)
  then have "\<forall>be'\<in>set (candidates hs (keep_of hs cuts)). be' > be \<longrightarrow> be' \<in> set pre" by (auto simp: c)
  moreover obtain b e s d w where "be = (b, e)" "r = (s, d, w)" by (cases be; cases r) auto
  then have "fst r \<noteq> []" using try_candidate_Inr(1) [of hs _ b e s d w] t(1) keep_distinct by (fastforce simp: complete_set_def)
  ultimately show ?thesis using Inr t c by auto
qed

theorem select_chain_newest_witness:
  "marker_cuts chain_example [] = Inr [(2, 12)] \<and>
   (\<exists>be\<in>set (candidates chain_example (keep_of chain_example [(2, 12)])).
      try_candidate chain_example (keep_of chain_example [(2, 12)]) be = Inr ([0], [1, 4], 14))"
proof -
  have m: "marker_cuts chain_example [] = Inr [(2, 12)]" unfolding chain_example_def by code_simp
  from select_chain_newest [OF m] m show ?thesis by (auto simp: chain_example_selects)
qed

end
