(* ===== verification/Restore.thy ===== *)
theory Restore imports Chain
begin

text \<open>Recovery of a database from its segments, package \<open>restore\<close> (\<open>restore.go\<close> and \<open>ValidateChain\<close> of \<open>chain.go\<close>): the
  merge of a chain's pages, the folding of a chain into a new snapshot, and the writing of the database image through a
  temporary file.\<close>

subsection \<open>Decoding\<close>

datatype restore_error =
    DecodeSegment nat ltx_error | Chain chain_error | DecodeSnapshot pm_error | DecodeDelta u64 pm_error
  | PageSizeMismatch | CommitMismatch u32 u32 | ConflictingPage u32 | NoPages | MissingPage u32 u32
  | Snap snap_error | WrongPageLength u32 | FileError | NotDefined u32 | MissingFromPart u32 | DuplicatePage u32
  | PageMapErr pm_error | BadRange u32 u32 | EmptyImage

text \<open>\<open>decode_all\<close> is the decoding loop of \<open>ValidateChain\<close> and \<open>mergeChain\<close>; the header and payload of a segment are
  decoded once here, the code decodes the selected ones again.\<close>

fun decode_all :: "nat \<Rightarrow> bytes list \<Rightarrow> restore_error + (Header \<times> bytes) list" where
  "decode_all i [] = Inr []"
| "decode_all i (s # segments) =
     (case Decode s of
        Inl e \<Rightarrow> Inl (DecodeSegment i e)
      | Inr hp \<Rightarrow> rbind (decode_all (Suc i) segments) (\<lambda>r. Inr (hp # r)))"

definition chain_result :: "chain_error + 'a \<Rightarrow> restore_error + 'a" where
  "chain_result r = (case r of Inl e \<Rightarrow> Inl (Chain e) | Inr x \<Rightarrow> Inr x)"

definition ValidateChain :: "bytes list \<Rightarrow> restore_error + unit" where
  "ValidateChain segments =
     rbind (decode_all 0 segments) (\<lambda>decoded.
     rbind (chain_result (selectChain (map fst decoded))) (\<lambda>_. Inr ()))"

subsection \<open>Merging\<close>

type_synonym page_map = "u32 \<rightharpoonup> bytes"

fun add_snapshot_pages :: "WALPage list \<Rightarrow> page_map \<Rightarrow> restore_error + page_map" where
  "add_snapshot_pages [] m = Inr m"
| "add_snapshot_pages (p # pages) m =
     (case m (WPageNo p) of
        Some existing \<Rightarrow> if existing \<noteq> WData p then Inl (ConflictingPage (WPageNo p)) else add_snapshot_pages pages m
      | None \<Rightarrow> add_snapshot_pages pages (m(WPageNo p \<mapsto> WData p)))"

fun add_snapshots :: "bytes list \<Rightarrow> u32 \<times> u32 \<times> page_map \<Rightarrow> restore_error + u32 \<times> u32 \<times> page_map" where
  "add_snapshots [] st = Inr st"
| "add_snapshots (payload # payloads) (ps0, cm0, m) =
     (case DecodeWALPageMap payload of
        Inl e \<Rightarrow> Inl (DecodeSnapshot e)
      | Inr (ps, c, _, pages) \<Rightarrow>
          if ps0 \<noteq> 0 \<and> ps \<noteq> ps0 then Inl PageSizeMismatch
          else if cm0 \<noteq> 0 \<and> c \<noteq> cm0 then Inl (CommitMismatch c cm0)
          else rbind (add_snapshot_pages pages m) (\<lambda>m'.
                 add_snapshots payloads (if ps0 = 0 then ps else ps0, if cm0 = 0 then c else cm0, m')))"

definition add_delta_pages :: "WALPage list \<Rightarrow> page_map \<Rightarrow> page_map" where
  "add_delta_pages pages m = fold (\<lambda>p m. m(WPageNo p \<mapsto> WData p)) pages m"

fun add_deltas :: "(Header \<times> bytes) list \<Rightarrow> u32 \<times> page_map \<Rightarrow> restore_error + u32 \<times> page_map" where
  "add_deltas [] st = Inr st"
| "add_deltas ((h, payload) # ds) (cm, m) =
     (case DecodeWALPageMap payload of
        Inl e \<Rightarrow> Inl (DecodeDelta (StartTxID h) e)
      | Inr (_, c, _, pages) \<Rightarrow> add_deltas ds (if c > 0 then c else cm, add_delta_pages pages m))"

text \<open>The loop \<open>for pgno := 1; pgno <= commit; pgno++\<close>, on natural numbers: it differs from the 32-bit counter only for
  \<open>commit = 2^32 - 1\<close> with every page present in memory.\<close>

definition collect_pages :: "u32 \<Rightarrow> page_map \<Rightarrow> restore_error + WALPage list" where
  "collect_pages cm m =
     rmap (\<lambda>n. case m (word_of_nat n) of
                 None \<Rightarrow> Inl (MissingPage (word_of_nat n) cm)
               | Some d \<Rightarrow> Inr \<lparr>WPageNo = word_of_nat n, WData = d\<rparr>) [1..<Suc (unat cm)]"

definition first_epoch :: "Header list \<Rightarrow> u64" where
  "first_epoch hs = fold (\<lambda>h e. if e = 0 then Epoch h else e) hs 0"

definition mergeChain :: "bytes list \<Rightarrow> restore_error + (u32 \<times> u32 \<times> u64 \<times> u64 \<times> WALPage list)" where
  "mergeChain segments =
     rbind (decode_all 0 segments) (\<lambda>decoded.
     rbind (chain_result (selectChain (map fst decoded))) (\<lambda>(snapshots, deltas, watermark).
     rbind (add_snapshots (map (\<lambda>i. snd (decoded ! i)) snapshots) (0, 0, Map.empty)) (\<lambda>(ps, cm0, m0).
     rbind (add_deltas (map (\<lambda>i. decoded ! i) deltas) (cm0, m0)) (\<lambda>(cm, m).
       if cm = 0 \<or> ps = 0 then Inl NoPages
       else rbind (collect_pages cm m) (\<lambda>out.
              Inr (ps, cm, first_epoch (map fst decoded), watermark, out))))))"

definition Compact :: "bool \<Rightarrow> bytes list \<Rightarrow> int \<Rightarrow> restore_error + bytes list" where
  "Compact compressionEnabled segments maxPartBytes =
     rbind (mergeChain segments) (\<lambda>(ps, cm, epoch, watermark, pages).
       (let budget = (if maxPartBytes \<le> 0 then DefaultSnapshotPartBytes else maxPartBytes);
            h = \<lparr>Version = 0, HKind = KindSnapshot, Flags = 0, Epoch = epoch, StartTxID = watermark,
                 EndTxID = watermark, Length = 0, CRC = 0\<rparr>
        in case EncodeSnapshotParts compressionEnabled h ps cm pages budget of
             Inl e \<Rightarrow> Inl (Snap e)
           | Inr parts \<Rightarrow> Inr parts))"

subsection \<open>Writing the image\<close>

text \<open>The file system is a map from paths to contents. \<open>faults\<close> says which system call fails (\<open>fWrite\<close> by the number of the
  \<open>WriteAt\<close> call); every failure the code handles is one of them.\<close>

type_synonym filesystem = "string \<rightharpoonup> bytes"

record faults =
  fMkdir :: bool
  fCreate :: bool
  fTruncate :: bool
  fWrite :: "nat \<Rightarrow> bool"
  fSync :: bool
  fChmod :: bool
  fClose :: bool
  fRename :: bool
  fRemove :: bool

record Stats =
  Files :: u64
  SBytes :: u64
  SPages :: u64
  LastSize :: u64
  MaxSize :: u64

definition truncate_file :: "bytes \<Rightarrow> nat \<Rightarrow> bytes" where
  "truncate_file f n = take n f @ replicate (n - length f) 0"

definition write_at :: "bytes \<Rightarrow> nat \<Rightarrow> bytes \<Rightarrow> bytes" where
  "write_at f off d = (let g = f @ replicate (off + length d - length f) 0 in take off g @ d @ drop (off + length d) g)"

definition writeRunBytes :: nat where "writeRunBytes = 2 ^ 20"

text \<open>The variables of the write loop: \<open>run\<close>, \<open>runOff\<close> (\<open>None\<close> for \<open>-1\<close>), \<open>cap(run)\<close>, and the temporary file with the number
  of writes so far. \<open>grow\<close> is the capacity the runtime chooses when \<open>append\<close> needs more room.\<close>

record run_state =
  rRun :: bytes
  rOff :: "nat option"
  rCap :: nat
  rFile :: bytes
  rCount :: nat

definition flush :: "faults \<Rightarrow> run_state \<Rightarrow> run_state + run_state" where
  "flush ft st =
     (if rRun st = [] then Inr st
      else
        (let st' = st\<lparr>rRun := [], rOff := None, rCount := Suc (rCount st)\<rparr>
         in if fWrite ft (rCount st) then Inl st'
            else Inr (st'\<lparr>rFile := write_at (rFile st) (the (rOff st)) (rRun st)\<rparr>)))"

definition page_off :: "u32 \<Rightarrow> WALPage \<Rightarrow> nat" where
  "page_off ps p = (unat (WPageNo p) - 1) * unat ps"

fun write_runs :: "faults \<Rightarrow> (nat \<Rightarrow> nat \<Rightarrow> nat) \<Rightarrow> u32 \<Rightarrow> WALPage list \<Rightarrow> run_state \<Rightarrow> run_state + run_state" where
  "write_runs ft grow ps [] st = flush ft st"
| "write_runs ft grow ps (p # pages) st =
     (let off = page_off ps p;
          st1 = (if rOff st = None then st\<lparr>rOff := Some off\<rparr> else st)
      in rbind (if off \<noteq> the (rOff st1) + length (rRun st1) \<or> length (rRun st1) + length (WData p) > rCap st1
                then rbind (flush ft st1) (\<lambda>st2. Inr (st2\<lparr>rOff := Some off\<rparr>))
                else Inr st1)
           (\<lambda>st3.
              (let n = length (rRun st3) + length (WData p);
                   st4 = st3\<lparr>rRun := rRun st3 @ WData p, rCap := (if n > rCap st3 then grow (rCap st3) n else rCap st3)\<rparr>
               in write_runs ft grow ps pages st4)))"

definition discard :: "faults \<Rightarrow> string \<Rightarrow> bytes \<Rightarrow> filesystem \<Rightarrow> filesystem" where
  "discard ft tmp content fs = (if fRemove ft then fs(tmp \<mapsto> content) else fs(tmp := None))"

definition count_restore :: "u64 \<Rightarrow> u32 \<Rightarrow> Stats \<Rightarrow> Stats" where
  "count_restore imageBytes cm s =
     s\<lparr>Files := Files s + 1, SBytes := SBytes s + imageBytes, SPages := SPages s + ucast cm, LastSize := imageBytes,
       MaxSize := (if imageBytes \<le> MaxSize s then MaxSize s else imageBytes)\<rparr>"

definition ApplyFile ::
  "faults \<Rightarrow> (nat \<Rightarrow> nat \<Rightarrow> nat) \<Rightarrow> string \<Rightarrow> filesystem \<Rightarrow> Stats \<Rightarrow> string \<Rightarrow> bytes list
     \<Rightarrow> filesystem \<times> Stats \<times> (restore_error + u32)" where
  "ApplyFile ft grow tmp fs stats dest segments =
     (case mergeChain segments of
        Inl e \<Rightarrow> (fs, stats, Inl e)
      | Inr (ps, cm, _, _, pages) \<Rightarrow>
          (let imageBytes = unat cm * unat ps
           in case find (\<lambda>p. length (WData p) \<noteq> unat ps) pages of
                Some p \<Rightarrow> (fs, stats, Inl (WrongPageLength (WPageNo p)))
              | None \<Rightarrow>
                  if fMkdir ft \<or> fCreate ft then (fs, stats, Inl FileError)
                  else if fTruncate ft then (discard ft tmp [] fs, stats, Inl FileError)
                  else
                    (case write_runs ft grow ps pages
                            \<lparr>rRun = [], rOff = None, rCap = writeRunBytes, rFile = truncate_file [] imageBytes, rCount = 0\<rparr> of
                       Inl st \<Rightarrow> (discard ft tmp (rFile st) fs, stats, Inl FileError)
                     | Inr st \<Rightarrow>
                         if fSync ft \<or> fChmod ft \<or> fClose ft then (discard ft tmp (rFile st) fs, stats, Inl FileError)
                         else
                           (let fs1 = fs(dest @ ''-wal'' := None, dest @ ''-shm'' := None)
                            in if fRename ft then (discard ft tmp (rFile st) fs1, stats, Inl FileError)
                               else (fs1(dest \<mapsto> rFile st, tmp := None),
                                     count_restore (word_of_nat imageBytes) cm stats, Inr cm)))))"

subsection \<open>Merging as overlaying page maps\<close>

definition payload_pages :: "bytes \<Rightarrow> page_map" where
  "payload_pages payload = (case DecodeWALPageMap payload of Inl _ \<Rightarrow> Map.empty | Inr (_, _, _, pages) \<Rightarrow> page_table pages)"

definition overlay :: "bytes list \<Rightarrow> page_map" where
  "overlay bs = foldl (\<lambda>m p. m ++ payload_pages p) Map.empty bs"

lemma overlay_snoc: "overlay (xs @ [x]) = overlay xs ++ payload_pages x"
  by (simp add: overlay_def)

lemma overlay_from: "foldl (\<lambda>m p. m ++ payload_pages p) m xs = m ++ overlay xs"
  by (induction xs rule: rev_induct) (simp_all add: overlay_def)

lemma overlay_Nil [simp]: "overlay [] = Map.empty"
  by (simp add: overlay_def)

lemma overlay_Cons: "overlay (x # xs) = payload_pages x ++ overlay xs"
  using overlay_from [of "payload_pages x" xs] by (simp add: overlay_def)

lemma page_table_append: "page_table (xs @ ys) = page_table ys ++ page_table xs"
  by (simp add: page_table_def)

lemma page_table_mem: "distinct (map WPageNo pages) \<Longrightarrow> p \<in> set pages \<Longrightarrow> page_table pages (WPageNo p) = Some (WData p)"
  unfolding page_table_def by (rule map_of_is_SomeI) (auto simp: comp_def)

lemma overlay_page:
  assumes "distinct (map WPageNo (p # pages))"
  shows "m(WPageNo p \<mapsto> WData p) ++ page_table pages = m ++ page_table (p # pages)"
proof -
  have "page_table pages (WPageNo p) = None" using assms page_table_dom [of pages] by (auto simp: domIff)
  then show ?thesis by (auto simp: map_add_def fun_eq_iff split: option.split)
qed

lemma add_delta_pages_overlay: "distinct (map WPageNo pages) \<Longrightarrow> add_delta_pages pages m = m ++ page_table pages"
proof (induction pages arbitrary: m)
  case (Cons p pages)
  have "add_delta_pages (p # pages) m = add_delta_pages pages (m(WPageNo p \<mapsto> WData p))"
    by (simp add: add_delta_pages_def)
  also have "\<dots> = m(WPageNo p \<mapsto> WData p) ++ page_table pages" using Cons by (simp only: list.map distinct.simps)
  finally show ?case by (simp only: overlay_page [OF Cons.prems])
qed (simp add: add_delta_pages_def)

lemma add_snapshot_pages_overlay:
  "add_snapshot_pages pages m = Inr m' \<Longrightarrow> distinct (map WPageNo pages) \<Longrightarrow> m' = m ++ page_table pages"
proof (induction pages arbitrary: m)
  case (Cons p pages)
  from Cons.prems(1) have "add_snapshot_pages pages (m(WPageNo p \<mapsto> WData p)) = Inr m'"
    by (cases "m (WPageNo p)") (auto simp: map_upd_triv split: if_splits)
  from Cons.IH [OF this] have "m' = m(WPageNo p \<mapsto> WData p) ++ page_table pages" using Cons.prems(2) by (simp only: list.map distinct.simps)
  then show ?case by (simp only: overlay_page [OF Cons.prems(2)])
qed simp

lemma decode_distinct:
  "DecodeWALPageMap b = Inr (ps, cm, tc, pages) \<Longrightarrow> distinct (map WPageNo pages)"
  unfolding decode_pagemap_of by (drule pagemap_of_wf) (simp add: strict_sorted_iff)

lemma add_snapshots_overlay:
  "add_snapshots bs (ps0, cm0, m) = Inr (ps, cm, m') \<Longrightarrow> m' = m ++ overlay bs"
proof (induction bs arbitrary: ps0 cm0 m)
  case (Cons b bs)
  from Cons.prems obtain p c t pages m1 where d: "DecodeWALPageMap b = Inr (p, c, t, pages)"
    and m1: "add_snapshot_pages pages m = Inr m1"
    and r: "add_snapshots bs (if ps0 = 0 then p else ps0, if cm0 = 0 then c else cm0, m1) = Inr (ps, cm, m')"
    by (auto simp: rbind_eq_Inr_iff split: sum.split_asm if_split_asm)
  have "m1 = m ++ payload_pages b"
    using add_snapshot_pages_overlay [OF m1 decode_distinct [OF d]] d by (simp add: payload_pages_def)
  with Cons.IH [OF r] show ?case by (simp add: overlay_Cons)
qed simp

text \<open>The commit size after the deltas: the last one that is not zero.\<close>

definition payload_commit :: "bytes \<Rightarrow> u32" where
  "payload_commit payload = (case DecodeWALPageMap payload of Inl _ \<Rightarrow> 0 | Inr (_, c, _, _) \<Rightarrow> c)"

definition final_commit :: "bytes list \<Rightarrow> u32 \<Rightarrow> u32" where
  "final_commit bs cm = foldl (\<lambda>cm p. if payload_commit p > 0 then payload_commit p else cm) cm bs"

lemma add_deltas_overlay:
  "add_deltas ds (cm0, m) = Inr (cm, m') \<Longrightarrow> m' = m ++ overlay (map snd ds) \<and> cm = final_commit (map snd ds) cm0"
proof (induction ds arbitrary: cm0 m)
  case (Cons d ds)
  obtain h b where hb: "d = (h, b)" by fastforce
  from Cons.prems obtain p c t pages where d: "DecodeWALPageMap b = Inr (p, c, t, pages)"
    and r: "add_deltas ds (if c > 0 then c else cm0, add_delta_pages pages m) = Inr (cm, m')"
    by (auto simp: hb split: sum.split_asm)
  have "add_delta_pages pages m = m ++ payload_pages b"
    using add_delta_pages_overlay [OF decode_distinct [OF d]] d by (simp add: payload_pages_def)
  with Cons.IH [OF r] d show ?case by (simp add: hb overlay_Cons final_commit_def payload_commit_def)
qed (simp add: final_commit_def)

lemma collect_step:
  assumes "n < 2 ^ 32"
  shows "((case m (word_of_nat n) of None \<Rightarrow> Inl (MissingPage (word_of_nat n) cm)
          | Some d \<Rightarrow> Inr \<lparr>WPageNo = word_of_nat n, WData = d\<rparr>) = Inr p)
    \<longleftrightarrow> unat (WPageNo p) = n \<and> m (WPageNo p) = Some (WData p)"
proof -
  have "unat (WPageNo p) = n \<longleftrightarrow> WPageNo p = word_of_nat n"
    using assms by (auto simp: unat_of_nat)
  then show ?thesis by (cases p) (auto split: option.split)
qed

lemma list_all2_map_eq:
  "list_all2 (\<lambda>x y. f y = x \<and> P y) xs ys \<longleftrightarrow> map f ys = xs \<and> (\<forall>y\<in>set ys. P y)"
  by (induction xs arbitrary: ys) (auto simp: list_all2_Cons1)

lemma collect_pages_iff:
  "collect_pages cm m = Inr out \<longleftrightarrow>
     map (\<lambda>p. unat (WPageNo p)) out = [1..<Suc (unat cm)] \<and> (\<forall>p\<in>set out. m (WPageNo p) = Some (WData p))"
proof -
  have b: "n < 2 ^ 32" if "n \<in> set [1..<Suc (unat cm)]" for n using that unat_bounds(3) [of cm] by auto
  have "collect_pages cm m = Inr out \<longleftrightarrow>
      list_all2 (\<lambda>n p. unat (WPageNo p) = n \<and> m (WPageNo p) = Some (WData p)) [1..<Suc (unat cm)] out"
    unfolding collect_pages_def rmap_eq_Inr_iff list_all2_conv_all_nth
    using collect_step [OF b [OF nth_mem]] by blast
  also have "\<dots> \<longleftrightarrow> map (\<lambda>p. unat (WPageNo p)) out = [1..<Suc (unat cm)] \<and> (\<forall>p\<in>set out. m (WPageNo p) = Some (WData p))"
    by (rule list_all2_map_eq)
  finally show ?thesis .
qed

definition chain_payloads :: "(Header \<times> bytes) list \<Rightarrow> nat list \<Rightarrow> bytes list" where
  "chain_payloads decoded idx = map (\<lambda>i. snd (decoded ! i)) idx"

lemma chain_result_Inr [simp]: "chain_result r = Inr x \<longleftrightarrow> r = Inr x" "chain_result (Inr x) = Inr x"
  by (auto simp: chain_result_def split: sum.split)

lemma mergeChain_Inr:
  assumes "mergeChain segments = Inr (ps, cm, ep, wm, out)"
  obtains decoded snaps deltas cm0 where
    "decode_all 0 segments = Inr decoded" "selectChain (map fst decoded) = Inr (snaps, deltas, wm)"
    "add_snapshots (chain_payloads decoded snaps) (0, 0, Map.empty) = Inr (ps, cm0, overlay (chain_payloads decoded snaps))"
    "cm = final_commit (chain_payloads decoded deltas) cm0" "cm \<noteq> 0" "ps \<noteq> 0" "ep = first_epoch (map fst decoded)"
    "collect_pages cm (overlay (chain_payloads decoded (snaps @ deltas))) = Inr out"
proof -
  from assms obtain decoded snaps deltas cm0 m0 m where
    d: "decode_all 0 segments = Inr decoded" "selectChain (map fst decoded) = Inr (snaps, deltas, wm)"
    and s: "add_snapshots (chain_payloads decoded snaps) (0, 0, Map.empty) = Inr (ps, cm0, m0)"
    and t: "add_deltas (map (\<lambda>i. decoded ! i) deltas) (cm0, m0) = Inr (cm, m)"
    and c: "\<not> (cm = 0 \<or> ps = 0)" "collect_pages cm m = Inr out" "ep = first_epoch (map fst decoded)"
    by (auto simp: mergeChain_def rbind_eq_Inr_iff chain_payloads_def split: if_split_asm)
  have "map snd (map (\<lambda>i. decoded ! i) deltas) = chain_payloads decoded deltas" by (simp add: chain_payloads_def)
  moreover have "overlay (xs @ ys) = overlay xs ++ overlay ys" for xs ys
    using overlay_from [of "overlay xs" ys] by (simp add: overlay_def)
  ultimately show ?thesis
    using that [OF d] s t c add_snapshots_overlay [OF s] add_deltas_overlay [OF t] by (simp add: chain_payloads_def comp_def)
qed

subsection \<open>Folding a chain\<close>

lemma sort_key_upt: "sorted (map f [0..<n]) \<Longrightarrow> sort_key f [0..<n] = [0..<n]"
  by (rule sort_key_id_if_sorted)

lemma remdups_const:
  assumes "0 < n"
  shows "remdups (map (\<lambda>i. c) [0..<n]) = [c]"
proof -
  have "remdups (replicate n c) = [c]" using assms by (induction n) auto
  then show ?thesis by (simp add: map_replicate_const)
qed

text \<open>The headers of one snapshot written in \<open>t\<close> parts.\<close>

definition parts_headers :: "Header list \<Rightarrow> u64 \<Rightarrow> u64 \<Rightarrow> bool" where
  "parts_headers hs ep wm \<longleftrightarrow> hs \<noteq> [] \<and>
     (\<forall>k<length hs. HKind (hs ! k) = KindSnapshot \<and> Epoch (hs ! k) = ep \<and> StartTxID (hs ! k) = wm
        \<and> SnapshotPart (hs ! k) = (if length hs = 1 then (0, False) else (k, True)))"

lemma marker_cuts_none: "\<forall>h\<in>set hs. HKind h = KindSnapshot \<Longrightarrow> marker_cuts hs cuts = Inr cuts"
  by (induction hs) (auto simp: KindSnapshot_def KindMarker_def)

lemma selectChain_parts:
  assumes p: "parts_headers hs ep wm"
  shows "selectChain hs = Inr ([0..<length hs], [], wm)"
proof -
  let ?n = "length hs"
  have n: "0 < ?n" and h: "\<And>k. k < ?n \<Longrightarrow> HKind (hs ! k) = KindSnapshot" "\<And>k. k < ?n \<Longrightarrow> Epoch (hs ! k) = ep"
    "\<And>k. k < ?n \<Longrightarrow> StartTxID (hs ! k) = wm"
    and sp: "\<And>k. k < ?n \<Longrightarrow> SnapshotPart (hs ! k) = (if ?n = 1 then (0, False) else (k, True))"
    using p by (auto simp: parts_headers_def)
  have m: "marker_cuts hs [] = Inr []" using h(1) by (intro marker_cuts_none) (auto simp: in_set_conv_nth)
  have k: "keep_of hs [] = [0..<?n]" by (simp add: keep_of_def truncated_def)
  have s: "snapshots_of hs [0..<?n] = [0..<?n]" using h(1) by (auto simp: snapshots_of_def intro!: filter_True)
  have "map (\<lambda>i. StartTxID (hs ! i)) [0..<?n] = map (\<lambda>i. wm) [0..<?n]" using h(3) by (auto intro!: map_cong)
  then have b: "bases_of hs [0..<?n] = [wm]" using n by (simp only: bases_of_def s remdups_const) simp
  have "filter (\<lambda>i. StartTxID (hs ! i) = wm) [0..<?n] = [0..<?n]" using h(3) by (auto intro!: filter_True)
  moreover have "map (\<lambda>i. Epoch (hs ! i)) [0..<?n] = map (\<lambda>i. ep) [0..<?n]" using h(2) by (auto intro!: map_cong)
  ultimately have e: "epochs_of hs [0..<?n] wm = [ep]" using n by (simp only: epochs_of_def s remdups_const) simp
  have so: "set_of hs [0..<?n] ep wm = [0..<?n]" unfolding set_of_def s using h by (auto intro!: filter_True)
  have t: "tail_of hs [0..<?n] wm = []" using h(1) by (simp add: tail_of_def filter_empty_conv KindSnapshot_def KindDelta_def)
  have parts: "map (part_no hs) [0..<?n] = [0..<?n]"
    using sp n by (auto intro!: map_idI)
  have c: "complete_set hs [0..<?n]"
  proof (cases "?n = 1")
    case True
    then show ?thesis using sp by (simp add: complete_set_def)
  next
    case False
    then show ?thesis using sp n parts by (simp add: complete_set_def)
  qed
  have "try_candidate hs [0..<?n] (wm, ep) = Inr ([0..<?n], [], wm)"
    using c parts by (simp add: try_candidate_def so t completeSnapshotSet_iff sort_key_upt)
  then show ?thesis by (simp add: selectChain_def m k b e candidates_def)
qed

lemma decode_all_iff: "decode_all i segments = Inr ds \<longleftrightarrow> list_all2 (\<lambda>s d. Decode s = Inr d) segments ds"
  by (induction i segments arbitrary: ds rule: decode_all.induct)
     (auto simp: rbind_eq_Inr_iff list_all2_Cons1 split: sum.split)

lemma add_snapshot_pages_new:
  "distinct (map WPageNo pages) \<Longrightarrow> \<forall>p\<in>set pages. m (WPageNo p) = None \<Longrightarrow>
   add_snapshot_pages pages m = Inr (m ++ page_table pages)"
proof (induction pages arbitrary: m)
  case (Cons p pages)
  have "\<forall>q\<in>set pages. (m(WPageNo p \<mapsto> WData p)) (WPageNo q) = None" using Cons.prems by (auto simp: image_iff)
  moreover have "distinct (map WPageNo pages)" "m (WPageNo p) = None" using Cons.prems by simp_all
  ultimately have "add_snapshot_pages (p # pages) m = Inr (m(WPageNo p \<mapsto> WData p) ++ page_table pages)"
    using Cons.IH by (simp only: add_snapshot_pages.simps option.case)
  then show ?case by (simp only: overlay_page [OF Cons.prems(1)])
qed simp

lemma add_snapshots_parts:
  assumes "list_all2 (\<lambda>b c. pagemap_of b ps cm tc c) bs chunks"
    and "distinct (map WPageNo (concat chunks))" "\<forall>p\<in>set (concat chunks). m (WPageNo p) = None"
    and "ps0 = 0 \<or> ps0 = ps" "cm0 = 0 \<or> cm0 = cm"
  shows "add_snapshots bs (ps0, cm0, m) =
    Inr (if bs = [] then ps0 else ps, if bs = [] then cm0 else cm, m ++ page_table (concat chunks))"
  using assms
proof (induction bs chunks arbitrary: ps0 cm0 m rule: list_all2_induct)
  case (Cons b bs c chunks)
  have d: "DecodeWALPageMap b = Inr (ps, cm, tc, c)" using Cons.hyps(1) by (rule pagemap_of_decode)
  have a: "add_snapshot_pages c m = Inr (m ++ page_table c)"
    using Cons.prems(1,2) by (intro add_snapshot_pages_new) auto
  have none: "\<forall>p\<in>set (concat chunks). (m ++ page_table c) (WPageNo p) = None"
  proof
    fix p assume p: "p \<in> set (concat chunks)"
    then have "WPageNo p \<notin> WPageNo ` set c" using Cons.prems(1) by (auto simp: image_iff)
    then have "page_table c (WPageNo p) = None" using page_table_dom [of c] by (auto simp: domIff)
    then show "(m ++ page_table c) (WPageNo p) = None" using Cons.prems(2) p by (simp add: map_add_def)
  qed
  have dj: "dom (page_table c) \<inter> dom (page_table (concat chunks)) = {}"
    using Cons.prems(1) by (auto simp: page_table_dom)
  have "m ++ page_table c ++ page_table (concat chunks) = m ++ page_table (concat (c # chunks))"
    using map_add_comm [OF dj] by (metis concat.simps(2) map_add_assoc page_table_append)
  moreover have "add_snapshots bs (ps, cm, m ++ page_table c) = Inr (ps, cm, m ++ page_table c ++ page_table (concat chunks))"
    using Cons.IH [OF _ none, of ps cm] Cons.prems(1) by simp
  moreover have "\<not> (ps0 \<noteq> 0 \<and> ps \<noteq> ps0)" "\<not> (cm0 \<noteq> 0 \<and> cm \<noteq> cm0)"
    "(if ps0 = 0 then ps else ps0) = ps" "(if cm0 = 0 then cm else cm0) = cm" using Cons.prems(3,4) by auto
  ultimately show ?case by (simp only: add_snapshots.simps d a sum.case prod.case rbind_simps if_False list.distinct)
qed simp

lemma first_epoch_const: "hs \<noteq> [] \<Longrightarrow> \<forall>h\<in>set hs. Epoch h = ep \<Longrightarrow> first_epoch hs = ep"
proof -
  have "\<forall>h\<in>set hs. Epoch h = ep \<Longrightarrow> e = ep \<or> e = 0 \<and> hs \<noteq> [] \<Longrightarrow> fold (\<lambda>h e. if e = 0 then Epoch h else e) hs e = ep" for e
    by (induction hs arbitrary: e) auto
  then show "hs \<noteq> [] \<Longrightarrow> \<forall>h\<in>set hs. Epoch h = ep \<Longrightarrow> first_epoch hs = ep" by (simp add: first_epoch_def)
qed

lemma merge_parts:
  assumes "list_all2 (\<lambda>s d. Decode s = Inr d) parts ds" "parts_headers (map fst ds) ep wm"
    and "list_all2 (\<lambda>b c. pagemap_of b ps cm tc c) (map snd ds) chunks"
    and "map (\<lambda>p. unat (WPageNo p)) (concat chunks) = [1..<Suc (unat cm)]" "ps \<noteq> 0" "cm \<noteq> 0"
  shows "mergeChain parts = Inr (ps, cm, ep, wm, concat chunks)"
proof -
  have d: "decode_all 0 parts = Inr ds" using assms(1) by (simp add: decode_all_iff)
  have ne: "ds \<noteq> []" using assms(2) by (auto simp: parts_headers_def)
  have di: "distinct (map WPageNo (concat chunks))"
  proof -
    have "distinct (map unat (map WPageNo (concat chunks)))" using assms(4) by (simp add: comp_def)
    then show ?thesis by (simp only: distinct_map)
  qed
  have ps: "map (\<lambda>i. snd (ds ! i)) [0..<length ds] = map snd ds" by (auto intro!: nth_equalityI)
  have "\<forall>h\<in>set (map fst ds). Epoch h = ep" using assms(2) unfolding parts_headers_def by (metis in_set_conv_nth)
  then have ep: "first_epoch (map fst ds) = ep" using ne by (intro first_epoch_const) simp_all
  have s: "add_snapshots (map snd ds) (0, 0, Map.empty) = Inr (ps, cm, page_table (concat chunks))"
    using add_snapshots_parts [OF assms(3) di, of Map.empty 0 0] ne by simp
  have c: "collect_pages cm (page_table (concat chunks)) = Inr (concat chunks)"
    using assms(4) page_table_mem [OF di] by (simp add: collect_pages_iff)
  show ?thesis
    using selectChain_parts [OF assms(2)] assms(5,6) by (simp add: mergeChain_def d ps s c ep)
qed

lemma compact_merge:
  assumes "Compact cz segments mb = Inr parts" "mergeChain segments = Inr (ps, cm, ep, wm, pages)" "mb \<le> 2 ^ 29"
  shows "mergeChain parts = Inr (ps, cm, ep, wm, pages)"
proof -
  let ?h = "\<lparr>Version = 0, HKind = KindSnapshot, Flags = 0, Epoch = ep, StartTxID = wm, EndTxID = wm, Length = 0, CRC = 0\<rparr>"
  define budget where "budget = (if mb \<le> 0 then DefaultSnapshotPartBytes else mb)"
  have b: "budget \<le> 2 ^ 29" using assms(3) by (simp add: budget_def DefaultSnapshotPartBytes_def)
  from assms(2) obtain m where cm: "cm \<noteq> 0" "ps \<noteq> 0" and c: "collect_pages cm m = Inr pages"
    by (elim mergeChain_Inr)
  from assms(1,2) have e: "EncodeSnapshotParts cz ?h ps cm pages budget = Inr parts"
    by (auto simp: Compact_def Let_def budget_def split: sum.split_asm)
  from snapshot_parts_chunks [OF e b] obtain chunks where ch: "concat chunks = pages" "length chunks = length parts"
    and p: "\<And>k. k < length parts \<Longrightarrow> part_of ?h ps cm (length parts) k (chunks ! k) (parts ! k)" by blast
  have nums: "map (\<lambda>p. unat (WPageNo p)) pages = [1..<Suc (unat cm)]" using c by (simp add: collect_pages_iff)
  have "0 < unat cm" using cm by (metis unat_eq_zero gr0I)
  with nums have "pages \<noteq> []" by auto
  with ch have ne: "parts \<noteq> []" by auto
  define ds where "ds = map (\<lambda>s. projr (Decode s)) parts"
  have part: "\<exists>h' b. Decode (parts ! k) = Inr (h', b) \<and> ds ! k = (h', b) \<and> pagemap_of b ps cm 1 (chunks ! k)
      \<and> HKind h' = KindSnapshot \<and> Epoch h' = ep \<and> StartTxID h' = wm
      \<and> SnapshotPart h' = (if length parts = 1 then (0, False) else (k, True))" if "k < length parts" for k
    using p [OF that] that by (auto simp: part_of_def ds_def)
  show ?thesis
  proof (rule merge_parts [where ds = ds and chunks = chunks, simplified ch(1)])
    show "list_all2 (\<lambda>s d. Decode s = Inr d) parts ds"
      unfolding list_all2_conv_all_nth using part by (force simp: ds_def)
    show "parts_headers (map fst ds) ep wm"
      unfolding parts_headers_def using part ne by (force simp: ds_def)
    show "list_all2 (\<lambda>b c. pagemap_of b ps cm 1 c) (map snd ds) chunks"
      unfolding list_all2_conv_all_nth using part ch(2) by (force simp: ds_def)
  qed (use nums cm in simp_all)
qed

text \<open>C11: a restored database is the snapshot overlaid with the deltas. If \<open>mergeChain\<close> succeeds, it
  returns exactly the pages 1 to commit in order, each with the bytes of the last segment of the selected chain that holds
  the page; the commit is that of the last delta that sets one, else the snapshot's.\<close>

theorem merge_is_overlay:
  assumes "mergeChain segments = Inr (ps, cm, ep, wm, out)"
  shows "\<exists>decoded snaps deltas cm0. decode_all 0 segments = Inr decoded
    \<and> selectChain (map fst decoded) = Inr (snaps, deltas, wm)
    \<and> map (\<lambda>p. unat (WPageNo p)) out = [1..<Suc (unat cm)]
    \<and> (\<forall>p\<in>set out. overlay (chain_payloads decoded (snaps @ deltas)) (WPageNo p) = Some (WData p))
    \<and> cm = final_commit (chain_payloads decoded deltas) cm0
    \<and> (\<exists>m. add_snapshots (chain_payloads decoded snaps) (0, 0, Map.empty) = Inr (ps, cm0, m))"
  using assms by (elim mergeChain_Inr) (auto simp: collect_pages_iff)

text \<open>A snapshot of two one-byte pages at transaction 9 and a delta over 10 and 11 that rewrites the second.\<close>

definition snap_payload :: bytes where
  "snap_payload = walPageMapMagic @ [0,0,0,1, 0,0,0,2, 0,0,0,1, 0,0,0,2, 0,0,0,1,7, 0,0,0,2,8]"

definition delta_payload :: bytes where
  "delta_payload = walPageMapMagic @ [0,0,0,1, 0,0,0,2, 0,0,0,1, 0,0,0,1, 0,0,0,2,9]"

definition seg_header :: "Kind \<Rightarrow> u64 \<Rightarrow> u64 \<Rightarrow> Header" where
  "seg_header k a b = \<lparr>Version = 1, HKind = k, Flags = 0, Epoch = 3, StartTxID = a, EndTxID = b, Length = 0, CRC = 0\<rparr>"

definition chain_segments :: "bytes list" where
  "chain_segments = [Encode (seg_header KindSnapshot 9 9) snap_payload, Encode (seg_header KindDelta 10 11) delta_payload]"

lemma payloads_decode:
  "DecodeWALPageMap snap_payload = Inr (1, 2, 1, [\<lparr>WPageNo = 1, WData = [7]\<rparr>, \<lparr>WPageNo = 2, WData = [8]\<rparr>])"
  "DecodeWALPageMap delta_payload = Inr (1, 2, 1, [\<lparr>WPageNo = 2, WData = [9]\<rparr>])"
  "length snap_payload = 30" "length delta_payload = 25"
  unfolding snap_payload_def delta_payload_def by code_simp+

lemma chain_segments_decode:
  "decode_all 0 chain_segments =
     Inr [(sealed (seg_header KindSnapshot 9 9) snap_payload, snap_payload),
          (sealed (seg_header KindDelta 10 11) delta_payload, delta_payload)]"
  by (simp add: chain_segments_def Decode_Encode payloads_decode)

lemma select_two:
  assumes "HKind a = KindSnapshot" "Flags a = 0" "HKind b = KindDelta" "StartTxID a = 9" "StartTxID b = 10" "EndTxID b = 11"
  shows "selectChain [a, b] = Inr ([0], [1], 11)"
proof -
  have k: "keep_of [a, b] [] = [0, 1]" by (simp add: keep_of_def truncated_def upt_rec)
  have s: "snapshots_of [a, b] [0, 1] = [0]" using assms by (simp add: snapshots_of_def KindSnapshot_def KindDelta_def)
  have t: "tail_of [a, b] [0, 1] 9 = [1]" using assms by (simp add: tail_of_def KindSnapshot_def KindDelta_def)
  have sp: "SnapshotPart a = (0, False)" using assms by (simp add: SnapshotPart_def)
  have c: "completeSnapshotSet [a, b] [0]" by (simp add: completeSnapshotSet_def sp)
  show ?thesis
    using assms t c s by (simp add: selectChain_def k Let_def bases_of_def epochs_of_def set_of_def candidates_def try_candidate_def
        KindSnapshot_def KindDelta_def KindMarker_def)
qed

lemma chain_segments_merge:
  "mergeChain chain_segments = Inr (1, 2, 3, 11, [\<lparr>WPageNo = 1, WData = [7]\<rparr>, \<lparr>WPageNo = 2, WData = [9]\<rparr>])"
proof -
  have s: "selectChain [sealed (seg_header KindSnapshot 9 9) snap_payload, sealed (seg_header KindDelta 10 11) delta_payload]
      = Inr ([0], [1], 11)"
    by (rule select_two) (simp_all add: sealed_def seg_header_def)
  have e: "first_epoch [sealed (seg_header KindSnapshot 9 9) snap_payload, sealed (seg_header KindDelta 10 11) delta_payload] = 3"
    by (simp add: first_epoch_def sealed_def seg_header_def)
  have c: "collect_pages 2 (Map.empty(1 \<mapsto> [7], 2 \<mapsto> [8], 2 \<mapsto> [9]))
      = Inr [\<lparr>WPageNo = 1, WData = [7]\<rparr>, \<lparr>WPageNo = 2, WData = [9]\<rparr>]"
    by (simp add: collect_pages_iff upt_rec)
  show ?thesis
    using c by (simp add: mergeChain_def chain_segments_decode s e payloads_decode add_delta_pages_def del: fun_upd_upd)
qed

theorem merge_is_overlay_witness:
  "\<exists>decoded snaps deltas. decode_all 0 chain_segments = Inr decoded \<and> selectChain (map fst decoded) = Inr (snaps, deltas, 11)
     \<and> overlay (chain_payloads decoded (snaps @ deltas)) 2 = Some [9]"
  using merge_is_overlay [OF chain_segments_merge] by force

text \<open>C6: folding a chain preserves the database. The parts \<open>Compact\<close> writes, merged again, give the same
  page size, commit, epoch, watermark and pages as the chain they replace.\<close>

theorem compact_preserves_database:
  assumes "Compact cz segments mb = Inr parts" "mb \<le> 2 ^ 29"
  shows "mergeChain parts = mergeChain segments"
proof -
  from assms(1) obtain r where "mergeChain segments = Inr r" by (auto simp: Compact_def rbind_eq_Inr_iff)
  then show ?thesis using compact_merge [OF assms(1) _ assms(2)] by (cases r) auto
qed

lemma chain_segments_compact: "\<exists>parts. Compact True chain_segments 0 = Inr parts"
proof -
  let ?pages = "[\<lparr>WPageNo = 1, WData = [7]\<rparr>, \<lparr>WPageNo = 2, WData = [9]\<rparr>]"
  let ?h = "\<lparr>Version = 0, HKind = KindSnapshot, Flags = 0, Epoch = 3, StartTxID = 11, EndTxID = 11, Length = 0, CRC = 0\<rparr>"
  have "\<not> (case EncodeWALPageMap True 1 2 1 ?pages of Inl _ \<Rightarrow> True | Inr _ \<Rightarrow> False)" by code_simp
  then obtain b where b: "EncodeWALPageMap True 1 2 1 ?pages = Inr b" by (auto split: sum.splits)
  have "EncodeSnapshotPart True ?h 1 2 ?pages 0 1 = Inr (Encode ?h b)"
    by (simp add: EncodeSnapshotPart_def b Let_def MaxSnapshotParts_def)
  then have "EncodeSnapshotParts True ?h 1 2 ?pages DefaultSnapshotPartBytes = Inr [Encode ?h b]"
    by (simp add: EncodeSnapshotParts_def Let_def HeaderSize_def DefaultSnapshotPartBytes_def bslice_all)
  then show ?thesis by (simp add: Compact_def chain_segments_merge)
qed

theorem compact_preserves_database_witness:
  "\<exists>parts. Compact True chain_segments 0 = Inr parts \<and>
     mergeChain parts = Inr (1, 2, 3, 11, [\<lparr>WPageNo = 1, WData = [7]\<rparr>, \<lparr>WPageNo = 2, WData = [9]\<rparr>])"
proof -
  from chain_segments_compact obtain parts where p: "Compact True chain_segments 0 = Inr parts" by blast
  from compact_preserves_database [OF p] show ?thesis using p by (auto simp: chain_segments_merge)
qed

subsection \<open>The written image\<close>

lemma write_at_end:
  assumes "length d \<le> n"
  shows "write_at (a @ replicate n 0) (length a) d = a @ d @ replicate (n - length d) 0"
  using assms by (simp add: write_at_def)

text \<open>Between rounds of the loop the file holds the flushed pages followed by zeros, and the run holds the rest of what was
  appended so far.\<close>

definition runs_ok :: "nat \<Rightarrow> bytes \<Rightarrow> run_state \<Rightarrow> bool" where
  "runs_ok n dn st \<longleftrightarrow>
     (\<exists>a. dn = a @ rRun st \<and> length dn \<le> n \<and> rFile st = a @ replicate (n - length a) 0
        \<and> (if rRun st = [] then rOff st = None \<and> a = [] else rOff st = Some (length a)))"

lemma flush_ok:
  assumes "runs_ok n dn st" "flush ft st = Inr st'"
  shows "rFile st' = dn @ replicate (n - length dn) 0" "rRun st' = []"
proof -
  from assms(1) obtain a where a: "dn = a @ rRun st" "length dn \<le> n" "rFile st = a @ replicate (n - length a) 0"
    "if rRun st = [] then rOff st = None \<and> a = [] else rOff st = Some (length a)" by (auto simp: runs_ok_def)
  show "rFile st' = dn @ replicate (n - length dn) 0" "rRun st' = []"
    using assms(2) a write_at_end [of "rRun st" "n - length a" a]
    by (auto simp: flush_def Let_def split: if_split_asm)
qed

lemma write_runs_ok:
  assumes "write_runs ft grow ps pages st = Inr st'" "runs_ok n dn st"
    and "\<forall>k<length pages. page_off ps (pages ! k) = length dn + k * unat ps"
    and "\<forall>p\<in>set pages. length (WData p) = unat ps" "0 < unat ps" "length dn + length pages * unat ps \<le> n"
  shows "rFile st' = (dn @ concat (map WData pages)) @ replicate (n - length (dn @ concat (map WData pages))) 0"
  using assms
proof (induction pages arbitrary: st dn)
  case Nil
  then show ?case using flush_ok by simp
next
  case (Cons p pages)
  have off: "page_off ps p = length dn" using Cons.prems(3) [rule_format, of 0] by simp
  have len: "length (WData p) = unat ps" using Cons.prems(4) by simp
  define st1 where "st1 = (if rOff st = None then st\<lparr>rOff := Some (length dn)\<rparr> else st)"
  from Cons.prems(2) obtain a where a: "dn = a @ rRun st" "length dn \<le> n" "rFile st = a @ replicate (n - length a) 0"
    "if rRun st = [] then rOff st = None \<and> a = [] else rOff st = Some (length a)" by (auto simp: runs_ok_def)
  obtain st3 where
    st3: "(if length dn \<noteq> the (rOff st1) + length (rRun st1) \<or> length (rRun st1) + length (WData p) > rCap st1
            then rbind (flush ft st1) (\<lambda>st2. Inr (st2\<lparr>rOff := Some (length dn)\<rparr>)) else Inr st1) = Inr st3"
    and rest: "write_runs ft grow ps pages (st3\<lparr>rRun := rRun st3 @ WData p,
       rCap := (if length (rRun st3) + length (WData p) > rCap st3 then grow (rCap st3) (length (rRun st3) + length (WData p)) else rCap st3)\<rparr>)
       = Inr st'"
    using Cons.prems(1) unfolding write_runs.simps Let_def off st1_def [symmetric] rbind_eq_Inr_iff by blast
  have ne: "WData p \<noteq> []" and le: "length dn + unat ps \<le> n" using len Cons.prems(5,6) by auto
  have st1: "rRun st1 = rRun st" "rFile st1 = rFile st" "rOff st1 = Some (length a)" using a by (auto simp: st1_def split: if_splits)
  have "st3 = st1 \<or> rFile st3 = dn @ replicate (n - length dn) 0 \<and> rRun st3 = [] \<and> rOff st3 = Some (length dn)"
  proof (cases "rRun st = []")
    case True
    then show ?thesis using st3 a st1 by (auto simp: flush_def split: if_split_asm)
  next
    case False
    then have "st1 = st" using a by (auto simp: st1_def)
    then show ?thesis using st3 flush_ok [OF Cons.prems(2), of ft] by (auto simp: rbind_eq_Inr_iff split: if_split_asm)
  qed
  then have ok: "runs_ok n (dn @ WData p) (st3\<lparr>rRun := rRun st3 @ WData p, rCap := c\<rparr>)" for c
    using a st1 ne le len by (auto simp: runs_ok_def)
  have offs: "\<forall>k<length pages. page_off ps (pages ! k) = length (dn @ WData p) + k * unat ps"
    using Cons.prems(3) len by (auto dest: spec [of _ "Suc _"])
  have "length (dn @ WData p) + length pages * unat ps \<le> n" using Cons.prems(6) len by simp
  from Cons.IH [OF rest ok offs _ Cons.prems(5) this] Cons.prems(4) show ?case by simp
qed


lemma merge_page_offsets:
  assumes "map (\<lambda>p. unat (WPageNo p)) pages = [1..<Suc n]" "k < length pages"
  shows "page_off ps (pages ! k) = k * unat ps"
proof -
  have "length pages = n" using arg_cong [OF assms(1), of length] by simp
  then have "unat (WPageNo (pages ! k)) = Suc k" using arg_cong [OF assms(1), of "\<lambda>xs. xs ! k"] assms(2) by (simp del: upt_Suc)
  then show ?thesis by (simp add: page_off_def)
qed

lemma write_runs_image:
  assumes "mergeChain segments = Inr (ps, cm, ep, wm, pages)" "\<forall>p\<in>set pages. length (WData p) = unat ps"
    and "write_runs ft grow ps pages \<lparr>rRun = [], rOff = None, rCap = writeRunBytes,
           rFile = truncate_file [] (unat cm * unat ps), rCount = 0\<rparr> = Inr st"
  shows "rFile st = concat (map WData pages) \<and> length (concat (map WData pages)) = unat cm * unat ps"
proof -
  from assms(1) obtain m where c: "collect_pages cm m = Inr pages" and ps: "ps \<noteq> 0" by (elim mergeChain_Inr)
  have nums: "map (\<lambda>p. unat (WPageNo p)) pages = [1..<Suc (unat cm)]" using c by (simp add: collect_pages_iff)
  have len: "length pages = unat cm" using arg_cong [OF nums, of length] by simp
  have "length (concat (map WData pages)) = length pages * unat ps"
    using assms(2) by (induction pages) auto
  moreover have "0 < unat ps" using ps by (metis gr0I unat_eq_zero)
  ultimately show ?thesis
    using write_runs_ok [OF assms(3), of "unat cm * unat ps" "[]"] merge_page_offsets [OF nums] assms(2) len
    by (simp add: runs_ok_def truncate_file_def)
qed


definition no_faults :: faults where
  "no_faults = \<lparr>fMkdir = False, fCreate = False, fTruncate = False, fWrite = (\<lambda>_. False), fSync = False, fChmod = False,
     fClose = False, fRename = False, fRemove = False\<rparr>"

definition no_stats :: Stats where
  "no_stats = \<lparr>Files = 0, SBytes = 0, SPages = 0, LastSize = 0, MaxSize = 0\<rparr>"

lemma write_runs_no_faults: "\<exists>st'. write_runs no_faults grow ps pages st = Inr st'"
proof -
  have f: "\<exists>st'. flush no_faults st = Inr st'" for st by (auto simp: flush_def no_faults_def Let_def)
  show ?thesis
  proof (induction pages arbitrary: st)
    case (Cons p pages)
    show ?case using Cons f [of "if rOff st = None then st\<lparr>rOff := Some (page_off ps p)\<rparr> else st"] by (auto simp: Let_def)
  qed (use f in simp)
qed

lemma apply_file_ok:
  assumes "mergeChain segments = Inr (ps, cm, ep, wm, pages)" "\<forall>p\<in>set pages. length (WData p) = unat ps"
  shows "\<exists>fs' stats'. ApplyFile no_faults grow tmp fs stats dest segments = (fs', stats', Inr cm)"
proof -
  from write_runs_no_faults obtain st where "write_runs no_faults grow ps pages \<lparr>rRun = [], rOff = None, rCap = writeRunBytes,
           rFile = truncate_file [] (unat cm * unat ps), rCount = 0\<rparr> = Inr st" by blast
  moreover have "find (\<lambda>p. length (WData p) \<noteq> unat ps) pages = None" using assms(2) by (auto simp: find_None_iff)
  ultimately show ?thesis by (simp add: ApplyFile_def assms(1)) (simp add: no_faults_def)
qed




end
