(* ===== verification/Paging.thy ===== *)
theory Paging imports Restore
begin

text \<open>On-demand paging, package \<open>restore\<close> (\<open>paging.go\<close>): the page index over a chain, single-page reads and sparse images.
  The properties relate it to the full merge.\<close>

subsection \<open>On-demand paging\<close>

record PageIndex =
  iPageSize :: u32
  iCommit :: u32
  iWatermark :: u64
  refs :: "u32 \<rightharpoonup> nat"
  payloads :: "bytes list"

fun split_all :: "nat \<Rightarrow> bytes list \<Rightarrow> restore_error + (Header \<times> bytes) list" where
  "split_all i [] = Inr []"
| "split_all i (raw # segments) =
     (case Split raw of
        Inl e \<Rightarrow> Inl (DecodeSegment i e)
      | Inr ones \<Rightarrow>
          rbind (decode_all i ones) (\<lambda>ps. rbind (split_all (Suc i) segments) (\<lambda>rest. Inr (ps @ rest))))"

fun index_pages :: "bool \<Rightarrow> nat \<Rightarrow> u32 list \<Rightarrow> (u32 \<rightharpoonup> nat) \<times> u32 list \<Rightarrow> restore_error + (u32 \<rightharpoonup> nat) \<times> u32 list" where
  "index_pages inSnap idx [] st = Inr st"
| "index_pages inSnap idx (no # nums) (rs, snapPages) =
     (if inSnap \<and> no \<in> set snapPages then Inl (DuplicatePage no)
      else index_pages inSnap idx nums (rs(no \<mapsto> idx), if inSnap then no # snapPages else snapPages))"

text \<open>The loop over \<open>order\<close>; \<open>snapSet\<close> is indexed by the position in \<open>order\<close>, as in the code.\<close>

fun index_parts :: "nat list \<Rightarrow> nat \<Rightarrow> bytes list \<Rightarrow> PageIndex \<times> u32 \<times> u32 list \<Rightarrow> restore_error + PageIndex" where
  "index_parts snapSet idx [] (ix, snapCommit, snapPages) = Inr ix"
| "index_parts snapSet idx (payload # rest) (ix, snapCommit, snapPages) =
     (case DecodeWALPageMap payload of
        Inl e \<Rightarrow> Inl (PageMapErr e)
      | Inr (ps, cm, _, _) \<Rightarrow>
          (let inSnap = (idx \<in> set snapSet)
           in if iPageSize ix \<noteq> 0 \<and> ps \<noteq> iPageSize ix then Inl PageSizeMismatch
              else if inSnap \<and> snapCommit \<noteq> 0 \<and> cm \<noteq> snapCommit then Inl (CommitMismatch snapCommit cm)
              else
                (case PageMapNumbers payload of
                   Inl e \<Rightarrow> Inl (PageMapErr e)
                 | Inr nums \<Rightarrow>
                     rbind (index_pages inSnap idx nums (refs ix, snapPages)) (\<lambda>(rs, snapPages').
                       index_parts snapSet (Suc idx) rest
                         (ix\<lparr>iPageSize := (if iPageSize ix = 0 then ps else iPageSize ix),
                             iCommit := (if cm > iCommit ix then cm else iCommit ix),
                             refs := rs, payloads := payloads ix @ [payload]\<rparr>,
                          if inSnap \<and> snapCommit = 0 then cm else snapCommit, snapPages')))))"

definition IndexChain :: "bytes list \<Rightarrow> restore_error + PageIndex" where
  "IndexChain segments =
     rbind (split_all 0 segments) (\<lambda>parts.
     rbind (chain_result (selectChain (map fst parts))) (\<lambda>(snapshots, deltas, watermark).
     rbind (index_parts snapshots 0 (map (\<lambda>i. snd (parts ! i)) (snapshots @ deltas))
              (\<lparr>iPageSize = 0, iCommit = 0, iWatermark = watermark, refs = Map.empty, payloads = []\<rparr>, 0, [])) (\<lambda>ix.
       if iCommit ix = 0 \<or> iPageSize ix = 0 then Inl NoPages
       else
         (case find (\<lambda>n. refs ix (word_of_nat n) = None) [1..<Suc (unat (iCommit ix))] of
            Some n \<Rightarrow> Inl (MissingPage (word_of_nat n) (iCommit ix))
          | None \<Rightarrow> Inr ix))))"

definition Has :: "PageIndex \<Rightarrow> u32 \<Rightarrow> bool" where
  "Has ix pgno \<longleftrightarrow> refs ix pgno \<noteq> None"

definition Page :: "PageIndex \<Rightarrow> u32 \<Rightarrow> restore_error + bytes" where
  "Page ix pgno =
     (case refs ix pgno of
        None \<Rightarrow> Inl (NotDefined pgno)
      | Some ref \<Rightarrow>
          (case PageMapLookup (payloads ix ! ref) pgno of
             Inl e \<Rightarrow> Inl (PageMapErr e)
           | Inr None \<Rightarrow> Inl (MissingFromPart pgno)
           | Inr (Some d) \<Rightarrow> Inr d))"

fun ranges_loop :: "PageIndex \<Rightarrow> u32 list \<Rightarrow> u32 \<Rightarrow> u32 \<Rightarrow> (u32 \<times> u32) list" where
  "ranges_loop ix [] start prev = (if start \<noteq> 0 then [(start, prev)] else [])"
| "ranges_loop ix (n # ns) start prev =
     (if \<not> Has ix n then
        (if start \<noteq> 0 then (start, prev) # ranges_loop ix ns 0 prev else ranges_loop ix ns start prev)
      else ranges_loop ix ns (if start = 0 then n else start) n)"

definition Ranges :: "PageIndex \<Rightarrow> (u32 \<times> u32) list" where
  "Ranges ix = ranges_loop ix (map word_of_nat [1..<Suc (unat (iCommit ix))]) 0 0"

fun fill_pages :: "faults \<Rightarrow> u32 \<Rightarrow> (u32 \<Rightarrow> restore_error + bytes) \<Rightarrow> nat list \<Rightarrow> bytes \<Rightarrow> nat \<Rightarrow> bytes \<times> nat \<times> restore_error option" where
  "fill_pages ft ps fill [] f written = (f, written, None)"
| "fill_pages ft ps fill (n # ns) f written =
     (case fill (word_of_nat n) of
        Inl e \<Rightarrow> (f, written, Some e)
      | Inr d \<Rightarrow>
          if length d \<noteq> unat ps then (f, written, Some (WrongPageLength (word_of_nat n)))
          else if fWrite ft written then (f, written, Some FileError)
          else fill_pages ft ps fill ns (write_at f ((n - 1) * unat ps) d) (Suc written))"

definition SparseFileFunc ::
  "faults \<Rightarrow> filesystem \<Rightarrow> string \<Rightarrow> u32 \<Rightarrow> u32 \<Rightarrow> (u32 \<Rightarrow> restore_error + bytes) \<Rightarrow> (u32 \<times> u32) list
     \<Rightarrow> filesystem \<times> nat \<times> restore_error option" where
  "SparseFileFunc ft fs dest ps cm fill ranges =
     (if ps = 0 \<or> cm = 0 then (fs, 0, Some EmptyImage)
      else
        (let rs = (if ranges = [] then [(1, cm)] else ranges)
         in case find (\<lambda>(a, b). a = 0 \<or> b < a \<or> b > cm) rs of
              Some (a, b) \<Rightarrow> (fs, 0, Some (BadRange a b))
            | None \<Rightarrow>
                if fMkdir ft then (fs, 0, Some FileError)
                else
                  (let fs1 = fs(dest @ ''-wal'' := None, dest @ ''-shm'' := None)
                   in if fCreate ft then (fs1, 0, Some FileError)
                      else if fTruncate ft then (fs1(dest \<mapsto> []), 0, Some FileError)
                      else
                        (let (f, written, err) =
                               fill_pages ft ps fill (concat (map (\<lambda>(a, b). [unat a..<Suc (unat b)]) rs))
                                 (truncate_file [] (unat cm * unat ps)) 0
                         in (fs1(dest \<mapsto> f), written,
                             case err of Some e \<Rightarrow> Some e | None \<Rightarrow> if fSync ft then Some FileError else None)))))"

definition SparseFile ::
  "faults \<Rightarrow> filesystem \<Rightarrow> PageIndex \<Rightarrow> string \<Rightarrow> (u32 \<times> u32) list \<Rightarrow> filesystem \<times> nat \<times> restore_error option" where
  "SparseFile ft fs ix dest ranges = SparseFileFunc ft fs dest (iPageSize ix) (iCommit ix) (Page ix) ranges"

subsection \<open>The page index\<close>

lemma split_all_single:
  assumes "\<forall>raw\<in>set segments. Split raw = Inr [raw]" "decode_all i segments = Inr ds"
  shows "split_all i segments = Inr ds"
  using assms by (induction i segments arbitrary: ds rule: split_all.induct) (auto simp: rbind_eq_Inr_iff split: sum.split_asm)

lemma index_pages_refs:
  "index_pages s idx nums (rs, sp) = Inr (rs', sp') \<Longrightarrow> rs' = (\<lambda>n. if n \<in> set nums then Some idx else rs n)"
  by (induction nums arbitrary: rs sp) (auto simp: fun_eq_iff split: if_split_asm)

lemma payload_lookup:
  assumes "DecodeWALPageMap b = Inr (ps, cm, tc, pages)"
  shows "PageMapNumbers b = Inr nums \<Longrightarrow> n \<in> set nums \<longleftrightarrow> payload_pages b n \<noteq> None"
    and "PageMapLookup b n = Inr (payload_pages b n)"
proof -
  from assms have p: "pagemap_of b ps cm tc pages" by (simp add: decode_pagemap_of)
  have pt: "payload_pages b = page_table pages" using assms by (simp add: payload_pages_def)
  show "PageMapLookup b n = Inr (payload_pages b n)"
    using pagemap_of_lookup [OF p] by (simp add: pt page_table_def)
  show "PageMapNumbers b = Inr nums \<Longrightarrow> n \<in> set nums \<longleftrightarrow> payload_pages b n \<noteq> None"
    using pagemap_of_numbers [OF p] page_table_dom [of pages] unfolding pt by (metis Inr_inject domIff list.set_map)
qed

definition payload_page_size :: "bytes \<Rightarrow> u32" where
  "payload_page_size b = (case DecodeWALPageMap b of Inl _ \<Rightarrow> 0 | Inr (ps, _) \<Rightarrow> ps)"

lemma decode_page_size: "DecodeWALPageMap b = Inr (ps, cm, tc, pages) \<Longrightarrow> ps \<noteq> 0"
  by (auto simp: decode_pagemap_of pagemap_of_def describePageMap_def Let_def split: if_split_asm)

lemma add_snapshots_page_size:
  "add_snapshots (b # bs) (0, 0, m) = Inr (ps, cm, m') \<Longrightarrow> ps = payload_page_size b"
proof -
  have keep: "add_snapshots bs (p, c, m) = Inr (ps, cm, m') \<Longrightarrow> p \<noteq> 0 \<Longrightarrow> ps = p" for bs p c m
  proof (induction bs arbitrary: c m)
    case (Cons b bs)
    then show ?case by (auto simp: rbind_eq_Inr_iff split: sum.split_asm if_split_asm)
  qed simp
  show "add_snapshots (b # bs) (0, 0, m) = Inr (ps, cm, m') \<Longrightarrow> ps = payload_page_size b"
    by (auto simp: rbind_eq_Inr_iff payload_page_size_def split: sum.split_asm) (metis keep decode_page_size)
qed

text \<open>The reference of a page names the last payload of the list that holds it.\<close>

definition refs_ok :: "PageIndex \<Rightarrow> bool" where
  "refs_ok ix \<longleftrightarrow> (\<forall>n. case refs ix n of
     None \<Rightarrow> overlay (payloads ix) n = None
   | Some r \<Rightarrow> r < length (payloads ix) \<and> overlay (payloads ix) n \<noteq> None
       \<and> PageMapLookup (payloads ix ! r) n = Inr (overlay (payloads ix) n))"

lemma index_parts_refs:
  assumes "index_parts ss idx bs (ix, sc, sp) = Inr ix'" "refs_ok ix" "idx = length (payloads ix)"
  shows "refs_ok ix' \<and> payloads ix' = payloads ix @ bs \<and> iWatermark ix' = iWatermark ix
    \<and> iPageSize ix' = (if iPageSize ix \<noteq> 0 \<or> bs = [] then iPageSize ix else payload_page_size (hd bs))"
  using assms
proof (induction bs arbitrary: idx ix sc sp)
  case (Cons b bs)
  from Cons.prems(1) obtain ps cm tc pages nums rs sp' where d: "DecodeWALPageMap b = Inr (ps, cm, tc, pages)"
    and n: "PageMapNumbers b = Inr nums" and r: "index_pages (idx \<in> set ss) idx nums (refs ix, sp) = Inr (rs, sp')"
    and rest: "index_parts ss (Suc idx) bs
      (ix\<lparr>iPageSize := (if iPageSize ix = 0 then ps else iPageSize ix), iCommit := (if cm > iCommit ix then cm else iCommit ix),
          refs := rs, payloads := payloads ix @ [b]\<rparr>, if idx \<in> set ss \<and> sc = 0 then cm else sc, sp') = Inr ix'"
    by (auto simp: Let_def rbind_eq_Inr_iff split: sum.split_asm if_split_asm)
  have rs: "rs n = (if payload_pages b n \<noteq> None then Some idx else refs ix n)" for n
    using index_pages_refs [OF r] payload_lookup(1) [OF d n] by simp
  have ov: "overlay (payloads ix @ [b]) = overlay (payloads ix) ++ payload_pages b" by (rule overlay_snoc)
  have ok: "refs_ok (ix\<lparr>iPageSize := p, iCommit := c, refs := rs, payloads := payloads ix @ [b]\<rparr>)" for p c
    unfolding refs_ok_def
  proof
    fix n
    have old: "case refs ix n of None \<Rightarrow> overlay (payloads ix) n = None
      | Some r \<Rightarrow> r < length (payloads ix) \<and> overlay (payloads ix) n \<noteq> None
        \<and> PageMapLookup (payloads ix ! r) n = Inr (overlay (payloads ix) n)" using Cons.prems(2) by (simp add: refs_ok_def)
    show "case refs (ix\<lparr>iPageSize := p, iCommit := c, refs := rs, payloads := payloads ix @ [b]\<rparr>) n of
        None \<Rightarrow> overlay (payloads (ix\<lparr>iPageSize := p, iCommit := c, refs := rs, payloads := payloads ix @ [b]\<rparr>)) n = None
      | Some r \<Rightarrow> r < length (payloads (ix\<lparr>iPageSize := p, iCommit := c, refs := rs, payloads := payloads ix @ [b]\<rparr>))
        \<and> overlay (payloads (ix\<lparr>iPageSize := p, iCommit := c, refs := rs, payloads := payloads ix @ [b]\<rparr>)) n \<noteq> None
        \<and> PageMapLookup (payloads (ix\<lparr>iPageSize := p, iCommit := c, refs := rs, payloads := payloads ix @ [b]\<rparr>) ! r) n
            = Inr (overlay (payloads (ix\<lparr>iPageSize := p, iCommit := c, refs := rs, payloads := payloads ix @ [b]\<rparr>)) n)"
      using old payload_lookup(2) [OF d, of n] Cons.prems(3)
      by (cases "payload_pages b n") (auto simp: rs ov map_add_def nth_append split: option.splits)
  qed
  from Cons.IH [OF rest ok] Cons.prems(3) decode_page_size [OF d] d show ?case
    by (auto simp: payload_page_size_def)
qed simp


lemma IndexChain_Inr:
  assumes "IndexChain segments = Inr ix" "\<forall>raw\<in>set segments. Split raw = Inr [raw]" "decode_all 0 segments = Inr decoded"
    "selectChain (map fst decoded) = Inr (snaps, deltas, wm)"
  shows "refs_ok ix" "payloads ix = chain_payloads decoded (snaps @ deltas)" "iWatermark ix = wm"
    "iPageSize ix = (if snaps @ deltas = [] then 0 else payload_page_size (hd (chain_payloads decoded (snaps @ deltas))))"
proof -
  from assms(1) have "index_parts snaps 0 (chain_payloads decoded (snaps @ deltas))
      (\<lparr>iPageSize = 0, iCommit = 0, iWatermark = wm, refs = Map.empty, payloads = []\<rparr>, 0, []) = Inr ix"
    using split_all_single [OF assms(2,3)] assms(4)
    by (auto simp: IndexChain_def chain_payloads_def rbind_eq_Inr_iff split: if_split_asm option.split_asm)
  from index_parts_refs [OF this]
  show "refs_ok ix" "payloads ix = chain_payloads decoded (snaps @ deltas)" "iWatermark ix = wm"
    "iPageSize ix = (if snaps @ deltas = [] then 0 else payload_page_size (hd (chain_payloads decoded (snaps @ deltas))))"
    by (auto simp: refs_ok_def chain_payloads_def)
qed



lemma numbers_decode: "DecodeWALPageMap b = Inr (ps, cm, tc, pages) \<Longrightarrow> PageMapNumbers b = Inr (map WPageNo pages)"
  unfolding decode_pagemap_of by (rule pagemap_of_numbers)

lemma Split_one: "length payload < 2 ^ 64 \<Longrightarrow> Split (Encode h payload) = Inr [Encode h payload]"
  using Split_concat_Encode [of "[(h, payload)]"] by simp

lemma chain_segments_single: "\<forall>raw\<in>set chain_segments. Split raw = Inr [raw]"
  by (simp add: chain_segments_def Split_one payloads_decode)

lemma chain_segments_select:
  "selectChain (map fst [(sealed (seg_header KindSnapshot 9 9) snap_payload, snap_payload),
     (sealed (seg_header KindDelta 10 11) delta_payload, delta_payload)]) = Inr ([0], [1], 11)"
  using select_two [of "sealed (seg_header KindSnapshot 9 9) snap_payload" "sealed (seg_header KindDelta 10 11) delta_payload"]
  by (simp add: sealed_def seg_header_def)

lemma chain_segments_index: "\<exists>ix. IndexChain chain_segments = Inr ix"
  using chain_segments_select
  by (auto simp: IndexChain_def split_all_single [OF chain_segments_single chain_segments_decode] payloads_decode
      numbers_decode [OF payloads_decode(1)] numbers_decode [OF payloads_decode(2)] upt_rec)


subsection \<open>Where the page index and the merge differ\<close>

text \<open>The same snapshot followed by a delta that truncates the database to one page: \<open>mergeChain\<close> takes the delta's commit,
  the index keeps the largest commit of the chain.\<close>

definition shrink_payload :: bytes where
  "shrink_payload = walPageMapMagic @ [0,0,0,1, 0,0,0,1, 0,0,0,1, 0,0,0,1, 0,0,0,1,9]"

definition shrink_segments :: "bytes list" where
  "shrink_segments = [Encode (seg_header KindSnapshot 9 9) snap_payload, Encode (seg_header KindDelta 10 11) shrink_payload]"

lemma shrink_decode:
  "DecodeWALPageMap shrink_payload = Inr (1, 1, 1, [\<lparr>WPageNo = 1, WData = [9]\<rparr>])" "length shrink_payload = 25"
  unfolding shrink_payload_def by code_simp+

lemma shrink_segments_decode:
  "decode_all 0 shrink_segments =
     Inr [(sealed (seg_header KindSnapshot 9 9) snap_payload, snap_payload),
          (sealed (seg_header KindDelta 10 11) shrink_payload, shrink_payload)]"
  by (simp add: shrink_segments_def Decode_Encode payloads_decode shrink_decode)

theorem index_keeps_truncated_pages:
  "(\<exists>pages. mergeChain shrink_segments = Inr (1, 1, 3, 11, pages)) \<and> (\<exists>ix. IndexChain shrink_segments = Inr ix \<and> iCommit ix = 2)"
proof -
  have s: "selectChain [sealed (seg_header KindSnapshot 9 9) snap_payload, sealed (seg_header KindDelta 10 11) shrink_payload]
      = Inr ([0], [1], 11)"
    by (rule select_two) (simp_all add: sealed_def seg_header_def)
  have e: "first_epoch [sealed (seg_header KindSnapshot 9 9) snap_payload, sealed (seg_header KindDelta 10 11) shrink_payload] = 3"
    by (simp add: first_epoch_def sealed_def seg_header_def)
  have c: "collect_pages 1 m = Inr [\<lparr>WPageNo = 1, WData = [9]\<rparr>]" if "m 1 = Some [9]" for m
    using that by (simp add: collect_pages_iff)
  have "\<forall>raw\<in>set shrink_segments. Split raw = Inr [raw]"
    by (simp add: shrink_segments_def Split_one payloads_decode shrink_decode)
  note sp = split_all_single [OF this shrink_segments_decode]
  have "\<exists>ix. IndexChain shrink_segments = Inr ix \<and> iCommit ix = 2"
    using s by (auto simp: IndexChain_def sp payloads_decode shrink_decode
        numbers_decode [OF payloads_decode(1)] numbers_decode [OF shrink_decode(1)] upt_rec)
  moreover have "mergeChain shrink_segments = Inr (1, 1, 3, 11, [\<lparr>WPageNo = 1, WData = [9]\<rparr>])"
    by (simp add: mergeChain_def shrink_segments_decode s e payloads_decode shrink_decode add_delta_pages_def c del: fun_upd_upd)
  ultimately show ?thesis by blast
qed

subsection \<open>Sparse images\<close>

lemma length_write_at: "off + length d \<le> length f \<Longrightarrow> length (write_at f off d) = length f"
  by (simp add: write_at_def)

lemma write_at_hit: "off + length d \<le> length f \<Longrightarrow> bslice off (off + length d) (write_at f off d) = d"
  by (simp add: write_at_def bslice_def)

lemma write_at_miss:
  assumes "off + length d \<le> length f" "b \<le> off \<or> off + length d \<le> a"
  shows "bslice a b (write_at f off d) = bslice a b f"
proof -
  have w: "write_at f off d = take off f @ d @ drop (off + length d) f" using assms(1) by (simp add: write_at_def)
  from assms(2) show ?thesis
  proof
    assume "b \<le> off"
    then have "take b (write_at f off d) = take b f" using assms(1) by (simp add: w min_def)
    then show ?thesis by (simp only: bslice_def drop_take [symmetric])
  next
    assume "off + length d \<le> a"
    then have "drop a (write_at f off d) = drop a f" using assms(1) by (simp add: w)
    then show ?thesis by (simp only: bslice_def)
  qed
qed

definition page_slice :: "u32 \<Rightarrow> nat \<Rightarrow> bytes \<Rightarrow> bytes" where
  "page_slice ps n f = bslice ((n - 1) * unat ps) ((n - 1) * unat ps + unat ps) f"

lemma page_fits: "0 < n \<Longrightarrow> n \<le> c \<Longrightarrow> (n - 1) * p + p \<le> c * (p :: nat)"
proof -
  assume "0 < n" "n \<le> c"
  then have "(n - 1) * p + p = n * p" by (cases n) simp_all
  with \<open>n \<le> c\<close> show ?thesis by simp
qed

lemma page_slice_other:
  assumes "0 < m" "0 < n" "m \<noteq> n" "(n - 1) * unat ps + length d \<le> length f" "length d = unat ps"
  shows "page_slice ps m (write_at f ((n - 1) * unat ps) d) = page_slice ps m f"
proof -
  have "(m - 1) * unat ps + unat ps \<le> (n - 1) * unat ps \<or> (n - 1) * unat ps + unat ps \<le> (m - 1) * unat ps"
  proof (cases "m < n")
    case True
    then show ?thesis using page_fits [of m "n - 1" "unat ps"] assms(1) by simp
  next
    case False
    then show ?thesis using page_fits [of n "m - 1" "unat ps"] assms(2,3) by simp
  qed
  then show ?thesis unfolding page_slice_def using assms(4,5) by (intro write_at_miss) auto
qed

lemma fill_pages_spec:
  assumes "fill_pages ft ps fill ns f w = (f', w', None)" "\<forall>n\<in>set ns. 0 < n \<and> n \<le> cm" "length f = cm * unat ps"
  shows "length f' = cm * unat ps \<and> w' = w + length ns
    \<and> (\<forall>n. 0 < n \<longrightarrow> page_slice ps n f' = (if n \<in> set ns then projr (fill (word_of_nat n)) else page_slice ps n f))
    \<and> (\<forall>n\<in>set ns. \<exists>d. fill (word_of_nat n) = Inr d \<and> length d = unat ps)"
  using assms
proof (induction ns arbitrary: f w)
  case (Cons n ns)
  from Cons.prems(1) obtain d where d: "fill (word_of_nat n) = Inr d" "length d = unat ps"
    and r: "fill_pages ft ps fill ns (write_at f ((n - 1) * unat ps) d) (Suc w) = (f', w', None)"
    by (auto split: sum.split_asm if_split_asm)
  have n: "0 < n" "n \<le> cm" using Cons.prems(2) by simp_all
  have fits: "(n - 1) * unat ps + length d \<le> length f"
    using page_fits [OF n, of "unat ps"] Cons.prems(3) d(2) by simp
  have l: "length (write_at f ((n - 1) * unat ps) d) = cm * unat ps" using fits Cons.prems(3) by (simp add: length_write_at)
  have hit: "page_slice ps n (write_at f ((n - 1) * unat ps) d) = d"
    using write_at_hit [OF fits] d(2) by (simp add: page_slice_def)
  from Cons.IH [OF r _ l] Cons.prems(2) have IH: "length f' = cm * unat ps" "w' = Suc w + length ns"
    "\<And>m. 0 < m \<Longrightarrow> page_slice ps m f' = (if m \<in> set ns then projr (fill (word_of_nat m))
        else page_slice ps m (write_at f ((n - 1) * unat ps) d))"
    "\<forall>n\<in>set ns. \<exists>d. fill (word_of_nat n) = Inr d \<and> length d = unat ps" by auto
  have "page_slice ps m f' = (if m \<in> set (n # ns) then projr (fill (word_of_nat m)) else page_slice ps m f)" if "0 < m" for m
    using IH(3) [OF that] hit d page_slice_other [OF that n(1) _ fits d(2)] by (cases "m = n") auto
  then show ?case using IH d by simp
qed simp

definition range_pages :: "(u32 \<times> u32) list \<Rightarrow> nat set" where
  "range_pages rs = (\<Union>(a, b)\<in>set rs. {unat a..unat b})"

text \<open>a sparse image holds what was asked for. If \<open>SparseFileFunc\<close> reports no error, the file has
  the full image size, every page of the given ranges (of the whole image when none is given) holds the bytes the supplier
  returned for it, and every other page is zero.\<close>

lemma sparse_file_pages:
  assumes "SparseFileFunc ft fs dest ps cm fill ranges = (fs', w, None)"
  defines "rs \<equiv> if ranges = [] then [(1, cm)] else ranges"
  shows "\<exists>f. fs' dest = Some f \<and> length f = unat cm * unat ps
    \<and> (\<forall>n. 0 < n \<and> n \<le> unat cm \<longrightarrow>
         (if n \<in> range_pages rs then fill (word_of_nat n) = Inr (page_slice ps n f)
          else page_slice ps n f = replicate (unat ps) 0))"
proof -
  let ?ns = "concat (map (\<lambda>(a, b). [unat a..<Suc (unat b)]) rs)"
  from assms(1) obtain f where fr: "find (\<lambda>(a, b). a = 0 \<or> b < a \<or> b > cm) rs = None"
    and fp: "fill_pages ft ps fill ?ns (truncate_file [] (unat cm * unat ps)) 0 = (f, w, None)"
    and f: "fs' dest = Some f"
    unfolding SparseFileFunc_def rs_def [symmetric]
    by (auto simp: Let_def split: if_split_asm option.split_asm prod.split_asm)
  have ok: "\<forall>n\<in>set ?ns. 0 < n \<and> n \<le> unat cm"
  proof
    fix n assume "n \<in> set ?ns"
    then obtain a b where ab: "(a, b) \<in> set rs" "unat a \<le> n" "n \<le> unat b" by (auto simp: less_Suc_eq_le)
    then have "a \<noteq> 0" "b \<le> cm" using fr by (auto simp: find_None_iff not_less)
    then have "0 < unat a" "unat b \<le> unat cm" by (simp_all add: unat_gt_0 word_le_nat_alt)
    then show "0 < n \<and> n \<le> unat cm" using ab by linarith
  qed
  have sn: "set ?ns = range_pages rs" by (force simp: range_pages_def simp del: upt_Suc)
  have z: "page_slice ps n (truncate_file [] (unat cm * unat ps)) = replicate (unat ps) 0" if "0 < n" "n \<le> unat cm" for n
    using page_fits [OF that, of "unat ps"] by (simp add: page_slice_def truncate_file_def bslice_def)
  from fill_pages_spec [OF fp ok] z show ?thesis
    unfolding sn using f by (intro exI [of _ f]) (force simp: truncate_file_def)
qed

lemma sparse_file_pages_applies:
  "\<exists>fs' w. SparseFileFunc no_faults Map.empty ''d'' 1 3 (\<lambda>n. Inr [ucast n]) [(2, 2)] = (fs', w, None) \<and> fs' ''d'' \<noteq> None"
proof -
  have "\<exists>fs' w. SparseFileFunc no_faults Map.empty ''d'' 1 3 (\<lambda>n. Inr [ucast n]) [(2, 2)] = (fs', w, None)"
    by (simp add: SparseFileFunc_def no_faults_def upt_rec)
  then obtain fs' w where s: "SparseFileFunc no_faults Map.empty ''d'' 1 3 (\<lambda>n. Inr [ucast n]) [(2, 2)] = (fs', w, None)" by blast
  from sparse_file_pages [OF s] s show ?thesis by auto
qed

end
