(* ===== verification/Cell.thy ===== *)
theory Cell
  imports GoStrings
begin

unbundle bit_operations_syntax

text \<open>
  \<^verbatim>\<open>internal/cell\<close>: the identity of a cell (scope.go), the owner record stored in the bucket
  (owner.go), and the placement hash of Durable Objects (do.go). Every protocol object of a cell lives
  under the key prefix \<open>Key\<close> of its scope, so parsing must be exact and keys injective.
\<close>

subsection \<open>scope.go\<close>

record Scope =
  Namespace :: string
  Class :: string
  ScopeID :: string

datatype scope_error = ErrInvalidScope | ErrTraversal

definition reservedClassPrefix :: string where
  "reservedClassPrefix = ''__''"

definition IsReservedClass :: "Scope \<Rightarrow> bool" where
  "IsReservedClass s = HasPrefix (Class s) reservedClassPrefix"

definition ScopeString :: "Scope \<Rightarrow> string" where
  "ScopeString s = Namespace s @ ''/'' @ Class s @ ''/'' @ ScopeID s"

definition ScopeKey :: "Scope \<Rightarrow> string" where
  "ScopeKey s = ''cells/'' @ ScopeString s"

definition traversal_part :: "string \<Rightarrow> bool" where
  "traversal_part part \<longleftrightarrow> part = ''.'' \<or> part = ''..'' \<or> Contains part ''..''"

definition Validate :: "Scope \<Rightarrow> scope_error + unit" where
  "Validate s =
     (let parts = [Namespace s, Class s, ScopeID s] in
      if list_ex traversal_part parts then Inl ErrTraversal
      else if list_ex (\<lambda>p. p = [] \<or> CHR ''/'' \<in> set p \<or> CHR 0x5C \<in> set p) parts then Inl ErrInvalidScope
      else Inr ())"

definition ParseScope :: "string \<Rightarrow> scope_error + Scope" where
  "ParseScope s =
     (case split_on (CHR ''/'') s of
        [ns, cl, i] \<Rightarrow>
          (let sc = \<lparr>Namespace = ns, Class = cl, ScopeID = i\<rparr> in
           case Validate sc of Inl e \<Rightarrow> Inl e | Inr _ \<Rightarrow> Inr sc)
      | _ \<Rightarrow> Inl ErrInvalidScope)"

subsection \<open>owner.go\<close>

text \<open>Times are nanoseconds since the Unix epoch, as \<^verbatim>\<open>time.Time\<close> counts them.\<close>

type_synonym time = int

definition UnixMilli :: "time \<Rightarrow> int" where
  "UnixMilli t = t div 1000000"

definition RoleCellAgent :: string where "RoleCellAgent = ''cell-agent''"
definition RoleDORuntime :: string where "RoleDORuntime = ''do-runtime''"
definition ProtoVersion :: string where "ProtoVersion = ''v1''"

definition SupportedProtoVersion :: "string \<Rightarrow> bool" where
  "SupportedProtoVersion v \<longleftrightarrow> v = [] \<or> v = ''v1''"

record Owner =
  Node :: string
  Role :: string
  Session :: string
  Epoch :: u64
  Expiry :: int
  Liveness :: string
  Address :: string
  AdminAddress :: string
  OwnerProto :: string

definition node_lease :: string where
  "node_lease = ''node-lease''"

definition Expired :: "Owner \<Rightarrow> time \<Rightarrow> bool" where
  "Expired o' now = (if Liveness o' = node_lease then False else UnixMilli now \<ge> Expiry o')"

text \<open>\<open>MarshalOwner\<close> fills in the protocol version before encoding; the JSON codec is a parameter.\<close>

definition MarshalOwner :: "(Owner \<Rightarrow> 'v) \<Rightarrow> Owner \<Rightarrow> 'v" where
  "MarshalOwner json o' = json (if OwnerProto o' = [] then o'\<lparr>OwnerProto := ProtoVersion\<rparr> else o')"

subsection \<open>do.go\<close>

definition DOShardCount :: nat where "DOShardCount = 16"

definition fnv_step :: "u32 \<Rightarrow> char \<Rightarrow> u32" where
  "fnv_step h c = (h XOR of_char c) * 0x01000193"

definition fnv1a :: "string \<Rightarrow> u32" where
  "fnv1a s = foldl fnv_step 0x811c9dc5 s"

definition DOShard :: "string \<Rightarrow> string \<Rightarrow> string \<Rightarrow> string \<Rightarrow> nat" where
  "DOShard ns worker cls i = unat (fnv1a (ns @ ''/'' @ worker @ ''/'' @ cls @ ''/'' @ i)) mod DOShardCount"

subsection \<open>peer.go\<close>

record PeerIdentity =
  PeerNode :: string
  PeerInstance :: string

subsection \<open>Properties\<close>

lemma UnixMilli_mono: "s \<le> t \<Longrightarrow> UnixMilli s \<le> UnixMilli t"
  by (simp add: UnixMilli_def zdiv_mono1)

lemma Validate_ok:
  "Validate s = Inr () \<longleftrightarrow>
     (\<forall>p\<in>{Namespace s, Class s, ScopeID s}.
        p \<noteq> [] \<and> CHR ''/'' \<notin> set p \<and> CHR 0x5C \<notin> set p \<and> \<not> traversal_part p)"
  by (auto simp: Validate_def Let_def)

lemma ScopeString_join: "ScopeString s = join_with (CHR ''/'') [Namespace s, Class s, ScopeID s]"
  by (simp add: ScopeString_def)

lemma ScopeString_split:
  "Validate s = Inr () \<Longrightarrow> split_on (CHR ''/'') (ScopeString s) = [Namespace s, Class s, ScopeID s]"
  unfolding ScopeString_join by (rule split_join) (auto simp: Validate_ok)

text \<open>A string parses to a scope exactly when the scope validates and the string is its canonical
  rendering: nothing but the canonical form of a valid scope is accepted, and every valid scope
  parses back to itself.\<close>

lemma parse_scope_iff:
  "ParseScope s = Inr sc \<longleftrightarrow> Validate sc = Inr () \<and> ScopeString sc = s"
proof
  assume p: "ParseScope s = Inr sc"
  then obtain ns cl i where sp: "split_on (CHR ''/'') s = [ns, cl, i]"
    by (auto simp: ParseScope_def split: list.splits)
  with p have sc: "sc = \<lparr>Namespace = ns, Class = cl, ScopeID = i\<rparr>" and v: "Validate sc = Inr ()"
    by (auto simp: ParseScope_def Let_def split: sum.splits)
  from sp have "join_with (CHR ''/'') [ns, cl, i] = s" by (metis join_split)
  with sc v show "Validate sc = Inr () \<and> ScopeString sc = s" by (simp add: ScopeString_def)
next
  assume a: "Validate sc = Inr () \<and> ScopeString sc = s"
  then have "split_on (CHR ''/'') s = [Namespace sc, Class sc, ScopeID sc]"
    using ScopeString_split by blast
  with a show "ParseScope s = Inr sc" by (cases sc) (simp add: ParseScope_def Let_def)
qed

lemma ScopeString_inj:
  assumes "Validate s = Inr ()" "Validate t = Inr ()" "ScopeString s = ScopeString t"
  shows "s = t"
  using ScopeString_split [OF assms(1)] ScopeString_split [OF assms(2)] assms(3) by simp

text \<open>Keys below two scopes coincide only when the scopes and the rests do.\<close>

lemma ScopeKey_split:
  assumes "Validate s = Inr ()" "Validate t = Inr ()" "ScopeKey s @ CHR ''/'' # x = ScopeKey t @ CHR ''/'' # y"
  shows "s = t \<and> x = y"
proof -
  have k: "split_on (CHR ''/'') (ScopeString s @ CHR ''/'' # x)
      = [Namespace s, Class s, ScopeID s] @ split_on (CHR ''/'') x"
    if "Validate s = Inr ()" for s x
    using that by (simp add: ScopeString_def split_on_append Validate_ok)
  from assms(3) have e: "ScopeString s @ CHR ''/'' # x = ScopeString t @ CHR ''/'' # y"
    by (simp add: ScopeKey_def)
  from e k [OF assms(1), of x] k [OF assms(2), of y] have "s = t" by simp
  with e show ?thesis by simp
qed

end
