(* ===== verification/Bucket.thy ===== *)
theory Bucket
  imports Cell
begin

text \<open>
  \<^verbatim>\<open>internal/bucket/bucket.go\<close>: the object-storage contract every coordination protocol is written
  against, and the form in which those protocols are modelled. A handler is a \<open>prog\<close>: a tree whose
  nodes are the bucket calls it makes and the accesses to its manager's memory, in the order of the
  code, with the rest of the handler as a function of the answer. \<open>run\<close> executes a handler alone;
  \<open>step\<close> interleaves any number of handlers of any number of managers over one bucket, with a clock
  that moves between steps, bucket calls that fail, and writes that take effect although the caller is
  told they failed.
\<close>

subsection \<open>The contract\<close>

datatype bucket_error = ErrNotFound | ErrPrecondition | ErrNotSupported | ErrOther string

text \<open>A bucket is a finite or infinite map from keys to object bodies. The entity tag of an object is
  a function of its body: the filesystem bucket hashes the content, S3 returns a content digest.\<close>

type_synonym 'v objects = "string \<Rightarrow> 'v option"

definition bucket_get :: "('v \<Rightarrow> 'e) \<Rightarrow> 'v objects \<Rightarrow> string \<Rightarrow> bucket_error + 'v \<times> 'e" where
  "bucket_get etag B k = (case B k of None \<Rightarrow> Inl ErrNotFound | Some v \<Rightarrow> Inr (v, etag v))"

definition bucket_put :: "('v \<Rightarrow> 'e) \<Rightarrow> 'v objects \<Rightarrow> string \<Rightarrow> 'v \<Rightarrow> 'e \<times> 'v objects" where
  "bucket_put etag B k v = (etag v, B(k \<mapsto> v))"

definition bucket_create ::
  "('v \<Rightarrow> 'e) \<Rightarrow> 'v objects \<Rightarrow> string \<Rightarrow> 'v \<Rightarrow> (bucket_error + 'e) \<times> 'v objects" where
  "bucket_create etag B k v =
     (case B k of None \<Rightarrow> (Inr (etag v), B(k \<mapsto> v)) | Some _ \<Rightarrow> (Inl ErrPrecondition, B))"

definition bucket_cas ::
  "('v \<Rightarrow> 'e) \<Rightarrow> 'v objects \<Rightarrow> string \<Rightarrow> 'v \<Rightarrow> 'e \<Rightarrow> (bucket_error + 'e) \<times> 'v objects" where
  "bucket_cas etag B k v e =
     (case B k of None \<Rightarrow> (Inl ErrNotFound, B)
      | Some w \<Rightarrow> if etag w = e then (Inr (etag v), B(k \<mapsto> v)) else (Inl ErrPrecondition, B))"

definition bucket_cdelete ::
  "('v \<Rightarrow> 'e) \<Rightarrow> 'v objects \<Rightarrow> string \<Rightarrow> 'e \<Rightarrow> (bucket_error + unit) \<times> 'v objects" where
  "bucket_cdelete etag B k e =
     (case B k of None \<Rightarrow> (Inl ErrPrecondition, B)
      | Some w \<Rightarrow> if etag w = e then (Inr (), B(k := None)) else (Inl ErrPrecondition, B))"

definition bucket_delete :: "'v objects \<Rightarrow> string \<Rightarrow> 'v objects" where
  "bucket_delete B k = B(k := None)"

text \<open>The keys under a prefix, in order.\<close>

definition bucket_list :: "'v objects \<Rightarrow> string \<Rightarrow> string list" where
  "bucket_list B p = sorted_list_of_set {k \<in> dom B. HasPrefix k p}"

subsection \<open>Handlers\<close>

text \<open>\<open>'v\<close> are object bodies, \<open>'e\<close> entity tags, \<open>'w\<close> the memory of the manager the handler belongs to,
  \<open>'r\<close> its result. \<open>Local f k\<close> is a critical section: it reads the clock and the memory, stores
  \<open>f now w\<close> and continues with \<open>k now w\<close>.\<close>

datatype ('v, 'e, 'w, 'r) prog =
    Return 'r
  | Get string "bucket_error + 'v \<times> 'e \<Rightarrow> ('v, 'e, 'w, 'r) prog"
  | Create string 'v "bucket_error + 'e \<Rightarrow> ('v, 'e, 'w, 'r) prog"
  | CAS string 'v 'e "bucket_error + 'e \<Rightarrow> ('v, 'e, 'w, 'r) prog"
  | CDelete string 'e "bucket_error + unit \<Rightarrow> ('v, 'e, 'w, 'r) prog"
  | Put string 'v "bucket_error + 'e \<Rightarrow> ('v, 'e, 'w, 'r) prog"
  | Delete string "bucket_error + unit \<Rightarrow> ('v, 'e, 'w, 'r) prog"
  | ListKeys string "bucket_error + string list \<Rightarrow> ('v, 'e, 'w, 'r) prog"
  | Local "time \<Rightarrow> 'w \<Rightarrow> 'w" "time \<Rightarrow> 'w \<Rightarrow> ('v, 'e, 'w, 'r) prog"

primrec bind :: "('v, 'e, 'w, 'r) prog \<Rightarrow> ('r \<Rightarrow> ('v, 'e, 'w, 's) prog) \<Rightarrow> ('v, 'e, 'w, 's) prog" where
  "bind (Return r) f = f r"
| "bind (Get k c) f = Get k (\<lambda>x. bind (c x) f)"
| "bind (Create k v c) f = Create k v (\<lambda>x. bind (c x) f)"
| "bind (CAS k v e c) f = CAS k v e (\<lambda>x. bind (c x) f)"
| "bind (CDelete k e c) f = CDelete k e (\<lambda>x. bind (c x) f)"
| "bind (Put k v c) f = Put k v (\<lambda>x. bind (c x) f)"
| "bind (Delete k c) f = Delete k (\<lambda>x. bind (c x) f)"
| "bind (ListKeys p c) f = ListKeys p (\<lambda>x. bind (c x) f)"
| "bind (Local u c) f = Local u (\<lambda>t w. bind (c t w) f)"

text \<open>A critical section with a result, and the early return of Go's \<^verbatim>\<open>if err != nil\<close>.\<close>

definition atomically :: "(time \<Rightarrow> 'w \<Rightarrow> 'a \<times> 'w) \<Rightarrow> ('v, 'e, 'w, 'a) prog" where
  "atomically f = Local (\<lambda>t w. snd (f t w)) (\<lambda>t w. Return (fst (f t w)))"

definition attempt :: "('v, 'e, 'w, 'x + 'a) prog \<Rightarrow> ('a \<Rightarrow> ('v, 'e, 'w, 'x + 'b) prog) \<Rightarrow> ('v, 'e, 'w, 'x + 'b) prog" where
  "attempt p f = bind p (\<lambda>r. case r of Inl e \<Rightarrow> Return (Inl e) | Inr x \<Rightarrow> f x)"

definition change :: "(time \<Rightarrow> 'w \<Rightarrow> 'w) \<Rightarrow> ('v, 'e, 'w, unit) prog" where
  "change f = atomically (\<lambda>t w. ((), f t w))"

definition now_is :: "('v, 'e, 'w, time) prog" where
  "now_is = atomically (\<lambda>t w. (t, w))"

text \<open>A handler run alone: the clock stands still, every call succeeds or fails as the contract says.\<close>

primrec run ::
  "('v \<Rightarrow> 'e) \<Rightarrow> time \<Rightarrow> ('v, 'e, 'w, 'r) prog \<Rightarrow> 'v objects \<Rightarrow> 'w \<Rightarrow> 'r \<times> 'v objects \<times> 'w" where
  "run etag now (Return r) B w = (r, B, w)"
| "run etag now (Get k c) B w = run etag now (c (bucket_get etag B k)) B w"
| "run etag now (Create k v c) B w =
     (case bucket_create etag B k v of (x, B') \<Rightarrow> run etag now (c x) B' w)"
| "run etag now (CAS k v e c) B w =
     (case bucket_cas etag B k v e of (x, B') \<Rightarrow> run etag now (c x) B' w)"
| "run etag now (CDelete k e c) B w =
     (case bucket_cdelete etag B k e of (x, B') \<Rightarrow> run etag now (c x) B' w)"
| "run etag now (Put k v c) B w = (case bucket_put etag B k v of (x, B') \<Rightarrow> run etag now (c (Inr x)) B' w)"
| "run etag now (Delete k c) B w = run etag now (c (Inr ())) (bucket_delete B k) w"
| "run etag now (ListKeys p c) B w = run etag now (c (Inr (bucket_list B p))) B w"
| "run etag now (Local u c) B w = run etag now (c now w) B (u now w)"

lemma run_bind: "run etag now (bind p f) B w = (case run etag now p B w of (r, B', w') \<Rightarrow> run etag now (f r) B' w')"
proof (induction p arbitrary: B w)
  case (Local u c)
  then show ?case using Local.IH [OF rangeI rangeI] by simp
qed (auto split: prod.split)

text \<open>Records are stored as JSON. \<^verbatim>\<open>encoding/json\<close> is a parameter of the handlers that use it: how a
  record is rendered as an object body, and what a body decodes to (\<open>None\<close> on a decoding error). The
  code relies on its round trip, \<open>lawful\<close>.\<close>

record ('a, 'v) codec =
  marshal :: "'a \<Rightarrow> 'v"
  unmarshal :: "'v \<Rightarrow> 'a option"

definition lawful :: "('a, 'v) codec \<Rightarrow> bool" where
  "lawful J \<longleftrightarrow> (\<forall>x. unmarshal J (marshal J x) = Some x)"

lemma lawfulD [simp]: "lawful J \<Longrightarrow> unmarshal J (marshal J x) = Some x"
  by (simp add: lawful_def)

text \<open>\<open>forget p\<close> drops the result of a handler.\<close>

definition forget :: "('v, 'e, 'w, 'r) prog \<Rightarrow> ('v, 'e, 'w, unit) prog" where
  "forget p = bind p (\<lambda>_. Return ())"

subsection \<open>Keys\<close>

text \<open>Every key a handler can pass to a point operation satisfies \<open>P\<close>, every prefix it can list \<open>Q\<close>.\<close>

primrec confined :: "(string \<Rightarrow> bool) \<Rightarrow> (string \<Rightarrow> bool) \<Rightarrow> ('v, 'e, 'w, 'r) prog \<Rightarrow> bool" where
  "confined P Q (Return r) = True"
| "confined P Q (Get k c) = (P k \<and> (\<forall>x. confined P Q (c x)))"
| "confined P Q (Create k v c) = (P k \<and> (\<forall>x. confined P Q (c x)))"
| "confined P Q (CAS k v e c) = (P k \<and> (\<forall>x. confined P Q (c x)))"
| "confined P Q (CDelete k e c) = (P k \<and> (\<forall>x. confined P Q (c x)))"
| "confined P Q (Put k v c) = (P k \<and> (\<forall>x. confined P Q (c x)))"
| "confined P Q (Delete k c) = (P k \<and> (\<forall>x. confined P Q (c x)))"
| "confined P Q (ListKeys p c) = (Q p \<and> (\<forall>x. confined P Q (c x)))"
| "confined P Q (Local u c) = (\<forall>t w. confined P Q (c t w))"

lemma confined_bind: "confined P Q p \<Longrightarrow> (\<And>r. confined P Q (f r)) \<Longrightarrow> confined P Q (bind p f)"
  by (induction p) auto

lemma confined_mono:
  "confined P Q p \<Longrightarrow> (\<And>k. P k \<Longrightarrow> P' k) \<Longrightarrow> (\<And>k. Q k \<Longrightarrow> Q' k) \<Longrightarrow> confined P' Q' p"
  by (induction p) auto

subsection \<open>Implementations of the contract\<close>

text \<open>A handler run against an implementation of the bucket whose states are \<open>'s\<close>.\<close>

record ('s, 'v, 'e) bucket_ops =
  op_get :: "'s \<Rightarrow> string \<Rightarrow> bucket_error + 'v \<times> 'e"
  op_create :: "'s \<Rightarrow> string \<Rightarrow> 'v \<Rightarrow> (bucket_error + 'e) \<times> 's"
  op_cas :: "'s \<Rightarrow> string \<Rightarrow> 'v \<Rightarrow> 'e \<Rightarrow> (bucket_error + 'e) \<times> 's"
  op_cdelete :: "'s \<Rightarrow> string \<Rightarrow> 'e \<Rightarrow> (bucket_error + unit) \<times> 's"
  op_put :: "'s \<Rightarrow> string \<Rightarrow> 'v \<Rightarrow> (bucket_error + 'e) \<times> 's"
  op_delete :: "'s \<Rightarrow> string \<Rightarrow> (bucket_error + unit) \<times> 's"
  op_list :: "'s \<Rightarrow> string \<Rightarrow> bucket_error + string list"

primrec exec ::
  "('s, 'v, 'e) bucket_ops \<Rightarrow> time \<Rightarrow> ('v, 'e, 'w, 'r) prog \<Rightarrow> 's \<Rightarrow> 'w \<Rightarrow> 'r \<times> 's \<times> 'w" where
  "exec b now (Return r) s w = (r, s, w)"
| "exec b now (Get k c) s w = exec b now (c (op_get b s k)) s w"
| "exec b now (Create k v c) s w = (case op_create b s k v of (x, s') \<Rightarrow> exec b now (c x) s' w)"
| "exec b now (CAS k v e c) s w = (case op_cas b s k v e of (x, s') \<Rightarrow> exec b now (c x) s' w)"
| "exec b now (CDelete k e c) s w = (case op_cdelete b s k e of (x, s') \<Rightarrow> exec b now (c x) s' w)"
| "exec b now (Put k v c) s w = (case op_put b s k v of (x, s') \<Rightarrow> exec b now (c x) s' w)"
| "exec b now (Delete k c) s w = (case op_delete b s k of (x, s') \<Rightarrow> exec b now (c x) s' w)"
| "exec b now (ListKeys p c) s w = exec b now (c (op_list b s p)) s w"
| "exec b now (Local u c) s w = exec b now (c now w) s (u now w)"

text \<open>The contract: seen through \<open>abs\<close>, every operation on a key \<open>P\<close> and every listing of a prefix \<open>Q\<close> does
  what the abstract bucket does, and the invariant is kept.\<close>

locale bucket_impl =
  fixes etag :: "'v \<Rightarrow> 'e"
    and b :: "('s, 'v, 'e) bucket_ops"
    and laws :: bool
    and inv :: "'s \<Rightarrow> bool"
    and abs :: "'s \<Rightarrow> 'v objects"
    and P :: "string \<Rightarrow> bool"
    and Q :: "string \<Rightarrow> bool"
  assumes get: "laws \<Longrightarrow> inv s \<Longrightarrow> P k \<Longrightarrow> op_get b s k = bucket_get etag (abs s) k"
    and create: "laws \<Longrightarrow> inv s \<Longrightarrow> P k \<Longrightarrow> op_create b s k v = (x, s') \<Longrightarrow>
      inv s' \<and> bucket_create etag (abs s) k v = (x, abs s')"
    and cas: "laws \<Longrightarrow> inv s \<Longrightarrow> P k \<Longrightarrow> op_cas b s k v e = (x, s') \<Longrightarrow>
      inv s' \<and> bucket_cas etag (abs s) k v e = (x, abs s')"
    and cdelete: "laws \<Longrightarrow> inv s \<Longrightarrow> P k \<Longrightarrow> op_cdelete b s k e = (y, s') \<Longrightarrow>
      inv s' \<and> bucket_cdelete etag (abs s) k e = (y, abs s')"
    and put: "laws \<Longrightarrow> inv s \<Longrightarrow> P k \<Longrightarrow> op_put b s k v = (x, s') \<Longrightarrow>
      inv s' \<and> x = Inr (etag v) \<and> abs s' = (abs s)(k \<mapsto> v)"
    and delete: "laws \<Longrightarrow> inv s \<Longrightarrow> P k \<Longrightarrow> op_delete b s k = (y, s') \<Longrightarrow>
      inv s' \<and> y = Inr () \<and> abs s' = (abs s)(k := None)"
    and list: "laws \<Longrightarrow> inv s \<Longrightarrow> Q p \<Longrightarrow> op_list b s p = Inr (bucket_list (abs s) p)"
begin

text \<open>A handler cannot tell the implementation from the abstract bucket.\<close>

lemma exec_run:
  "laws \<Longrightarrow> inv s \<Longrightarrow> confined P Q p \<Longrightarrow> exec b now p s w = (r, s', w') \<Longrightarrow>
   inv s' \<and> run etag now p (abs s) w = (r, abs s', w')"
proof (induction p arbitrary: s w)
  case (Create k v c)
  obtain x t where "op_create b s k v = (x, t)" by fastforce
  with Create create [of s k v x t] show ?case by fastforce
next
  case (CAS k v e c)
  obtain x t where "op_cas b s k v e = (x, t)" by fastforce
  with CAS cas [of s k v e x t] show ?case by fastforce
next
  case (CDelete k e c)
  obtain x t where "op_cdelete b s k e = (x, t)" by fastforce
  with CDelete cdelete [of s k e x t] show ?case by fastforce
next
  case (Put k v c)
  obtain x t where "op_put b s k v = (x, t)" by fastforce
  with Put put [of s k v x t] show ?case by (fastforce simp: bucket_put_def)
next
  case (Delete k c)
  obtain x t where "op_delete b s k = (x, t)" by fastforce
  with Delete delete [of s k x t] show ?case by (fastforce simp: bucket_delete_def)
qed (fastforce simp: get list)+

end

subsection \<open>Interleaving\<close>

text \<open>The system: a clock, the bucket, and for every manager whether its process runs, its memory and its
  threads, each with what is left of its handler (\<open>None\<close> when it is idle). A manager stands for one
  process session: it is started once and does not come back. \<open>bucket_call\<close> describes one bucket call
  of a thread: what it answers and what it does to the bucket. A write that reports an error may or
  may not have been applied, and any error may be reported; a read either answers the truth or
  reports an error other than \<open>ErrNotFound\<close>.\<close>

datatype life = Unborn | Up | Dead

record ('v, 'e, 'w, 'r, 'm) system =
  clock :: time
  store :: "'v objects"
  life :: "'m \<Rightarrow> life"
  memory :: "'m \<Rightarrow> 'w"
  threads :: "'m \<Rightarrow> nat \<Rightarrow> ('v, 'e, 'w, 'r) prog option"

inductive bucket_call ::
  "('v \<Rightarrow> 'e) \<Rightarrow> 'v objects \<Rightarrow> ('v, 'e, 'w, 'r) prog \<Rightarrow> 'v objects \<Rightarrow> ('v, 'e, 'w, 'r) prog \<Rightarrow> bool"
  for etag :: "'v \<Rightarrow> 'e" and B :: "'v objects" where
  get: "bucket_call etag B (Get k c) B (c (bucket_get etag B k))"
| get_fails: "err \<noteq> ErrNotFound \<Longrightarrow> bucket_call etag B (Get k c) B (c (Inl err))"
| create: "bucket_create etag B k v = (x, B') \<Longrightarrow> bucket_call etag B (Create k v c) B' (c x)"
| create_fails: "bucket_call etag B (Create k v c) B (c (Inl err))"
| create_lost: "bucket_create etag B k v = (x, B') \<Longrightarrow> bucket_call etag B (Create k v c) B' (c (Inl err))"
| cas: "bucket_cas etag B k v e = (x, B') \<Longrightarrow> bucket_call etag B (CAS k v e c) B' (c x)"
| cas_fails: "bucket_call etag B (CAS k v e c) B (c (Inl err))"
| cas_lost: "bucket_cas etag B k v e = (x, B') \<Longrightarrow> bucket_call etag B (CAS k v e c) B' (c (Inl err))"
| cdelete: "bucket_cdelete etag B k e = (x, B') \<Longrightarrow> bucket_call etag B (CDelete k e c) B' (c x)"
| cdelete_fails: "bucket_call etag B (CDelete k e c) B (c (Inl err))"
| cdelete_lost:
    "bucket_cdelete etag B k e = (x, B') \<Longrightarrow> bucket_call etag B (CDelete k e c) B' (c (Inl err))"
| put: "bucket_call etag B (Put k v c) (B(k \<mapsto> v)) (c (Inr (etag v)))"
| put_fails: "bucket_call etag B (Put k v c) B (c (Inl err))"
| put_lost: "bucket_call etag B (Put k v c) (B(k \<mapsto> v)) (c (Inl err))"
| delete: "bucket_call etag B (Delete k c) (B(k := None)) (c (Inr ()))"
| delete_fails: "bucket_call etag B (Delete k c) B (c (Inl err))"
| delete_lost: "bucket_call etag B (Delete k c) (B(k := None)) (c (Inl err))"
| list: "bucket_call etag B (ListKeys p c) B (c (Inr (bucket_list B p)))"
| list_fails: "bucket_call etag B (ListKeys p c) B (c (Inl err))"

text \<open>What a manager may begin: its process, or a handler in a thread. \<open>starts S m a\<close> says which of these it may do in
  a state. A step is labelled with the manager that takes it, \<open>None\<close> for the passage of time.\<close>

datatype ('v, 'e, 'w, 'r) action = Boot | Run nat "('v, 'e, 'w, 'r) prog"

type_synonym ('v, 'e, 'w, 'r, 'm) starter =
  "('v, 'e, 'w, 'r, 'm) system \<Rightarrow> 'm \<Rightarrow> ('v, 'e, 'w, 'r) action \<Rightarrow> bool"

definition set_thread ::
  "'m \<Rightarrow> nat \<Rightarrow> ('v, 'e, 'w, 'r) prog option \<Rightarrow> ('v, 'e, 'w, 'r, 'm) system \<Rightarrow> ('v, 'e, 'w, 'r, 'm) system" where
  "set_thread m i p S = S\<lparr>threads := (threads S)(m := (threads S m)(i := p))\<rparr>"

inductive step ::
  "('v \<Rightarrow> 'e) \<Rightarrow> ('v, 'e, 'w, 'r, 'm) starter \<Rightarrow> 'm option \<Rightarrow>
   ('v, 'e, 'w, 'r, 'm) system \<Rightarrow> ('v, 'e, 'w, 'r, 'm) system \<Rightarrow> bool"
  for etag starts where
  tick: "clock S \<le> t \<Longrightarrow> step etag starts None S (S\<lparr>clock := t\<rparr>)"
| boot: "life S m = Unborn \<Longrightarrow> starts S m Boot \<Longrightarrow> step etag starts (Some m) S (S\<lparr>life := (life S)(m := Up)\<rparr>)"
| halt: "step etag starts (Some m) S
    (S\<lparr>life := (life S)(m := Dead), threads := (threads S)(m := (\<lambda>_. None))\<rparr>)"
| start: "life S m = Up \<Longrightarrow> threads S m i = None \<Longrightarrow> starts S m (Run i p) \<Longrightarrow>
    step etag starts (Some m) S (set_thread m i (Some p) S)"
| call: "threads S m i = Some p \<Longrightarrow> bucket_call etag (store S) p B' p' \<Longrightarrow>
    step etag starts (Some m) S (set_thread m i (Some p') (S\<lparr>store := B'\<rparr>))"
| local: "threads S m i = Some (Local u c) \<Longrightarrow>
    step etag starts (Some m) S
      (set_thread m i (Some (c (clock S) (memory S m)))
        (S\<lparr>memory := (memory S)(m := u (clock S) (memory S m))\<rparr>))"
| finish: "step etag starts (Some m) S (set_thread m i None S)"

lemma set_thread_simps [simp]:
  "clock (set_thread m i p S) = clock S" "store (set_thread m i p S) = store S"
  "life (set_thread m i p S) = life S" "memory (set_thread m i p S) = memory S"
  "threads (set_thread m i p S) = (threads S)(m := (threads S m)(i := p))"
  by (simp_all add: set_thread_def)

inductive reachable ::
  "('v \<Rightarrow> 'e) \<Rightarrow> ('v, 'e, 'w, 'r, 'm) starter \<Rightarrow>
   ('v, 'e, 'w, 'r, 'm) system \<Rightarrow> ('v, 'e, 'w, 'r, 'm) system \<Rightarrow> bool"
  for etag starts S where
  init: "reachable etag starts S S"
| more: "reachable etag starts S S' \<Longrightarrow> step etag starts a S' S'' \<Longrightarrow> reachable etag starts S S''"

text \<open>A handler run alone is one of the interleavings.\<close>

lemma reachable_trans:
  "reachable etag starts S' S'' \<Longrightarrow> reachable etag starts S S' \<Longrightarrow> reachable etag starts S S''"
  by (induction rule: reachable.induct) (auto intro: reachable.more)

lemma step_reachable: "step etag starts a S S' \<Longrightarrow> reachable etag starts S S'"
  by (rule reachable.more [OF reachable.init])

lemma call_reachable:
  assumes "threads S m i = Some p" "bucket_call etag (store S) p B' p'"
  shows "reachable etag starts S (set_thread m i (Some p') (S\<lparr>store := B'\<rparr>))"
  by (rule step_reachable [OF step.call [OF assms]])

definition after_run ::
  "'m \<Rightarrow> nat \<Rightarrow> 'r \<Rightarrow> 'v objects \<Rightarrow> 'w \<Rightarrow> ('v, 'e, 'w, 'r, 'm) system \<Rightarrow> ('v, 'e, 'w, 'r, 'm) system" where
  "after_run m i r B w S = set_thread m i (Some (Return r)) (S\<lparr>store := B, memory := (memory S)(m := w)\<rparr>)"

lemma run_via_call:
  assumes "threads S m i = Some p" "bucket_call etag (store S) p B1 p1"
    and "run etag (clock S) p1 B1 (memory S m) = (r, B', w')"
    and IH: "\<And>S. threads S m i = Some p1 \<Longrightarrow> run etag (clock S) p1 (store S) (memory S m) = (r, B', w') \<Longrightarrow>
      reachable etag starts S (after_run m i r B' w' S)"
  shows "reachable etag starts S (after_run m i r B' w' S)"
proof -
  let ?S = "set_thread m i (Some p1) (S\<lparr>store := B1\<rparr>)"
  have "reachable etag starts ?S (after_run m i r B' w' ?S)" using assms(3) by (intro IH) simp_all
  moreover have "after_run m i r B' w' ?S = after_run m i r B' w' S"
    by (simp add: after_run_def set_thread_def)
  ultimately show ?thesis using call_reachable [OF assms(1,2)] by (auto intro: reachable_trans)
qed

lemma run_reachable:
  "threads S m i = Some p \<Longrightarrow> run etag (clock S) p (store S) (memory S m) = (r, B', w') \<Longrightarrow>
   reachable etag starts S (after_run m i r B' w' S)"
proof (induction p arbitrary: S)
  case (Return x)
  then have "after_run m i r B' w' S = S"
    by (cases S) (auto simp: after_run_def set_thread_def fun_eq_iff)
  then show ?case by (simp add: reachable.init)
next
  case (Local u c)
  let ?S = "set_thread m i (Some (c (clock S) (memory S m))) (S\<lparr>memory := (memory S)(m := u (clock S) (memory S m))\<rparr>)"
  have "reachable etag starts ?S (after_run m i r B' w' ?S)"
    using Local.prems by (intro Local.IH [OF rangeI rangeI]) simp_all
  moreover have "after_run m i r B' w' ?S = after_run m i r B' w' S"
    by (simp add: after_run_def set_thread_def)
  ultimately show ?case
    using step_reachable [OF step.local [OF Local.prems(1)]] by (auto intro: reachable_trans)
next
  case (Get k c)
  then show ?case by (intro run_via_call [OF Get.prems(1) bucket_call.get _ Get.IH [OF rangeI]]) simp_all
next
  case (Create k v c)
  obtain x B1 where x: "bucket_create etag (store S) k v = (x, B1)" by fastforce
  with Create.prems show ?case
    by (intro run_via_call [OF Create.prems(1) bucket_call.create [OF x] _ Create.IH [OF rangeI]]) simp_all
next
  case (CAS k v e c)
  obtain x B1 where x: "bucket_cas etag (store S) k v e = (x, B1)" by fastforce
  with CAS.prems show ?case
    by (intro run_via_call [OF CAS.prems(1) bucket_call.cas [OF x] _ CAS.IH [OF rangeI]]) simp_all
next
  case (CDelete k e c)
  obtain x B1 where x: "bucket_cdelete etag (store S) k e = (x, B1)" by fastforce
  with CDelete.prems show ?case
    by (intro run_via_call [OF CDelete.prems(1) bucket_call.cdelete [OF x] _ CDelete.IH [OF rangeI]]) simp_all
next
  case (Put k v c)
  then show ?case
    by (intro run_via_call [OF Put.prems(1) bucket_call.put _ Put.IH [OF rangeI]]) (simp_all add: bucket_put_def fun_upd_def)
next
  case (Delete k c)
  then show ?case
    by (intro run_via_call [OF Delete.prems(1) bucket_call.delete _ Delete.IH [OF rangeI]])
       (simp_all add: bucket_delete_def fun_upd_def)
next
  case (ListKeys p c)
  then show ?case by (intro run_via_call [OF ListKeys.prems(1) bucket_call.list _ ListKeys.IH [OF rangeI]]) simp_all
qed

text \<open>The states before any handler runs.\<close>

definition idle :: "('v, 'e, 'w, 'r, 'm) system \<Rightarrow> bool" where
  "idle S \<longleftrightarrow> (\<forall>m i. threads S m i = None)"

subsection \<open>Guarded objects\<close>

text \<open>A handler is \<open>guarded\<close> at a time by a relation on the versions of each object when every
  conditional write it can issue from then on, whatever the answers and however late, moves the
  object along the relation: a create from absence, a compare-and-swap from the only body with the
  expected tag.\<close>

primrec guarded ::
  "('v \<Rightarrow> 'e) \<Rightarrow> (time \<Rightarrow> string \<Rightarrow> 'v option \<Rightarrow> 'v option \<Rightarrow> bool) \<Rightarrow> time \<Rightarrow> ('v, 'e, 'w, 'r) prog \<Rightarrow> bool" where
  "guarded etag R now (Return r) = True"
| "guarded etag R now (Get k c) =
     ((\<forall>err. guarded etag R now (c (Inl err))) \<and> (\<forall>v. guarded etag R now (c (Inr (v, etag v)))))"
| "guarded etag R now (Create k v c) = (R now k None (Some v) \<and> (\<forall>x. guarded etag R now (c x)))"
| "guarded etag R now (CAS k v e c) =
     ((\<forall>w. etag w = e \<longrightarrow> R now k (Some w) (Some v)) \<and> (\<forall>x. guarded etag R now (c x)))"
| "guarded etag R now (CDelete k e c) =
     ((\<forall>w. etag w = e \<longrightarrow> R now k (Some w) None) \<and> (\<forall>x. guarded etag R now (c x)))"
| "guarded etag R now (Put k v c) = ((\<forall>u. R now k u (Some v)) \<and> (\<forall>x. guarded etag R now (c x)))"
| "guarded etag R now (Delete k c) = ((\<forall>u. R now k u None) \<and> (\<forall>x. guarded etag R now (c x)))"
| "guarded etag R now (ListKeys p c) = (\<forall>x. guarded etag R now (c x))"
| "guarded etag R now (Local u c) = (\<forall>t\<ge>now. \<forall>w. guarded etag R t (c t w))"

lemma bucket_get_cases:
  "bucket_get etag B k = Inl ErrNotFound \<or> (\<exists>v. bucket_get etag B k = Inr (v, etag v))"
  by (simp add: bucket_get_def split: option.splits)

lemma guarded_call:
  assumes "bucket_call etag B p B' p'" "guarded etag R now p"
  shows "guarded etag R now p'" "B' k = B k \<or> R now k (B k) (B' k)"
proof -
  show "guarded etag R now p'"
    using assms bucket_get_cases [of etag B] by (cases rule: bucket_call.cases) (auto, metis)
  show "B' k = B k \<or> R now k (B k) (B' k)"
    using assms by (cases rule: bucket_call.cases)
      (auto simp: bucket_create_def bucket_cas_def bucket_cdelete_def split: option.splits if_splits)
qed

lemma guarded_bind:
  "guarded etag R now p \<Longrightarrow> \<forall>t\<ge>now. \<forall>r. guarded etag R t (f r) \<Longrightarrow> guarded etag R now (bind p f)"
proof (induction p arbitrary: now)
  case (Local u c)
  then show ?case by (simp, meson order_trans rangeI)
qed auto

lemma guarded_forget [simp]: "guarded etag R now p \<Longrightarrow> guarded etag R now (forget p)"
  unfolding forget_def by (rule guarded_bind) auto

text \<open>The interface between a protocol and its objects: under the laws of the storage and of the codecs
  it relies on, every handler a manager starts is guarded by that manager's relation, and what a
  manager may do does not shrink as time passes.\<close>

locale guarded_protocol =
  fixes etag :: "'v \<Rightarrow> 'e"
    and starts :: "('v, 'e, 'w, 'r, 'm) starter"
    and laws :: bool
    and R :: "'m \<Rightarrow> time \<Rightarrow> string \<Rightarrow> 'v option \<Rightarrow> 'v option \<Rightarrow> bool"
  assumes R_mono: "R m t k x y \<Longrightarrow> t \<le> t' \<Longrightarrow> R m t' k x y"
    and starts_guarded: "laws \<Longrightarrow> starts S m (Run i p) \<Longrightarrow> guarded etag (R m) (clock S) p"
begin

lemma guarded_mono: "guarded etag (R m) t p \<Longrightarrow> t \<le> t' \<Longrightarrow> guarded etag (R m) t' p"
proof (induction p arbitrary: t t')
  case (Local u c)
  then show ?case by (meson guarded.simps(9) order_trans)
qed (simp_all, (blast intro: R_mono)+)

definition all_guarded :: "('v, 'e, 'w, 'r, 'm) system \<Rightarrow> bool" where
  "all_guarded S \<longleftrightarrow> (\<forall>m i p. threads S m i = Some p \<longrightarrow> guarded etag (R m) (clock S) p)"

lemma idle_all_guarded: "idle S \<Longrightarrow> all_guarded S"
  by (simp add: idle_def all_guarded_def)

lemma step_all_guarded: "step etag starts a S S' \<Longrightarrow> laws \<Longrightarrow> all_guarded S \<Longrightarrow> all_guarded S'"
proof (induction rule: step.induct)
  case (tick S t)
  then show ?case by (auto simp: all_guarded_def intro: guarded_mono)
next
  case (start S m i p)
  then show ?case using starts_guarded by (auto simp: all_guarded_def)
next
  case (call S m i p B' p')
  then have "guarded etag (R m) (clock S) p" by (auto simp: all_guarded_def)
  note guarded_call(1) [OF call(2) this]
  with call show ?case by (auto simp: all_guarded_def)
next
  case (local S m i u c)
  then have "guarded etag (R m) (clock S) (Local u c)" unfolding all_guarded_def by blast
  then have "guarded etag (R m) (clock S) (c (clock S) (memory S m))" by simp
  with local show ?case by (auto simp: all_guarded_def)
qed (auto simp: all_guarded_def)

text \<open>One step: an object is left alone, or moved along the relation of the manager that takes it.\<close>

lemma step_moves:
  "step etag starts a S S' \<Longrightarrow> all_guarded S \<Longrightarrow>
    store S' k = store S k \<or> (\<exists>m. a = Some m \<and> R m (clock S) k (store S k) (store S' k))"
proof (induction rule: step.induct)
  case (call S m i p B' p')
  then have "guarded etag (R m) (clock S) p" by (auto simp: all_guarded_def)
  from guarded_call(2) [OF call(2) this] show ?case by auto
qed simp_all

lemma reachable_all_guarded: "reachable etag starts S S' \<Longrightarrow> laws \<Longrightarrow> all_guarded S \<Longrightarrow> all_guarded S'"
  by (induction rule: reachable.induct) (auto intro: step_all_guarded)

text \<open>The history of an object is a chain of moves.\<close>

lemma reachable_moves:
  "reachable etag starts S S' \<Longrightarrow> laws \<Longrightarrow> all_guarded S \<Longrightarrow> (\<lambda>x y. \<exists>m t. R m t k x y)\<^sup>*\<^sup>* (store S k) (store S' k)"
proof (induction rule: reachable.induct)
  case (more S' a S'')
  then have g: "all_guarded S'" using reachable_all_guarded by blast
  from step_moves [OF more.hyps(2) g, of k] more show ?case
    by (metis (mono_tags, lifting) rtranclp.rtrancl_into_rtrancl)
qed simp

end

end
