(* ===== verification/Token.thy ===== *)
theory Token
  imports Bucket
begin

text \<open>
  The contract shared by the fleet's expiring tokens (the drain token and the waker lease): a single
  bucket object names a holder and a deadline. A manager may take the token when it is absent, its own
  or past its deadline, and may only delete its own.
\<close>

definition Milliseconds :: "int \<Rightarrow> int" where
  "Milliseconds d = (if 0 \<le> d then d div 1000000 else - (- d div 1000000))"

text \<open>What a manager identified by \<open>me\<close> may do to the token at time \<open>now\<close>.\<close>

definition token_moves ::
  "string \<Rightarrow> ('v \<Rightarrow> 'tok option) \<Rightarrow> ('tok \<Rightarrow> string \<times> string) \<Rightarrow> ('tok \<Rightarrow> int) \<Rightarrow> string \<times> string \<Rightarrow>
   time \<Rightarrow> string \<Rightarrow> 'v option \<Rightarrow> 'v option \<Rightarrow> bool" where
  "token_moves key parse holder expires me now k x y \<longleftrightarrow>
     k = key
     \<and> (\<forall>u. x = Some u \<longrightarrow> (\<exists>tok. parse u = Some tok \<and> (holder tok = me \<or> expires tok \<le> UnixMilli now)))
     \<and> (case y of Some v \<Rightarrow> \<exists>tok. parse v = Some tok \<and> holder tok = me
        | None \<Rightarrow> \<exists>u tok. x = Some u \<and> parse u = Some tok \<and> holder tok = me)"

locale expiring_token =
  fixes etag :: "'v \<Rightarrow> 'e"
    and starts :: "('v, 'e, 'w, 'r, 'm) starter"
    and key :: string
    and J :: "('tok, 'v) codec"
    and holder :: "'tok \<Rightarrow> string \<times> string"
    and expires :: "'tok \<Rightarrow> int"
    and me :: "'m \<Rightarrow> string \<times> string"
  assumes handlers:
    "inj etag \<and> lawful J \<Longrightarrow> starts S m (Run i p) \<Longrightarrow>
      guarded etag (token_moves key (unmarshal J) holder expires (me m)) (clock S) p"

sublocale expiring_token \<subseteq>
  guarded_protocol etag starts "inj etag \<and> lawful J" "\<lambda>m. token_moves key (unmarshal J) holder expires (me m)"
proof
  fix m t k x y and t' :: time
  assume "token_moves key (unmarshal J) holder expires (me m) t k x y" "t \<le> t'"
  then show "token_moves key (unmarshal J) holder expires (me m) t' k x y"
    using UnixMilli_mono [of t t'] unfolding token_moves_def by fastforce
qed (rule handlers)

context expiring_token
begin

text \<open>A live token is not touched by anyone but its holder.\<close>

lemma live_token_kept:
  assumes "inj etag" "lawful J" "reachable etag starts S\<^sub>0 S" "idle S\<^sub>0" "step etag starts (Some m) S S'"
    and "store S key = Some (marshal J tok)" "holder tok \<noteq> me m" "UnixMilli (clock S) < expires tok"
  shows "store S' key = store S key"
proof -
  have "all_guarded S" using assms(1-4) reachable_all_guarded idle_all_guarded by blast
  from step_moves [OF assms(5) this, of key] assms show ?thesis
    by (auto simp: token_moves_def)
qed

text \<open>No other object is touched.\<close>

lemma other_keys_kept:
  "reachable etag starts S\<^sub>0 S \<Longrightarrow> inj etag \<Longrightarrow> lawful J \<Longrightarrow> idle S\<^sub>0 \<Longrightarrow> k \<noteq> key \<Longrightarrow> store S k = store S\<^sub>0 k"
proof (induction rule: reachable.induct)
  case (more S' a S'')
  then have "all_guarded S'" using reachable_all_guarded idle_all_guarded by blast
  from step_moves [OF more.hyps(2) this, of k] more show ?case by (auto simp: token_moves_def)
qed simp

end

end
