(* ===== verification/Drain.thy ===== *)
theory Drain
  imports Token
begin

text \<open>
  \<^verbatim>\<open>internal/drain/drain.go\<close>: the token that serialises node shutdowns. The handlers are \<open>holder\<close>,
  \<open>Acquire\<close>, \<open>Wait\<close> and \<open>Release\<close>; the instant \<open>now()\<close> is read where the code reads it.
\<close>

definition TokenKey :: string where "TokenKey = ''fleet/drain-token.json''"
definition DefaultTTL :: int where "DefaultTTL = 30000000000"
definition DefaultRetryDelay :: int where "DefaultRetryDelay = 5000000000"

record Token =
  TokNode :: string
  TokSession :: string
  ExpiresMs :: int
  UpdatedMs :: int

definition TokenLive :: "Token \<Rightarrow> int \<Rightarrow> bool" where
  "TokenLive t nowMs \<longleftrightarrow> nowMs < ExpiresMs t"

record Manager =
  NodeID :: string
  MSession :: string
  TTL :: int
  RetryDelay :: int

definition New :: "string \<Rightarrow> string \<Rightarrow> int \<Rightarrow> int \<Rightarrow> Manager" where
  "New nodeID session ttl retryDelay =
     \<lparr>NodeID = nodeID, MSession = session, TTL = (if ttl \<le> 0 then DefaultTTL else ttl),
      RetryDelay = (if retryDelay \<le> 0 then DefaultRetryDelay else retryDelay)\<rparr>"

datatype drain_error = BucketErr bucket_error | ErrDecode | ErrCanceled

type_synonym ('v, 'e, 'w, 'a) handler = "('v, 'e, 'w, drain_error + 'a) prog"

definition holder :: "(Token, 'v) codec \<Rightarrow> ('v, 'e, 'w, (Token \<times> 'e) option) handler" where
  "holder J =
     Get TokenKey (\<lambda>x. case x of
         Inl ErrNotFound \<Rightarrow> Return (Inr None)
       | Inl err \<Rightarrow> Return (Inl (BucketErr err))
       | Inr (data, etag) \<Rightarrow>
           (case unmarshal J data of
              None \<Rightarrow> Return (Inl ErrDecode)
            | Some t \<Rightarrow> Return (Inr (Some (t, etag)))))"

definition Holder :: "(Token, 'v) codec \<Rightarrow> ('v, 'e, 'w, Token option) handler" where
  "Holder J = bind (holder J) (\<lambda>r. case r of Inl e \<Rightarrow> Return (Inl e) | Inr x \<Rightarrow> Return (Inr (map_option fst x)))"

text \<open>The answer to a conditional write of the token: a lost race is \<open>false\<close>, not an error.\<close>

definition won :: "bucket_error + 'e \<Rightarrow> drain_error + bool" where
  "won x = (case x of Inr _ \<Rightarrow> Inr True | Inl ErrPrecondition \<Rightarrow> Inr False | Inl err \<Rightarrow> Inl (BucketErr err))"

definition token_of :: "Manager \<Rightarrow> time \<Rightarrow> Token" where
  "token_of m t =
     (let now = UnixMilli t in
      \<lparr>TokNode = NodeID m, TokSession = MSession m, ExpiresMs = now + Milliseconds (TTL m), UpdatedMs = now\<rparr>)"

definition Acquire :: "(Token, 'v) codec \<Rightarrow> Manager \<Rightarrow> ('v, 'e, 'w, bool) handler" where
  "Acquire J m =
     Local (\<lambda>_ w. w) (\<lambda>t _.
       let now = UnixMilli t; data = marshal J (token_of m t) in
       bind (holder J) (\<lambda>r. case r of
           Inl e \<Rightarrow> Return (Inl e)
         | Inr None \<Rightarrow> Create TokenKey data (\<lambda>x. Return (won x))
         | Inr (Some (cur, etag)) \<Rightarrow>
             if TokNode cur = NodeID m \<and> TokSession cur = MSession m
             then CAS TokenKey data etag (\<lambda>x. Return (won x))
             else if TokenLive cur now then Return (Inr False)
             else CAS TokenKey data etag (\<lambda>x. Return (won x))))"

text \<open>\<open>Wait\<close> retries until the context is done; \<open>n\<close> is how many retry delays fit before that.\<close>

primrec Wait :: "nat \<Rightarrow> (Token, 'v) codec \<Rightarrow> Manager \<Rightarrow> ('v, 'e, 'w, unit) handler" where
  "Wait 0 J m =
     bind (Acquire J m) (\<lambda>r. case r of
         Inl e \<Rightarrow> Return (Inl e) | Inr ok \<Rightarrow> Return (if ok then Inr () else Inl ErrCanceled))"
| "Wait (Suc n) J m =
     bind (Acquire J m) (\<lambda>r. case r of
         Inl e \<Rightarrow> Return (Inl e) | Inr ok \<Rightarrow> if ok then Return (Inr ()) else Wait n J m)"

definition Release :: "(Token, 'v) codec \<Rightarrow> Manager \<Rightarrow> ('v, 'e, 'w, unit) handler" where
  "Release J m =
     bind (holder J) (\<lambda>r. case r of
         Inl e \<Rightarrow> Return (Inl e)
       | Inr None \<Rightarrow> Return (Inr ())
       | Inr (Some (cur, _)) \<Rightarrow>
           if TokNode cur \<noteq> NodeID m \<or> TokSession cur \<noteq> MSession m then Return (Inr ())
           else Get TokenKey (\<lambda>y. case y of
               Inl ErrNotFound \<Rightarrow> Return (Inr ())
             | Inl err \<Rightarrow> Return (Inl (BucketErr err))
             | Inr (data, etag) \<Rightarrow>
                 (case unmarshal J data of
                    None \<Rightarrow> Return (Inl ErrDecode)
                  | Some latest \<Rightarrow>
                      if TokNode latest \<noteq> NodeID m \<or> TokSession latest \<noteq> MSession m then Return (Inr ())
                      else CDelete TokenKey etag (\<lambda>z. case z of
                          Inl ErrPrecondition \<Rightarrow> Return (Inr ())
                        | Inl err \<Rightarrow> Return (Inl (BucketErr err))
                        | Inr _ \<Rightarrow> Return (Inr ())))))"

text \<open>What a drain manager runs.\<close>

inductive drain_starts ::
  "(Token, 'v) codec \<Rightarrow> ('v, 'e, 'w, unit, Manager) starter" for J where
  boot: "drain_starts J S m Boot"
| acquire: "drain_starts J S m (Run i (forget (Acquire J m)))"
| wait: "drain_starts J S m (Run i (forget (Wait n J m)))"
| release: "drain_starts J S m (Run i (forget (Release J m)))"

subsection \<open>The handlers follow the token contract\<close>

abbreviation drain_moves where
  "drain_moves J m \<equiv>
     token_moves TokenKey (unmarshal J) (\<lambda>t. (TokNode t, TokSession t)) ExpiresMs (NodeID m, MSession m)"

lemma token_of_simps [simp]:
  "TokNode (token_of m t) = NodeID m" "TokSession (token_of m t) = MSession m"
  "ExpiresMs (token_of m t) = UnixMilli t + Milliseconds (TTL m)" "UpdatedMs (token_of m t) = UnixMilli t"
  by (simp_all add: token_of_def Let_def)

lemma Acquire_guarded: "inj etag \<Longrightarrow> lawful J \<Longrightarrow> guarded etag (drain_moves J m) now (Acquire J m)"
  by (auto simp: Acquire_def holder_def token_moves_def TokenLive_def Let_def inj_eq
      split: bucket_error.splits option.splits)

lemma Wait_guarded: "inj etag \<Longrightarrow> lawful J \<Longrightarrow> guarded etag (drain_moves J m) now (Wait n J m)"
proof (induction n arbitrary: now)
  case 0
  then show ?case by (auto intro!: guarded_bind Acquire_guarded split: sum.splits)
next
  case (Suc n)
  then show ?case by (auto intro!: guarded_bind Acquire_guarded split: sum.splits)
qed

lemma Release_guarded: "inj etag \<Longrightarrow> guarded etag (drain_moves J m) now (Release J m)"
  by (auto simp: Release_def holder_def token_moves_def inj_eq
      split: bucket_error.splits option.splits sum.splits)

interpretation drain: expiring_token etag "drain_starts J" TokenKey J "\<lambda>t. (TokNode t, TokSession t)" ExpiresMs
  "\<lambda>m. (NodeID m, MSession m)" for etag J
  by unfold_locales (auto elim!: drain_starts.cases simp: Acquire_guarded Wait_guarded Release_guarded)

text \<open>C29: While the drain token of a node session is unexpired, no handler of another session changes it,
  however the handlers of the fleet interleave, fail or have their answers lost.\<close>

theorem drain_token_exclusive:
  assumes "inj etag" "lawful J" "idle S\<^sub>0" "reachable etag (drain_starts J) S\<^sub>0 S"
    and "step etag (drain_starts J) (Some m) S S'"
    and "store S TokenKey = Some (marshal J tok)" "TokenLive tok (UnixMilli (clock S))"
    and "(TokNode tok, TokSession tok) \<noteq> (NodeID m, MSession m)"
  shows "store S' TokenKey = store S TokenKey"
  using drain.live_token_kept [OF assms(1,2,4,3,5,6)] assms(7,8) by (simp add: TokenLive_def)

text \<open>A fleet in which node \<open>a\<close> holds the token until 30 s and node \<open>b\<close> starts acquiring it.\<close>

definition drain_demo_codec :: "(Token, Token) codec" where
  "drain_demo_codec = \<lparr>marshal = id, unmarshal = Some\<rparr>"

definition drain_demo_token :: Token where
  "drain_demo_token = token_of (New ''a'' ''s1'' 0 0) 0"

definition drain_demo_fleet :: "(Token, Token, unit, unit, Manager) system" where
  "drain_demo_fleet = \<lparr>clock = 1000000000, store = [TokenKey \<mapsto> drain_demo_token], life = (\<lambda>_. Up), memory = (\<lambda>_. ()), threads = (\<lambda>_ _. None)\<rparr>"

definition drain_demo_started :: "(Token, Token, unit, unit, Manager) system" where
  "drain_demo_started =
     set_thread (New ''b'' ''s2'' 0 0) 0 (Some (forget (Acquire drain_demo_codec (New ''b'' ''s2'' 0 0)))) drain_demo_fleet"

theorem drain_token_exclusive_witness:
  "idle drain_demo_fleet \<and> reachable id (drain_starts drain_demo_codec) drain_demo_fleet drain_demo_started
   \<and> TokenLive drain_demo_token (UnixMilli (clock drain_demo_started))
   \<and> (\<exists>S'. step id (drain_starts drain_demo_codec) (Some (New ''b'' ''s2'' 0 0)) drain_demo_started S'
        \<and> store S' TokenKey = store drain_demo_started TokenKey)"
proof -
  let ?m = "New ''b'' ''s2'' 0 0"
  have i: "idle drain_demo_fleet" by (simp add: idle_def drain_demo_fleet_def)
  have st: "step id (drain_starts drain_demo_codec) (Some ?m) drain_demo_fleet drain_demo_started"
    unfolding drain_demo_started_def by (rule step.start) (simp_all add: drain_starts.acquire drain_demo_fleet_def)
  then have r: "reachable id (drain_starts drain_demo_codec) drain_demo_fleet drain_demo_started"
    by (rule reachable.more [OF reachable.init])
  have l: "TokenLive drain_demo_token (UnixMilli (clock drain_demo_started))"
    by (simp add: TokenLive_def drain_demo_token_def drain_demo_started_def drain_demo_fleet_def New_def DefaultTTL_def
        UnixMilli_def Milliseconds_def)
  have t: "threads drain_demo_started ?m 0 = Some (forget (Acquire drain_demo_codec ?m))"
    by (simp add: drain_demo_started_def)
  obtain S' where s: "step id (drain_starts drain_demo_codec) (Some ?m) drain_demo_started S'"
    using step.local [OF t [unfolded forget_def Acquire_def bind.simps]] by blast
  have "store S' TokenKey = store drain_demo_started TokenKey"
    by (rule drain_token_exclusive [OF _ _ i r s _ l])
       (simp_all add: drain_demo_codec_def lawful_def drain_demo_started_def drain_demo_fleet_def drain_demo_token_def New_def)
  with i r l s show ?thesis by blast
qed

text \<open>Run on its own, \<open>Acquire\<close> takes the token exactly when it is absent, its own or expired, says so,
  writes nothing otherwise, and reports an undecodable token as an error.\<close>

lemma drain_acquire_result:
  "run etag now (Acquire J m) B w =
     (case B TokenKey of
        None \<Rightarrow> (Inr True, B(TokenKey \<mapsto> marshal J (token_of m now)), w)
      | Some v \<Rightarrow>
          (case unmarshal J v of
             None \<Rightarrow> (Inl ErrDecode, B, w)
           | Some cur \<Rightarrow>
               if (TokNode cur, TokSession cur) \<noteq> (NodeID m, MSession m) \<and> TokenLive cur (UnixMilli now)
               then (Inr False, B, w)
               else (Inr True, B(TokenKey \<mapsto> marshal J (token_of m now)), w)))"
  by (simp add: Acquire_def holder_def won_def bucket_get_def bucket_create_def bucket_cas_def Let_def
      split: option.splits)

end
