(* ===== verification/Waker.thy ===== *)
theory Waker
  imports Token
begin

text \<open>
  \<^verbatim>\<open>internal/waker/election.go\<close>: the lease that elects the single fleet waker. It follows the same
  token contract as the drain token; \<open>StepDown\<close> binds its delete to the version it read.
\<close>

definition Key :: string where "Key = ''fleet/waker.json''"
definition DefaultTTL :: int where "DefaultTTL = 10000000000"

record Lease =
  LNode :: string
  LSession :: string
  LExpiresMs :: int
  LUpdatedMs :: int

definition LeaseLive :: "Lease \<Rightarrow> int \<Rightarrow> bool" where
  "LeaseLive l nowMs \<longleftrightarrow> nowMs < LExpiresMs l"

record Election =
  ENodeID :: string
  ESession :: string
  ETTL :: int

definition NewElection :: "string \<Rightarrow> string \<Rightarrow> int \<Rightarrow> Election" where
  "NewElection nodeID session ttl =
     \<lparr>ENodeID = nodeID, ESession = session, ETTL = (if ttl \<le> 0 then DefaultTTL else ttl)\<rparr>"

datatype waker_error = BucketErr bucket_error | ErrDecode

type_synonym ('v, 'e, 'w, 'a) handler = "('v, 'e, 'w, waker_error + 'a) prog"

definition holder :: "(Lease, 'v) codec \<Rightarrow> ('v, 'e, 'w, (Lease \<times> 'e) option) handler" where
  "holder J =
     Get Key (\<lambda>x. case x of
         Inl ErrNotFound \<Rightarrow> Return (Inr None)
       | Inl err \<Rightarrow> Return (Inl (BucketErr err))
       | Inr (data, etag) \<Rightarrow>
           (case unmarshal J data of
              None \<Rightarrow> Return (Inl ErrDecode)
            | Some l \<Rightarrow> Return (Inr (Some (l, etag)))))"

definition Holder :: "(Lease, 'v) codec \<Rightarrow> ('v, 'e, 'w, Lease option) handler" where
  "Holder J = bind (holder J) (\<lambda>r. case r of Inl e \<Rightarrow> Return (Inl e) | Inr x \<Rightarrow> Return (Inr (map_option fst x)))"

definition won :: "bucket_error + 'e \<Rightarrow> waker_error + bool" where
  "won x = (case x of Inr _ \<Rightarrow> Inr True | Inl ErrPrecondition \<Rightarrow> Inr False | Inl err \<Rightarrow> Inl (BucketErr err))"

definition lease_of :: "Election \<Rightarrow> time \<Rightarrow> Lease" where
  "lease_of el t =
     (let now = UnixMilli t in
      \<lparr>LNode = ENodeID el, LSession = ESession el, LExpiresMs = now + Milliseconds (ETTL el), LUpdatedMs = now\<rparr>)"

definition Acquire :: "(Lease, 'v) codec \<Rightarrow> Election \<Rightarrow> ('v, 'e, 'w, bool) handler" where
  "Acquire J el =
     Local (\<lambda>_ w. w) (\<lambda>t _.
       let now = UnixMilli t; data = marshal J (lease_of el t) in
       bind (holder J) (\<lambda>r. case r of
           Inl e \<Rightarrow> Return (Inl e)
         | Inr None \<Rightarrow> Create Key data (\<lambda>x. Return (won x))
         | Inr (Some (cur, etag)) \<Rightarrow>
             if LNode cur = ENodeID el \<and> LSession cur = ESession el
             then CAS Key data etag (\<lambda>x. Return (won x))
             else if LeaseLive cur now then Return (Inr False)
             else CAS Key data etag (\<lambda>x. Return (won x))))"

definition StepDown :: "(Lease, 'v) codec \<Rightarrow> Election \<Rightarrow> ('v, 'e, 'w, unit) handler" where
  "StepDown J el =
     bind (holder J) (\<lambda>r. case r of
         Inl e \<Rightarrow> Return (Inl e)
       | Inr None \<Rightarrow> Return (Inr ())
       | Inr (Some (cur, tag)) \<Rightarrow>
           if LNode cur \<noteq> ENodeID el \<or> LSession cur \<noteq> ESession el then Return (Inr ())
           else CDelete Key tag (\<lambda>z. case z of
               Inl ErrPrecondition \<Rightarrow> Return (Inr ())
             | Inl err \<Rightarrow> Return (Inl (BucketErr err))
             | Inr _ \<Rightarrow> Return (Inr ())))"

inductive waker_starts ::
  "(Lease, 'v) codec \<Rightarrow> ('v, 'e, 'w, unit, Election) starter" for J where
  boot: "waker_starts J S m Boot"
| acquire: "waker_starts J S el (Run i (forget (Acquire J el)))"
| step_down: "waker_starts J S el (Run i (forget (StepDown J el)))"

subsection \<open>The handlers follow the token contract\<close>

abbreviation waker_moves where
  "waker_moves J el \<equiv>
     token_moves Key (unmarshal J) (\<lambda>l. (LNode l, LSession l)) LExpiresMs (ENodeID el, ESession el)"

lemma election_lease_simps [simp]:
  "LNode (lease_of m t) = ENodeID m" "LSession (lease_of m t) = ESession m"
  "LExpiresMs (lease_of m t) = UnixMilli t + Milliseconds (ETTL m)" "LUpdatedMs (lease_of m t) = UnixMilli t"
  by (simp_all add: lease_of_def Let_def)

lemma Election_Acquire_guarded: "inj etag \<Longrightarrow> lawful J \<Longrightarrow> guarded etag (waker_moves J el) now (Acquire J el)"
  by (auto simp: Acquire_def holder_def token_moves_def LeaseLive_def Let_def inj_eq
      split: bucket_error.splits option.splits)

lemma StepDown_guarded: "inj etag \<Longrightarrow> guarded etag (waker_moves J el) now (StepDown J el)"
  by (auto simp: StepDown_def holder_def token_moves_def inj_eq
      split: bucket_error.splits option.splits sum.splits)

interpretation waker: expiring_token etag "waker_starts J" Key J "\<lambda>l. (LNode l, LSession l)" LExpiresMs
  "\<lambda>el. (ENodeID el, ESession el)" for etag J
  by unfold_locales (auto elim!: waker_starts.cases simp: Election_Acquire_guarded StepDown_guarded)

text \<open>C30: While the waker lease of one leader is unexpired, no handler of another candidate changes it: the
  fleet never has two live waker leaders.\<close>

theorem waker_lease_exclusive:
  assumes "inj etag" "lawful J" "idle S\<^sub>0" "reachable etag (waker_starts J) S\<^sub>0 S"
    and "step etag (waker_starts J) (Some el) S S'"
    and "store S Key = Some (marshal J l)" "LeaseLive l (UnixMilli (clock S))"
    and "(LNode l, LSession l) \<noteq> (ENodeID el, ESession el)"
  shows "store S' Key = store S Key"
  using waker.live_token_kept [OF assms(1,2,4,3,5,6)] assms(7,8) by (simp add: LeaseLive_def)

text \<open>Leader \<open>a\<close> holds the lease; candidate \<open>b\<close> starts acquiring it.\<close>

definition waker_demo_codec :: "(Lease, Lease) codec" where
  "waker_demo_codec = \<lparr>marshal = id, unmarshal = Some\<rparr>"

definition waker_demo_lease :: Lease where
  "waker_demo_lease = lease_of (NewElection ''a'' ''s1'' 0) 0"

definition waker_demo_fleet :: "(Lease, Lease, unit, unit, Election) system" where
  "waker_demo_fleet = \<lparr>clock = 9000000000, store = [Key \<mapsto> waker_demo_lease], life = (\<lambda>_. Up), memory = (\<lambda>_. ()), threads = (\<lambda>_ _. None)\<rparr>"

theorem waker_lease_exclusive_witness:
  "\<exists>S'. step id (waker_starts waker_demo_codec) (Some (NewElection ''b'' ''s2'' 0)) waker_demo_fleet S'
     \<and> LeaseLive waker_demo_lease (UnixMilli (clock waker_demo_fleet)) \<and> store S' Key = store waker_demo_fleet Key"
proof -
  let ?m = "NewElection ''b'' ''s2'' 0"
  have i: "idle waker_demo_fleet" by (simp add: idle_def waker_demo_fleet_def)
  have l: "LeaseLive waker_demo_lease (UnixMilli (clock waker_demo_fleet))"
    by (simp add: LeaseLive_def waker_demo_lease_def waker_demo_fleet_def NewElection_def DefaultTTL_def
        UnixMilli_def Milliseconds_def)
  obtain S' where s: "step id (waker_starts waker_demo_codec) (Some ?m) waker_demo_fleet S'"
    using step.start [of waker_demo_fleet ?m 0 "waker_starts waker_demo_codec" "forget (Acquire waker_demo_codec ?m)" id]
    by (auto simp: waker_starts.acquire waker_demo_fleet_def)
  have "store S' Key = store waker_demo_fleet Key"
    by (rule waker_lease_exclusive [OF _ _ i reachable.init s _ l])
       (simp_all add: waker_demo_codec_def lawful_def waker_demo_fleet_def waker_demo_lease_def NewElection_def)
  with s l show ?thesis by blast
qed

end
