(* ===== verification/ObjectStore.thy ===== *)
theory ObjectStore
  imports Bucket
begin

text \<open>
  \<^verbatim>\<open>internal/objectstore/objectstore.go\<close>: the prefix-scoped view of the shared bucket. A view is the
  prefix it was opened on and, when it was opened by the wrong subsystem, the error every operation
  returns. The optional interfaces of a backend (\<^verbatim>\<open>Statter\<close>, \<^verbatim>\<open>PagedLister\<close>, \<^verbatim>\<open>PrefixLister\<close>) are arguments
  of the operations that use them.
\<close>

subsection \<open>Reserved prefixes\<close>

definition PrefixNodeLogs :: string where "PrefixNodeLogs = ''node-logs/''"
definition OwnerNodeLog :: string where "OwnerNodeLog = ''node-log''"

definition reserved :: "(string \<times> string) list" where
  "reserved =
     [(''cells/'', ''replica''), (''nodes/'', OwnerNodeLog), (PrefixNodeLogs, OwnerNodeLog), (''fleet/'', ''waker''),
      (''deploys/'', ''artifacts''), (''bundles/'', ''artifacts''), (''assets/'', ''artifacts''),
      (''dosupervisor/'', ''do-supervisor''), (''wake/'', ''waker''), (''r2/'', ''r2''), (''r2meta/'', ''r2''),
      (''r2usage/'', ''r2'')]"

definition normalizePrefix :: "string \<Rightarrow> string" where
  "normalizePrefix p = (if HasSuffix p ''/'' then p else p @ ''/'')"

definition OwnerOf :: "string \<Rightarrow> string" where
  "OwnerOf p = (case map_of reserved (normalizePrefix p) of None \<Rightarrow> [] | Some w \<Rightarrow> w)"

definition ReservedPrefixes :: "string list" where
  "ReservedPrefixes = map fst reserved"

subsection \<open>Views\<close>

datatype store_error = ErrBadKey | ErrReserved string string | ErrUnsupported | StoreErr bucket_error

record Objects =
  Prefix :: string
  ob_owner :: string
  ob_err :: "store_error option"

definition NewObjects :: "string \<Rightarrow> Objects" where
  "NewObjects p =
     (let n = normalizePrefix p; w = OwnerOf n in
      \<lparr>Prefix = n, ob_owner = [], ob_err = (if w \<noteq> [] then Some (ErrReserved n w) else None)\<rparr>)"

definition NewOwned :: "string \<Rightarrow> string \<Rightarrow> Objects" where
  "NewOwned p w =
     (let n = normalizePrefix p; want = OwnerOf n in
      \<lparr>Prefix = n, ob_owner = w, ob_err = (if want \<noteq> [] \<and> want \<noteq> w then Some (ErrReserved n want) else None)\<rparr>)"

definition key :: "Objects \<Rightarrow> string \<Rightarrow> store_error + string" where
  "key ob k =
     (case ob_err ob of Some e \<Rightarrow> Inl e
      | None \<Rightarrow>
          if Prefix ob = [] \<or> \<not> HasPrefix k (Prefix ob) then Inl ErrBadKey
          else if Contains k ''..'' \<or> CHR 0x5C \<in> set k \<or> HasPrefix k ''/'' then Inl ErrBadKey
          else Inr k)"

text \<open>The error of the bucket call, passed on.\<close>

definition lift :: "bucket_error + 'a \<Rightarrow> store_error + 'a" where
  "lift x = (case x of Inl e \<Rightarrow> Inl (StoreErr e) | Inr a \<Rightarrow> Inr a)"

definition with_key :: "Objects \<Rightarrow> string \<Rightarrow> (string \<Rightarrow> ('v, 'e, 'w, store_error + 'a) prog) \<Rightarrow> ('v, 'e, 'w, store_error + 'a) prog" where
  "with_key ob k f = (case key ob k of Inl e \<Rightarrow> Return (Inl e) | Inr k' \<Rightarrow> f k')"

definition ObjGet :: "Objects \<Rightarrow> string \<Rightarrow> ('v, 'e, 'w, store_error + 'v) prog" where
  "ObjGet ob k = with_key ob k (\<lambda>k. Get k (\<lambda>x. Return (map_sum id fst (lift x))))"

definition GetVersion :: "Objects \<Rightarrow> string \<Rightarrow> ('v, 'e, 'w, store_error + 'v \<times> 'e) prog" where
  "GetVersion ob k = with_key ob k (\<lambda>k. Get k (\<lambda>x. Return (lift x)))"

definition ConditionalCreate :: "Objects \<Rightarrow> string \<Rightarrow> 'v \<Rightarrow> ('v, 'e, 'w, store_error + 'e) prog" where
  "ConditionalCreate ob k v = with_key ob k (\<lambda>k. Create k v (\<lambda>x. Return (lift x)))"

definition ObjCAS :: "Objects \<Rightarrow> string \<Rightarrow> 'v \<Rightarrow> 'e \<Rightarrow> ('v, 'e, 'w, store_error + 'e) prog" where
  "ObjCAS ob k v e = with_key ob k (\<lambda>k. CAS k v e (\<lambda>x. Return (lift x)))"

definition ConditionalDelete :: "Objects \<Rightarrow> string \<Rightarrow> 'e \<Rightarrow> ('v, 'e, 'w, store_error + unit) prog" where
  "ConditionalDelete ob k e = with_key ob k (\<lambda>k. CDelete k e (\<lambda>x. Return (lift x)))"

definition Stat :: "(string \<Rightarrow> ('v, 'e, 'w, bucket_error + int \<times> 'e) prog) option \<Rightarrow> Objects \<Rightarrow> string \<Rightarrow>
    ('v, 'e, 'w, store_error + int \<times> 'e) prog" where
  "Stat statter ob k = with_key ob k (\<lambda>k.
     case statter of None \<Rightarrow> Return (Inl ErrUnsupported) | Some f \<Rightarrow> bind (f k) (\<lambda>x. Return (lift x)))"

definition ObjPut :: "Objects \<Rightarrow> string \<Rightarrow> 'v \<Rightarrow> ('v, 'e, 'w, store_error + 'e) prog" where
  "ObjPut ob k v = with_key ob k (\<lambda>k. Put k v (\<lambda>x. Return (lift x)))"

definition ObjDelete :: "Objects \<Rightarrow> string \<Rightarrow> ('v, 'e, 'w, store_error + unit) prog" where
  "ObjDelete ob k = with_key ob k (\<lambda>k. Delete k (\<lambda>x. Return (lift x)))"

definition ObjList :: "Objects \<Rightarrow> ('v, 'e, 'w, store_error + string list) prog" where
  "ObjList ob =
     (case ob_err ob of Some e \<Rightarrow> Return (Inl e) | None \<Rightarrow> ListKeys (Prefix ob) (\<lambda>x. Return (lift x)))"

definition ListPrefix :: "Objects \<Rightarrow> string \<Rightarrow> ('v, 'e, 'w, store_error + string list) prog" where
  "ListPrefix ob p =
     (case ob_err ob of Some e \<Rightarrow> Return (Inl e)
      | None \<Rightarrow> if \<not> HasPrefix p (Prefix ob) \<or> Contains p ''..'' then Return (Inl ErrBadKey)
                else ListKeys p (\<lambda>x. Return (lift x)))"

subsection \<open>Listings\<close>

text \<open>The page loop of \<open>ListPage\<close> over the sorted keys: the keys collected so far, then the next cursor.\<close>

fun page_loop :: "string \<Rightarrow> nat \<Rightarrow> string list \<Rightarrow> string list \<Rightarrow> string list \<times> string" where
  "page_loop after limit out [] = (out, [])"
| "page_loop after limit out (k # ks) =
     (if k \<le> after then page_loop after limit out ks
      else if length out = limit then (out, last out)
      else page_loop after limit (out @ [k]) ks)"

definition ListPage ::
  "(string \<Rightarrow> string \<Rightarrow> nat \<Rightarrow> ('v, 'e, 'w, bucket_error + string list \<times> string) prog) option \<Rightarrow>
   Objects \<Rightarrow> string \<Rightarrow> string \<Rightarrow> int \<Rightarrow> ('v, 'e, 'w, store_error + string list \<times> string) prog" where
  "ListPage pager ob p after limit =
     (case ob_err ob of Some e \<Rightarrow> Return (Inl e)
      | None \<Rightarrow>
          if \<not> HasPrefix p (Prefix ob) \<or> Contains p ''..'' then Return (Inl ErrBadKey)
          else if after \<noteq> [] \<and> (\<not> HasPrefix after (Prefix ob) \<or> Contains after ''..'') then Return (Inl ErrBadKey)
          else
            (let n = (if limit \<le> 0 then 1000 else nat limit) in
             case pager of
               Some f \<Rightarrow> bind (f p after n) (\<lambda>x. Return (lift x))
             | None \<Rightarrow> ListKeys p (\<lambda>x. Return (case lift x of
                   Inl e \<Rightarrow> Inl e
                 | Inr keys \<Rightarrow> Inr (page_loop after n [] (sort keys))))))"

definition child_prefix :: "string \<Rightarrow> string \<Rightarrow> string \<Rightarrow> string option" where
  "child_prefix p delimiter k =
     (let rest = TrimPrefix k p in
      map_option (\<lambda>i. p @ take i rest @ delimiter) (Index rest delimiter))"

definition CommonPrefixes ::
  "(string \<Rightarrow> string \<Rightarrow> ('v, 'e, 'w, bucket_error + string list) prog) option \<Rightarrow>
   Objects \<Rightarrow> string \<Rightarrow> string \<Rightarrow> ('v, 'e, 'w, store_error + string list) prog" where
  "CommonPrefixes lister ob p delimiter =
     (case ob_err ob of Some e \<Rightarrow> Return (Inl e)
      | None \<Rightarrow>
          if \<not> HasPrefix p (Prefix ob) \<or> Contains p ''..'' then Return (Inl ErrBadKey)
          else
            (let d = (if delimiter = [] then ''/'' else delimiter) in
             case lister of
               Some f \<Rightarrow> bind (f p d) (\<lambda>x. Return (lift x))
             | None \<Rightarrow> ListKeys p (\<lambda>x. Return (map_sum id
                   (\<lambda>keys. sort (remdups (List.map_filter (child_prefix p d) keys))) (lift x)))))"

subsection \<open>Confinement\<close>

abbreviation inside where
  "inside ob k \<equiv> ob_err ob = None \<and> HasPrefix k (Prefix ob) \<and> \<not> Contains k ''..''"

lemma key_Inr: "key ob k = Inr k' \<Longrightarrow> k' = k \<and> inside ob k \<and> CHR 0x5C \<notin> set k"
  by (auto simp: key_def split: option.splits if_splits)

lemma confined_with_key: "(\<And>k. inside ob k \<Longrightarrow> confined P Q (f k)) \<Longrightarrow> confined P Q (with_key ob k f)"
  using key_Inr [of ob k] by (auto simp: with_key_def split: sum.splits)

text \<open>The operations of a view.\<close>

inductive view_op :: "Objects \<Rightarrow> ('v, 'e, 'w, unit) prog \<Rightarrow> bool" for ob where
  "view_op ob (forget (ObjGet ob k))"
| "view_op ob (forget (GetVersion ob k))"
| "view_op ob (forget (ConditionalCreate ob k v))"
| "view_op ob (forget (ObjCAS ob k v e))"
| "view_op ob (forget (ConditionalDelete ob k e))"
| "view_op ob (forget (ObjPut ob k v))"
| "view_op ob (forget (ObjDelete ob k))"
| "view_op ob (forget (ObjList ob))"
| "view_op ob (forget (ListPrefix ob p))"
| "view_op ob (forget (ListPage None ob p after limit))"
| "view_op ob (forget (CommonPrefixes None ob p delimiter))"

lemmas view_defs = ObjGet_def GetVersion_def ConditionalCreate_def ObjCAS_def ConditionalDelete_def
  ObjPut_def ObjDelete_def

lemma view_op_confined:
  "view_op ob p \<Longrightarrow> confined (\<lambda>k. ob_err ob = None \<and> HasPrefix k (Prefix ob)) (\<lambda>k. ob_err ob = None \<and> HasPrefix k (Prefix ob)) p"
  by (induction rule: view_op.induct)
     (auto simp: view_defs ObjList_def ListPrefix_def ListPage_def CommonPrefixes_def forget_def HasPrefix_def Let_def
       intro!: confined_bind confined_with_key split: option.splits)

lemma prefixes_comparable: "HasPrefix k p \<Longrightarrow> HasPrefix k q \<Longrightarrow> HasPrefix p q \<or> HasPrefix q p"
  by (auto simp: HasPrefix_iff append_eq_append_conv2)

lemma reserved_antichain:
  "list_all (\<lambda>(p, a). list_all (\<lambda>(q, b). HasPrefix p q \<longrightarrow> p = q \<and> a = b) reserved) reserved"
  by code_simp

lemma reserved_disjoint:
  assumes "(p, a) \<in> set reserved" "(q, b) \<in> set reserved" "HasPrefix k p" "HasPrefix k q"
  shows "p = q \<and> a = b"
  using prefixes_comparable [OF assms(3,4)] reserved_antichain assms(1,2) unfolding list_all_iff by fastforce



text \<open>A view that is not on a reserved prefix but below one is not refused: its keys are those of the
  subsystem the prefix is reserved for.\<close>

lemma NewObjects_below_reserved:
  "key (NewObjects ''cells/ns'') ''cells/ns/c/i/owner.json'' = Inr ''cells/ns/c/i/owner.json''"
  by (simp add: key_def NewObjects_def Let_def normalizePrefix_def HasSuffix_def OwnerOf_def reserved_def PrefixNodeLogs_def)

subsection \<open>Paging\<close>

lemma page_loop_spec:
  "length out \<le> limit \<Longrightarrow>
   page_loop after limit out ks =
     (let rest = filter (\<lambda>k. after < k) ks; n = limit - length out in
      if length rest \<le> n then (out @ rest, []) else (out @ take n rest, last (out @ take n rest)))"
proof (induction after limit out ks rule: page_loop.induct)
  case (2 after limit out k ks)
  show ?case
  proof (cases "k \<le> after")
    case True
    with 2 show ?thesis by (simp add: not_less [symmetric])
  next
    case False
    then have lt: "after < k" by simp
    show ?thesis
    proof (cases "length out = limit")
      case True
      with lt False show ?thesis by (simp add: Let_def)
    next
      case f: False
      with 2 False have "Suc (length out) \<le> limit" by simp
      then obtain n where n: "limit - length out = Suc n" by (cases "limit - length out") auto
      then have "limit - length (out @ [k]) = n" by simp
      with 2(2) [OF False f] n lt False f \<open>Suc (length out) \<le> limit\<close> show ?thesis
        by (simp add: Let_def)
    qed
  qed
qed simp

text \<open>A client that follows the cursors, as the callers of \<open>ListPage\<close> do, for at most \<open>n\<close> pages.\<close>

primrec all_pages :: "nat \<Rightarrow> nat \<Rightarrow> string list \<Rightarrow> string \<Rightarrow> string list" where
  "all_pages 0 limit ks after = []"
| "all_pages (Suc n) limit ks after =
     (case page_loop after limit [] ks of
        (page, next) \<Rightarrow> if next = [] then page else page @ all_pages n limit ks next)"

lemma filter_above_nth:
  assumes "sorted_wrt (<) xs" "n < length xs"
  shows "filter (\<lambda>x. xs ! n < x) xs = drop (Suc n) (xs :: 'a :: linorder list)"
proof -
  have "filter (\<lambda>x. xs ! n < x) (take (Suc n) xs) = []"
    using assms by (auto simp: filter_empty_conv in_set_conv_nth not_less le_less less_Suc_eq)
      (metis sorted_wrt_nth_less)
  moreover have "filter (\<lambda>x. xs ! n < x) (drop (Suc n) xs) = drop (Suc n) xs"
    using assms by (auto simp: filter_id_conv in_set_conv_nth intro!: sorted_wrt_nth_less [of "(<)"])
  ultimately show ?thesis
    by (metis append_Nil append_take_drop_id filter_append)
qed

lemma all_pages_complete:
  assumes "sorted_wrt (<) ks" "0 < limit"
  shows "length (filter (\<lambda>k. after < k) ks) < n \<Longrightarrow> all_pages n limit ks after = filter (\<lambda>k. after < k) ks"
proof (induction n arbitrary: after)
  case (Suc n)
  let ?rest = "filter (\<lambda>k. after < k) ks"
  show ?case
  proof (cases "length ?rest \<le> limit")
    case True
    then show ?thesis by (simp add: page_loop_spec Let_def)
  next
    case False
    let ?next = "?rest ! (limit - 1)"
    from False have lt: "limit - 1 < length ?rest" by simp
    then have a: "after < ?next" using nth_mem by fastforce
    have ss: "sorted_wrt (<) ?rest" using assms(1) by (rule sorted_wrt_filter)
    have l: "last (take limit ?rest) = ?next"
      using lt assms(2) by (subst last_conv_nth) auto
    have "filter (\<lambda>k. ?next < k) ks = filter (\<lambda>k. ?next < k) ?rest"
      using a by (auto simp: intro!: filter_cong)
    then have d: "filter (\<lambda>k. ?next < k) ks = drop limit ?rest"
      using filter_above_nth [OF ss lt] assms(2) by simp
    have "all_pages n limit ks ?next = drop limit ?rest"
      using Suc.IH [of ?next] Suc.prems False d assms(2) by simp
    moreover have "?next \<noteq> []" using a by auto
    ultimately show ?thesis
      using False l by (simp add: page_loop_spec Let_def)
  qed
qed simp



end
