(* ===== verification/NodeLog.thy ===== *)
theory NodeLog
  imports ObjectStore "HOL-Library.Multiset"
begin

text \<open>
  \<^verbatim>\<open>internal/nodelog/nodelog.go\<close>: the per-session recovery records. Every call goes through the prefix-scoped
  view of the bucket when the manager has one, as \<open>New\<close> gives it. A Go map used for lookups is a function;
  the map iterated by \<open>OpenIdentified\<close> is an association list in iteration order.
\<close>

definition StatusOpen :: string where "StatusOpen = ''open''"
definition StatusRecovering :: string where "StatusRecovering = ''recovering''"
definition StatusSealed :: string where "StatusSealed = ''sealed''"
definition ProtoVersionSession :: string where "ProtoVersionSession = ''v2''"
definition ProtoVersionIdentity :: string where "ProtoVersionIdentity = ''v3''"

record RecoveryResolution =
  ResKind :: string
  AcceptedMs :: int
  AuditKey :: string
  OriginalSHA256 :: string

record Record =
  Resolution :: "RecoveryResolution option"
  RNode :: string
  RSession :: string
  REpoch :: u64
  FollowerRefs :: "string \<Rightarrow> PeerIdentity option"
  Progress :: "string \<Rightarrow> u64 option"
  Followers :: "string list"
  Status :: string
  RProto :: string
  RUpdatedMs :: int
  CoveredSeq :: "string \<Rightarrow> u64 option"

datatype nodelog_error =
  LogNotFound | ErrSessionClosed | ErrEnsembleMismatch | ErrCorrupt | LogErr store_error

record Manager =
  Objs :: "Objects option"
  LogNodeID :: string

definition New :: "string \<Rightarrow> Manager" where
  "New nodeID = \<lparr>Objs = Some (NewOwned PrefixNodeLogs OwnerNodeLog), LogNodeID = nodeID\<rparr>"

type_synonym ('v, 'e, 'w, 'a) handler = "('v, 'e, 'w, nodelog_error + 'a) prog"

definition get :: "Manager \<Rightarrow> string \<Rightarrow> ('v, 'e, 'w, store_error + 'v \<times> 'e) prog" where
  "get m k = (case Objs m of Some ob \<Rightarrow> GetVersion ob k | None \<Rightarrow> Get k (\<lambda>x. Return (lift x)))"

definition conditionalCreate :: "Manager \<Rightarrow> string \<Rightarrow> 'v \<Rightarrow> ('v, 'e, 'w, store_error + 'e) prog" where
  "conditionalCreate m k v =
     (case Objs m of Some ob \<Rightarrow> ConditionalCreate ob k v | None \<Rightarrow> Create k v (\<lambda>x. Return (lift x)))"

definition cas :: "Manager \<Rightarrow> string \<Rightarrow> 'v \<Rightarrow> 'e \<Rightarrow> ('v, 'e, 'w, store_error + 'e) prog" where
  "cas m k v e = (case Objs m of Some ob \<Rightarrow> ObjCAS ob k v e | None \<Rightarrow> CAS k v e (\<lambda>x. Return (lift x)))"

definition list_keys :: "Manager \<Rightarrow> string \<Rightarrow> ('v, 'e, 'w, store_error + string list) prog" where
  "list_keys m p = (case Objs m of Some ob \<Rightarrow> ListPrefix ob p | None \<Rightarrow> ListKeys p (\<lambda>x. Return (lift x)))"

definition LogKey :: "string \<Rightarrow> string \<Rightarrow> string" where
  "LogKey node session = ''node-logs/'' @ node @ ''/'' @ session @ ''.json''"

definition canonicalFollowers :: "string list \<Rightarrow> string list" where
  "canonicalFollowers fs = sort fs"

definition sameFollowers :: "string list \<Rightarrow> string list \<Rightarrow> bool" where
  "sameFollowers a b \<longleftrightarrow> canonicalFollowers a = canonicalFollowers b"

definition LogGet ::
  "(Record, 'v) codec \<Rightarrow> Manager \<Rightarrow> string \<Rightarrow> string \<Rightarrow> ('v, 'e, 'w, Record \<times> 'e) handler" where
  "LogGet J m node session =
     bind (get m (LogKey node session)) (\<lambda>x. Return (case x of
         Inl (StoreErr ErrNotFound) \<Rightarrow> Inl LogNotFound
       | Inl e \<Rightarrow> Inl (LogErr e)
       | Inr (data, e) \<Rightarrow> (case unmarshal J data of None \<Rightarrow> Inl ErrCorrupt | Some r \<Rightarrow> Inr (r, e))))"

text \<open>\<open>open\<close> with \<open>refs = None\<close> for the nil map.\<close>

definition open_record ::
  "Manager \<Rightarrow> string \<Rightarrow> u64 \<Rightarrow> string list \<Rightarrow> (string \<times> PeerIdentity) list option \<Rightarrow> time \<Rightarrow> Record" where
  "open_record m session epoch followers refs t =
     \<lparr>Resolution = None, RNode = LogNodeID m, RSession = session, REpoch = epoch,
      FollowerRefs = (case refs of None \<Rightarrow> Map.empty | Some rs \<Rightarrow> map_of rs), Progress = Map.empty,
      Followers = canonicalFollowers followers, Status = StatusOpen,
      RProto = (if refs = None then ProtoVersionSession else ProtoVersionIdentity),
      RUpdatedMs = UnixMilli t, CoveredSeq = Map.empty\<rparr>"

definition reopen_check :: "Record \<Rightarrow> Record \<Rightarrow> nodelog_error + Record" where
  "reopen_check r existing =
     (if RNode existing \<noteq> RNode r \<or> RSession existing \<noteq> RSession r \<or> RProto existing \<noteq> RProto r
         \<or> \<not> sameFollowers (Followers existing) (Followers r) \<or> FollowerRefs existing \<noteq> FollowerRefs r
      then Inl ErrEnsembleMismatch
      else if Status existing \<noteq> StatusOpen then Inl ErrSessionClosed
      else Inr existing)"

definition open_log ::
  "(Record, 'v) codec \<Rightarrow> Manager \<Rightarrow> string \<Rightarrow> u64 \<Rightarrow> string list \<Rightarrow> (string \<times> PeerIdentity) list option \<Rightarrow>
   ('v, 'e, 'w, Record) handler" where
  "open_log J m session epoch followers refs =
     Local (\<lambda>_ w. w) (\<lambda>t _.
       let r = open_record m session epoch followers refs t in
       bind (conditionalCreate m (LogKey (LogNodeID m) session) (marshal J r)) (\<lambda>x. case x of
           Inr _ \<Rightarrow> Return (Inr r)
         | Inl (StoreErr ErrPrecondition) \<Rightarrow>
             bind (LogGet J m (LogNodeID m) session) (\<lambda>y. Return (case y of
                 Inl e \<Rightarrow> Inl e | Inr (existing, _) \<Rightarrow> reopen_check r existing))
         | Inl e \<Rightarrow> Return (Inl (LogErr e))))"

definition Open ::
  "(Record, 'v) codec \<Rightarrow> Manager \<Rightarrow> string \<Rightarrow> u64 \<Rightarrow> string list \<Rightarrow> ('v, 'e, 'w, Record) handler" where
  "Open J m session epoch followers = open_log J m session epoch followers None"

text \<open>The loop of \<open>OpenIdentified\<close> over the references: every address and identity given, no identity twice.\<close>

fun collect_followers ::
  "PeerIdentity list \<Rightarrow> (string \<times> PeerIdentity) list \<Rightarrow> string list option" where
  "collect_followers seen [] = Some []"
| "collect_followers seen ((addr, pid) # rs) =
     (if addr = [] \<or> PeerNode pid = [] \<or> PeerInstance pid = [] \<or> pid \<in> set seen then None
      else map_option (Cons addr) (collect_followers (pid # seen) rs))"

definition OpenIdentified ::
  "(Record, 'v) codec \<Rightarrow> Manager \<Rightarrow> string \<Rightarrow> u64 \<Rightarrow> (string \<times> PeerIdentity) list \<Rightarrow> ('v, 'e, 'w, Record) handler" where
  "OpenIdentified J m session epoch refs =
     (case collect_followers [] refs of
        None \<Rightarrow> Return (Inl ErrEnsembleMismatch)
      | Some fs \<Rightarrow> if fs = [] then Return (Inl ErrEnsembleMismatch)
                   else open_log J m session epoch fs (Some refs))"

text \<open>\<open>SetStatus\<close>, \<open>SealCovered\<close> and \<open>Checkpoint\<close> read the record, change it and write it back with the tag read.\<close>

definition write_back ::
  "(Record, 'v) codec \<Rightarrow> Manager \<Rightarrow> string \<Rightarrow> string \<Rightarrow> Record \<Rightarrow> 'e \<Rightarrow> ('v, 'e, 'w, Record) handler" where
  "write_back J m node session r e =
     Local (\<lambda>_ w. w) (\<lambda>t _.
       let r' = r\<lparr>RUpdatedMs := UnixMilli t\<rparr> in
       bind (cas m (LogKey node session) (marshal J r') e) (\<lambda>x. Return (case x of
           Inl err \<Rightarrow> Inl (LogErr err) | Inr _ \<Rightarrow> Inr r')))"

definition SetStatus ::
  "(Record, 'v) codec \<Rightarrow> Manager \<Rightarrow> string \<Rightarrow> string \<Rightarrow> string \<Rightarrow> ('v, 'e, 'w, Record) handler" where
  "SetStatus J m node session status =
     bind (LogGet J m node session) (\<lambda>x. case x of
         Inl e \<Rightarrow> Return (Inl e)
       | Inr (r, e) \<Rightarrow>
           if Status r = StatusSealed \<and> status \<noteq> StatusSealed then Return (Inl ErrSessionClosed)
           else write_back J m node session (r\<lparr>Status := status\<rparr>) e)"

definition SealCovered ::
  "(Record, 'v) codec \<Rightarrow> Manager \<Rightarrow> string \<Rightarrow> string \<Rightarrow> (string \<Rightarrow> u64 option) \<Rightarrow> ('v, 'e, 'w, Record) handler" where
  "SealCovered J m node session covered =
     bind (LogGet J m node session) (\<lambda>x. case x of
         Inl e \<Rightarrow> Return (Inl e)
       | Inr (r, e) \<Rightarrow> write_back J m node session (r\<lparr>Status := StatusSealed, CoveredSeq := covered\<rparr>) e)"

definition Seal :: "(Record, 'v) codec \<Rightarrow> Manager \<Rightarrow> string \<Rightarrow> string \<Rightarrow> ('v, 'e, 'w, Record) handler" where
  "Seal J m node session = SetStatus J m node session StatusSealed"

definition progress_of :: "Record \<Rightarrow> string \<Rightarrow> u64" where
  "progress_of r f = (case Progress r f of None \<Rightarrow> 0 | Some n \<Rightarrow> n)"

primrec checkpoint_loop ::
  "nat \<Rightarrow> (Record, 'v) codec \<Rightarrow> Manager \<Rightarrow> string \<Rightarrow> string \<Rightarrow> string \<Rightarrow> u64 \<Rightarrow> ('v, 'e, 'w, unit) handler" where
  "checkpoint_loop 0 J m node session follower after = Return (Inl (LogErr (StoreErr ErrPrecondition)))"
| "checkpoint_loop (Suc n) J m node session follower after =
     bind (LogGet J m node session) (\<lambda>x. case x of
         Inl e \<Rightarrow> Return (Inl e)
       | Inr (r, e) \<Rightarrow>
           if Status r = StatusSealed \<or> progress_of r follower \<ge> after then Return (Inr ())
           else if Status r \<noteq> StatusRecovering then Return (Inl ErrSessionClosed)
           else bind (write_back J m node session (r\<lparr>Progress := (Progress r)(follower \<mapsto> after)\<rparr>) e) (\<lambda>y. case y of
               Inl (LogErr (StoreErr ErrPrecondition)) \<Rightarrow> checkpoint_loop n J m node session follower after
             | Inl err \<Rightarrow> Return (Inl err)
             | Inr _ \<Rightarrow> Return (Inr ())))"

definition Checkpoint ::
  "(Record, 'v) codec \<Rightarrow> Manager \<Rightarrow> string \<Rightarrow> string \<Rightarrow> string \<Rightarrow> u64 \<Rightarrow> ('v, 'e, 'w, unit) handler" where
  "Checkpoint = checkpoint_loop 8"

primrec read_records ::
  "(Record, 'v) codec \<Rightarrow> Manager \<Rightarrow> string list \<Rightarrow> ('v, 'e, 'w, Record list) handler" where
  "read_records J m [] = Return (Inr [])"
| "read_records J m (k # ks) =
     bind (get m k) (\<lambda>x. case x of
         Inl (StoreErr ErrNotFound) \<Rightarrow> read_records J m ks
       | Inl e \<Rightarrow> Return (Inl (LogErr e))
       | Inr (data, _) \<Rightarrow>
           (case unmarshal J data of
              None \<Rightarrow> Return (Inl ErrCorrupt)
            | Some r \<Rightarrow> bind (read_records J m ks) (\<lambda>y. Return (map_sum id (Cons r) y))))"

definition ListNode :: "(Record, 'v) codec \<Rightarrow> Manager \<Rightarrow> string \<Rightarrow> ('v, 'e, 'w, Record list) handler" where
  "ListNode J m node =
     bind (list_keys m (''node-logs/'' @ node @ ''/'')) (\<lambda>x. case x of
         Inl e \<Rightarrow> Return (Inl (LogErr e)) | Inr ks \<Rightarrow> read_records J m ks)"

definition node_of_key :: "string \<Rightarrow> string option" where
  "node_of_key k =
     (if HasPrefix k ''node-logs/''
      then case cut_at (CHR ''/'') (TrimPrefix k ''node-logs/'') of
             Some (node, _) \<Rightarrow> if node \<noteq> [] then Some node else None
           | None \<Rightarrow> None
      else None)"

definition Nodes :: "Manager \<Rightarrow> ('v, 'e, 'w, string list) handler" where
  "Nodes m =
     bind (list_keys m ''node-logs/'') (\<lambda>x. Return (case x of
         Inl e \<Rightarrow> Inl (LogErr e)
       | Inr ks \<Rightarrow> Inr (sort (remdups (List.map_filter node_of_key ks)))))"

text \<open>What a node-log manager runs.\<close>

inductive log_starts ::
  "(Record, 'v) codec \<Rightarrow> ('v, 'e, 'w, unit, Manager) starter" for J where
  boot: "log_starts J S m Boot"
| open_session: "log_starts J S m (Run i (forget (Open J m session epoch followers)))"
| open_identified: "log_starts J S m (Run i (forget (OpenIdentified J m session epoch idents)))"
| set_status: "log_starts J S m (Run i (forget (SetStatus J m node session status)))"
| seal_covered: "log_starts J S m (Run i (forget (SealCovered J m node session covered)))"
| seal: "log_starts J S m (Run i (forget (Seal J m node session)))"
| checkpoint: "log_starts J S m (Run i (forget (Checkpoint J m node session follower after)))"
| list_node: "log_starts J S m (Run i (forget (ListNode J m node)))"
| nodes: "log_starts J S m (Run i (forget (Nodes m)))"

subsection \<open>How a record may change\<close>

text \<open>A later version of a record keeps its recovery coordinates, stays sealed once sealed, and never loses
  recovery progress.\<close>

definition log_le :: "Record \<Rightarrow> Record \<Rightarrow> bool" where
  "log_le r s \<longleftrightarrow>
     RNode s = RNode r \<and> RSession s = RSession r \<and> REpoch s = REpoch r \<and> Followers s = Followers r
     \<and> FollowerRefs s = FollowerRefs r \<and> RProto s = RProto r \<and> Resolution s = Resolution r
     \<and> (Status r = StatusSealed \<longrightarrow> Status s = StatusSealed) \<and> (\<forall>f. progress_of r f \<le> progress_of s f)"

lemma log_le_refl [simp]: "log_le r r"
  by (simp add: log_le_def)

lemma log_le_trans: "log_le r s \<Longrightarrow> log_le s t \<Longrightarrow> log_le r t"
  unfolding log_le_def by (metis order_trans)

definition log_moves :: "(Record, 'v) codec \<Rightarrow> time \<Rightarrow> string \<Rightarrow> 'v option \<Rightarrow> 'v option \<Rightarrow> bool" where
  "log_moves J now k x y \<longleftrightarrow>
     (\<exists>v s. y = Some v \<and> unmarshal J v = Some s
        \<and> (case x of None \<Rightarrow> Status s = StatusOpen \<and> Progress s = Map.empty
           | Some u \<Rightarrow> \<exists>r. unmarshal J u = Some r \<and> log_le r s))"

text \<open>The guarded view makes the call on the key itself or refuses it.\<close>

definition allowed :: "Manager \<Rightarrow> string \<Rightarrow> store_error + string" where
  "allowed m k = (case Objs m of Some ob \<Rightarrow> key ob k | None \<Rightarrow> Inr k)"

lemma with_key_eq: "with_key ob k f = (case key ob k of Inl e \<Rightarrow> Return (Inl e) | Inr _ \<Rightarrow> f k)"
  using key_Inr [of ob k] by (auto simp: with_key_def split: sum.splits)

lemma view_calls:
  "get m k = (case allowed m k of Inl e \<Rightarrow> Return (Inl e) | Inr _ \<Rightarrow> Get k (\<lambda>x. Return (lift x)))"
  "conditionalCreate m k v = (case allowed m k of Inl e \<Rightarrow> Return (Inl e) | Inr _ \<Rightarrow> Create k v (\<lambda>x. Return (lift x)))"
  "cas m k v tag = (case allowed m k of Inl e \<Rightarrow> Return (Inl e) | Inr _ \<Rightarrow> CAS k v tag (\<lambda>x. Return (lift x)))"
  by (auto simp: get_def conditionalCreate_def cas_def allowed_def with_key_eq view_defs split: option.splits)

lemma guarded_get:
  assumes "\<And>e. guarded etag R t (f (Inl e))" "\<And>v. guarded etag R t (f (Inr (v, etag v)))"
  shows "guarded etag R t (bind (get m k) f)"
  using assms by (auto simp: view_calls lift_def split: sum.splits)

lemma guarded_LogGet:
  assumes "\<And>e. guarded etag R t (f (Inl e))"
    and "\<And>v r. unmarshal J v = Some r \<Longrightarrow> guarded etag R t (f (Inr (r, etag v)))"
  shows "guarded etag R t (bind (LogGet J m node session) f)"
  using assms
  by (auto simp: LogGet_def view_calls lift_def split: sum.splits store_error.splits bucket_error.splits option.splits)

lemma guarded_write_back:
  assumes "\<And>t' u. t \<le> t' \<Longrightarrow> etag u = e \<Longrightarrow>
      R t' (LogKey node session) (Some u) (Some (marshal J (r\<lparr>RUpdatedMs := UnixMilli t'\<rparr>)))"
  shows "guarded etag R t (write_back J m node session r e)"
  using assms by (auto simp: write_back_def Let_def view_calls split: sum.splits)

lemma log_moves_update:
  assumes "inj etag" "lawful J" "unmarshal J v = Some r" "etag u = etag v" "log_le r s"
  shows "log_moves J t k (Some u) (Some (marshal J s))"
  using assms by (auto simp: log_moves_def inj_eq)

lemma open_log_guarded:
  assumes "lawful J"
  shows "guarded etag (log_moves J) t (open_log J m session epoch followers idents)"
proof -
  have "log_moves J t' k None (Some (marshal J (open_record m session epoch followers idents t')))" for t' k
    using assms by (simp add: log_moves_def open_record_def)
  then show ?thesis
    by (auto simp: open_log_def Let_def view_calls lift_def
        split: store_error.splits bucket_error.splits sum.splits intro!: guarded_LogGet)
qed

lemma SetStatus_guarded:
  assumes "inj etag" "lawful J"
  shows "guarded etag (log_moves J) t (SetStatus J m node session status)"
  unfolding SetStatus_def using assms
  by (auto intro!: guarded_LogGet guarded_write_back log_moves_update simp: log_le_def progress_of_def)

lemma SealCovered_guarded:
  assumes "inj etag" "lawful J"
  shows "guarded etag (log_moves J) t (SealCovered J m node session covered)"
  unfolding SealCovered_def using assms
  by (auto intro!: guarded_LogGet guarded_write_back log_moves_update simp: log_le_def progress_of_def)

lemma Checkpoint_guarded:
  assumes "inj etag" "lawful J"
  shows "guarded etag (log_moves J) t (checkpoint_loop n J m node session follower after)"
proof (induction n arbitrary: t)
  case (Suc n)
  have le: "log_le r (r\<lparr>Progress := (Progress r)(follower \<mapsto> after), RUpdatedMs := x\<rparr>)"
    if "\<not> after \<le> progress_of r follower" for r x
    using that by (auto simp: log_le_def progress_of_def)
  show ?case
    unfolding checkpoint_loop.simps
    by (rule guarded_LogGet)
       (auto intro!: guarded_bind guarded_write_back log_moves_update [OF assms] le Suc
         split: sum.splits nodelog_error.splits store_error.splits bucket_error.splits)
qed simp

lemma read_records_guarded: "guarded etag R t (read_records J m ks)"
proof (induction ks arbitrary: t)
  case (Cons k ks)
  show ?case
    unfolding read_records.simps
    by (rule guarded_get)
       (auto intro!: guarded_bind Cons split: sum.splits store_error.splits bucket_error.splits option.splits)
qed simp

lemma listings_guarded: "guarded etag R t (ListNode J m node)" "guarded etag R t (Nodes m)"
  by (auto simp: ListNode_def Nodes_def list_keys_def ListPrefix_def read_records_guarded
      split: option.splits sum.splits)

interpretation nodelog: guarded_protocol etag "log_starts J" "inj etag \<and> lawful J" "\<lambda>_. log_moves J" for etag J
proof unfold_locales
  fix m t k x y and t' :: time
  assume "log_moves J t k x y"
  then show "log_moves J t' k x y" by (simp add: log_moves_def)
qed (auto elim!: log_starts.cases
      simp: Open_def OpenIdentified_def Seal_def Checkpoint_def open_log_guarded SetStatus_guarded SealCovered_guarded
        Checkpoint_guarded listings_guarded split: option.splits)

lemma log_chain:
  assumes "(\<lambda>x y. \<exists>(m :: Manager) t. log_moves J t k x y)\<^sup>*\<^sup>* x y" "x = Some u" "unmarshal J u = Some r"
  shows "\<exists>v s. y = Some v \<and> unmarshal J v = Some s \<and> log_le r s"
  using assms
proof (induction rule: rtranclp_induct)
  case (step y z)
  then show ?case by (fastforce simp: log_moves_def intro: log_le_trans)
qed auto

text \<open>C31: However the handlers of the fleet interleave, a session record once written is never removed, keeps its
  recovery coordinates, stays sealed once it is sealed, and never loses recovery progress of a follower.\<close>

theorem nodelog_history:
  assumes "inj etag" "lawful J" "idle S\<^sub>0" "reachable etag (log_starts J) S\<^sub>0 S"
    and "store S\<^sub>0 k = Some (marshal J r)"
  shows "\<exists>v s. store S k = Some v \<and> unmarshal J v = Some s \<and> log_le r s"
  using log_chain [OF nodelog.reachable_moves [OF assms(4) _ nodelog.idle_all_guarded [OF assms(3)], of k]] assms
  by simp

definition log_demo_codec :: "(Record, Record) codec" where
  "log_demo_codec = \<lparr>marshal = id, unmarshal = Some\<rparr>"

definition log_demo_record :: Record where
  "log_demo_record = (open_record (New ''a'') ''s1'' 3 [''f2'', ''f1''] None 0)\<lparr>Status := StatusSealed\<rparr>"

definition log_demo_fleet :: "(Record, Record, unit, unit, Manager) system" where
  "log_demo_fleet =
     \<lparr>clock = 0, store = [LogKey ''a'' ''s1'' \<mapsto> log_demo_record], life = (\<lambda>_. Up), memory = (\<lambda>_. ()), threads = (\<lambda>_ _. None)\<rparr>"

theorem nodelog_history_witness:
  "\<exists>S. reachable id (log_starts log_demo_codec) log_demo_fleet S
     \<and> threads S (New ''b'') 0 = Some (forget (SetStatus log_demo_codec (New ''b'') ''a'' ''s1'' StatusOpen))
     \<and> (\<exists>v s. store S (LogKey ''a'' ''s1'') = Some v \<and> unmarshal log_demo_codec v = Some s \<and> log_le log_demo_record s)"
proof -
  let ?p = "forget (SetStatus log_demo_codec (New ''b'') ''a'' ''s1'' StatusOpen)"
  let ?S = "set_thread (New ''b'') 0 (Some ?p) log_demo_fleet"
  have "step id (log_starts log_demo_codec) (Some (New ''b'')) log_demo_fleet ?S"
    by (rule step.start) (simp_all add: log_starts.set_status log_demo_fleet_def)
  then have r: "reachable id (log_starts log_demo_codec) log_demo_fleet ?S"
    by (rule reachable.more [OF reachable.init])
  have "\<exists>v s. store ?S (LogKey ''a'' ''s1'') = Some v \<and> unmarshal log_demo_codec v = Some s \<and> log_le log_demo_record s"
    by (rule nodelog_history [OF _ _ _ r])
       (simp_all add: idle_def log_demo_fleet_def log_demo_codec_def lawful_def)
  with r show ?thesis by (intro exI [of _ ?S]) simp
qed

subsection \<open>Opening a session twice\<close>

lemma sameFollowers_mset: "sameFollowers a b \<longleftrightarrow> mset a = mset b"
  unfolding sameFollowers_def canonicalFollowers_def
  by (metis mset_sort properties_for_sort sorted_sort)

text \<open>Opening a session creates its record; opening it again returns that record and writes nothing when the
  followers are the same up to order, and is refused without a write when they differ.\<close>

lemma open_then_reopen:
  assumes "lawful J" "allowed m (LogKey (LogNodeID m) session) = Inr k" "B (LogKey (LogNodeID m) session) = None"
    and "run etag now (Open J m session epoch fs) B w = (res, B', w')"
  shows "\<exists>r. res = Inr r \<and> Status r = StatusOpen \<and> B' (LogKey (LogNodeID m) session) = Some (marshal J r)
     \<and> run etag later (Open J m session epoch' fs') B' w' =
         (if mset fs' = mset fs then Inr r else Inl ErrEnsembleMismatch, B', w')"
proof -
  let ?r = "open_record m session epoch fs None now"
  let ?k = "LogKey (LogNodeID m) session"
  have "res = Inr ?r" and B': "B' = B(?k \<mapsto> marshal J ?r)"
    using assms by (auto simp: Open_def open_log_def Let_def view_calls bucket_create_def lift_def)
  moreover have "reopen_check (open_record m session epoch' fs' None later) ?r
      = (if mset fs' = mset fs then Inr ?r else Inl ErrEnsembleMismatch)"
    by (auto simp: reopen_check_def open_record_def sameFollowers_mset canonicalFollowers_def)
  then have "run etag later (Open J m session epoch' fs') B' w' =
      (if mset fs' = mset fs then Inr ?r else Inl ErrEnsembleMismatch, B', w')"
    using assms(1,2) B'
    by (simp add: Open_def open_log_def LogGet_def Let_def view_calls bucket_create_def bucket_get_def lift_def)
  ultimately show ?thesis by (intro exI [of _ ?r]) (simp add: open_record_def)
qed

lemma open_then_reopen_applies:
  "\<exists>r. Status r = StatusOpen
     \<and> run id 5 (Open log_demo_codec (New ''a'') ''s1'' 4 [''f1'', ''f2'']) [LogKey ''a'' ''s1'' \<mapsto> r] () =
         (Inr r, [LogKey ''a'' ''s1'' \<mapsto> r], ())"
proof -
  have a: "allowed (New ''a'') (LogKey ''a'' ''s1'') = Inr (LogKey ''a'' ''s1'')" by code_simp
  let ?run = "run id 0 (Open log_demo_codec (New ''a'') ''s1'' 3 [''f2'', ''f1'']) (\<lambda>_. None) ()"
  obtain res B' w' where e: "?run = (res, B', w')" by (metis prod_cases3)
  from e have B': "B' = [LogKey ''a'' ''s1'' \<mapsto> open_record (New ''a'') ''s1'' 3 [''f2'', ''f1''] None 0]"
    using a by (auto simp: Open_def open_log_def Let_def view_calls bucket_create_def lift_def log_demo_codec_def New_def)
  from open_then_reopen [OF _ _ _ e, of "LogKey ''a'' ''s1''" 5 4 "[''f1'', ''f2'']"] a
  obtain r where "Status r = StatusOpen" "B' (LogKey ''a'' ''s1'') = Some r"
    "run id 5 (Open log_demo_codec (New ''a'') ''s1'' 4 [''f1'', ''f2'']) B' w' = (Inr r, B', w')"
    by (auto simp: New_def lawful_def log_demo_codec_def)
  then show ?thesis using B' by auto
qed

end
