(* ===== verification/FsBucket.thy ===== *)
theory FsBucket
  imports Bucket "HOL-Library.AList" "HOL-Library.Sublist" "HOL-Library.Multiset"
begin

text \<open>
  \<^verbatim>\<open>internal/bucket/fsbucket.go\<close>: the filesystem bucket. The state is the tree of files and directories below
  the root; the system calls the code makes are functions of that state and of a fault table, in which
  \<open>Some n\<close> makes the call fail (a write after \<open>n\<close> bytes). The per-key lock makes every operation on a
  key atomic, so an operation is a function from the tree to its result and the new tree. The content
  hash is a parameter.
\<close>

type_synonym path = "string list"

record FSBucket =
  root :: path
  files :: "(path \<times> bytes) list"
  dirs :: "path list"

subsection \<open>Paths\<close>

text \<open>\<open>filepath.Clean\<close> of a rooted path, on its components.\<close>

fun clean_parts :: "path \<Rightarrow> string list \<Rightarrow> path" where
  "clean_parts acc [] = acc"
| "clean_parts acc (p # ps) =
     (if p = [] \<or> p = ''.'' then clean_parts acc ps
      else if p = ''..'' then clean_parts (butlast acc) ps
      else clean_parts (acc @ [p]) ps)"

definition path_of :: "FSBucket \<Rightarrow> string \<Rightarrow> path" where
  "path_of b k = root b @ clean_parts [] (split_on (CHR ''/'') k)"

definition tmp_of :: "path \<Rightarrow> path" where
  "tmp_of p = butlast p @ [last p @ ''.tmp'']"

definition rel_key :: "FSBucket \<Rightarrow> path \<Rightarrow> string" where
  "rel_key b p = join_with (CHR ''/'') (drop (length (root b)) p)"

subsection \<open>System calls\<close>

datatype syscall = SysMkdir | SysRead | SysStat | SysWrite | SysRename | SysLink | SysRemove
datatype os_error = NotExist | Exist | OsOther

type_synonym faults = "syscall \<Rightarrow> path \<Rightarrow> nat option"

definition ancestors :: "path \<Rightarrow> path list" where
  "ancestors p = map (\<lambda>n. take n p) [0..<length p]"

definition is_file :: "FSBucket \<Rightarrow> path \<Rightarrow> bool" where
  "is_file b p \<longleftrightarrow> map_of (files b) p \<noteq> None"

definition file_above :: "FSBucket \<Rightarrow> path \<Rightarrow> bool" where
  "file_above b p \<longleftrightarrow> list_ex (is_file b) (ancestors p)"

definition missing :: "FSBucket \<Rightarrow> path \<Rightarrow> os_error" where
  "missing b p = (if p \<in> set (dirs b) \<or> file_above b p then OsOther else NotExist)"

definition os_read :: "faults \<Rightarrow> FSBucket \<Rightarrow> path \<Rightarrow> os_error + bytes" where
  "os_read flt b p =
     (case flt SysRead p of Some _ \<Rightarrow> Inl OsOther
      | None \<Rightarrow> (case map_of (files b) p of Some d \<Rightarrow> Inr d | None \<Rightarrow> Inl (missing b p)))"

text \<open>\<open>os.Stat\<close>: the size of a file, \<open>None\<close> for a directory.\<close>

definition os_stat :: "faults \<Rightarrow> FSBucket \<Rightarrow> path \<Rightarrow> os_error + nat option" where
  "os_stat flt b p =
     (case flt SysStat p of Some _ \<Rightarrow> Inl OsOther
      | None \<Rightarrow>
          (case map_of (files b) p of Some d \<Rightarrow> Inr (Some (length d))
           | None \<Rightarrow> if p \<in> set (dirs b) then Inr None else Inl (missing b p)))"

definition os_mkdirall :: "faults \<Rightarrow> FSBucket \<Rightarrow> path \<Rightarrow> (os_error + unit) \<times> FSBucket" where
  "os_mkdirall flt b p =
     (if flt SysMkdir p \<noteq> None \<or> is_file b p \<or> file_above b p then (Inl OsOther, b)
      else (Inr (), b\<lparr>dirs := dirs b @ ancestors p @ [p]\<rparr>))"

definition os_write :: "faults \<Rightarrow> FSBucket \<Rightarrow> path \<Rightarrow> bytes \<Rightarrow> (os_error + unit) \<times> FSBucket" where
  "os_write flt b p d =
     (if p \<in> set (dirs b) \<or> file_above b p then (Inl OsOther, b)
      else case flt SysWrite p of
          Some n \<Rightarrow> (Inl OsOther, b\<lparr>files := AList.update p (take n d) (files b)\<rparr>)
        | None \<Rightarrow> (Inr (), b\<lparr>files := AList.update p d (files b)\<rparr>))"

definition os_rename :: "faults \<Rightarrow> FSBucket \<Rightarrow> path \<Rightarrow> path \<Rightarrow> (os_error + unit) \<times> FSBucket" where
  "os_rename flt b a p =
     (if flt SysRename a \<noteq> None \<or> p \<in> set (dirs b) then (Inl OsOther, b)
      else case map_of (files b) a of
          None \<Rightarrow> (Inl (missing b a), b)
        | Some d \<Rightarrow> (Inr (), b\<lparr>files := AList.update p d (AList.delete a (files b))\<rparr>))"

definition os_link :: "faults \<Rightarrow> FSBucket \<Rightarrow> path \<Rightarrow> path \<Rightarrow> (os_error + unit) \<times> FSBucket" where
  "os_link flt b a p =
     (if flt SysLink a \<noteq> None then (Inl OsOther, b)
      else if is_file b p \<or> p \<in> set (dirs b) then (Inl Exist, b)
      else case map_of (files b) a of
          None \<Rightarrow> (Inl (missing b a), b)
        | Some d \<Rightarrow> (Inr (), b\<lparr>files := AList.update p d (files b)\<rparr>))"

definition os_remove :: "faults \<Rightarrow> FSBucket \<Rightarrow> path \<Rightarrow> (os_error + unit) \<times> FSBucket" where
  "os_remove flt b p =
     (if flt SysRemove p \<noteq> None then (Inl OsOther, b)
      else if is_file b p then (Inr (), b\<lparr>files := AList.delete p (files b)\<rparr>)
      else if p \<in> set (dirs b)
        then if list_ex (strict_prefix p) (map fst (files b) @ dirs b) then (Inl OsOther, b)
             else (Inr (), b\<lparr>dirs := removeAll p (dirs b)\<rparr>)
      else (Inl (missing b p), b))"

text \<open>\<open>filepath.Walk\<close>: the files at or below a path.\<close>

definition walk :: "FSBucket \<Rightarrow> path \<Rightarrow> path list" where
  "walk b base = filter (prefix base) (map fst (files b))"

subsection \<open>Operations\<close>

definition NewFSBucket :: "path \<Rightarrow> FSBucket" where
  "NewFSBucket dir = \<lparr>root = dir, files = [], dirs = ancestors dir @ [dir]\<rparr>"

definition io_error :: bucket_error where "io_error = ErrOther ''io''"

definition getLocked :: "faults \<Rightarrow> (bytes \<Rightarrow> 'e) \<Rightarrow> FSBucket \<Rightarrow> string \<Rightarrow> bucket_error + bytes \<times> 'e" where
  "getLocked flt etag b k =
     (case os_read flt b (path_of b k) of
        Inl NotExist \<Rightarrow> Inl ErrNotFound
      | Inl _ \<Rightarrow> Inl io_error
      | Inr d \<Rightarrow> Inr (d, etag d))"

definition fsGet :: "faults \<Rightarrow> (bytes \<Rightarrow> 'e) \<Rightarrow> FSBucket \<Rightarrow> string \<Rightarrow> bucket_error + bytes \<times> 'e" where
  "fsGet = getLocked"

definition fsStat :: "faults \<Rightarrow> (bytes \<Rightarrow> 'e) \<Rightarrow> FSBucket \<Rightarrow> string \<Rightarrow> bucket_error + nat option \<times> 'e" where
  "fsStat flt etag b k =
     (case os_stat flt b (path_of b k) of
        Inl NotExist \<Rightarrow> Inl ErrNotFound
      | Inl _ \<Rightarrow> Inl io_error
      | Inr sz \<Rightarrow>
          (case os_read flt b (path_of b k) of Inl _ \<Rightarrow> Inl io_error | Inr d \<Rightarrow> Inr (sz, etag d)))"

text \<open>\<open>RangedGet\<close> adds 64-bit integers; a slice expression with a bad bound panics.\<close>

datatype range_error = RangeBucket bucket_error | OutOfBounds | SlicePanic

definition wrap64 :: "int \<Rightarrow> int" where
  "wrap64 x = (x + 2 ^ 63) mod 2 ^ 64 - 2 ^ 63"

definition fsRangedGet ::
  "faults \<Rightarrow> (bytes \<Rightarrow> 'e) \<Rightarrow> FSBucket \<Rightarrow> string \<Rightarrow> int \<Rightarrow> int \<Rightarrow> range_error + bytes \<times> 'e" where
  "fsRangedGet flt etag b k off len =
     (case fsGet flt etag b k of
        Inl e \<Rightarrow> Inl (RangeBucket e)
      | Inr (d, e) \<Rightarrow>
          if off < 0 \<or> len < 0 \<or> off > int (length d) then Inl OutOfBounds
          else
            (let stop = wrap64 (off + len);
                 stop' = (if stop > int (length d) then int (length d) else stop)
             in if stop' < off then Inl SlicePanic else Inr (bslice (nat off) (nat stop') d, e)))"

definition putLocked ::
  "faults \<Rightarrow> (bytes \<Rightarrow> 'e) \<Rightarrow> FSBucket \<Rightarrow> string \<Rightarrow> bytes \<Rightarrow> (bucket_error + 'e) \<times> FSBucket" where
  "putLocked flt etag b k d =
     (let p = path_of b k in
      case os_mkdirall flt b (butlast p) of
        (Inl _, b1) \<Rightarrow> (Inl io_error, b1)
      | (Inr _, b1) \<Rightarrow>
          (case os_write flt b1 (tmp_of p) d of
             (Inl _, b2) \<Rightarrow> (Inl io_error, b2)
           | (Inr _, b2) \<Rightarrow>
               (case os_rename flt b2 (tmp_of p) p of
                  (Inl _, b3) \<Rightarrow> (Inl io_error, b3)
                | (Inr _, b3) \<Rightarrow> (Inr (etag d), b3))))"

definition fsPut ::
  "faults \<Rightarrow> (bytes \<Rightarrow> 'e) \<Rightarrow> FSBucket \<Rightarrow> string \<Rightarrow> bytes \<Rightarrow> (bucket_error + 'e) \<times> FSBucket" where
  "fsPut = putLocked"

definition fsConditionalCreate ::
  "faults \<Rightarrow> (bytes \<Rightarrow> 'e) \<Rightarrow> FSBucket \<Rightarrow> string \<Rightarrow> bytes \<Rightarrow> (bucket_error + 'e) \<times> FSBucket" where
  "fsConditionalCreate flt etag b k d =
     (let p = path_of b k in
      case os_mkdirall flt b (butlast p) of
        (Inl _, b1) \<Rightarrow> (Inl io_error, b1)
      | (Inr _, b1) \<Rightarrow>
          (case os_stat flt b1 p of
             Inr _ \<Rightarrow> (Inl ErrPrecondition, b1)
           | Inl _ \<Rightarrow>
               (case os_write flt b1 (tmp_of p) d of
                  (Inl _, b2) \<Rightarrow> (Inl io_error, b2)
                | (Inr _, b2) \<Rightarrow>
                    (case os_link flt b2 (tmp_of p) p of
                       (Inl e, b3) \<Rightarrow>
                         (Inl (if e = Exist then ErrPrecondition else io_error), snd (os_remove flt b3 (tmp_of p)))
                     | (Inr _, b3) \<Rightarrow> (Inr (etag d), snd (os_remove flt b3 (tmp_of p)))))))"

definition fsCAS ::
  "faults \<Rightarrow> (bytes \<Rightarrow> 'e) \<Rightarrow> FSBucket \<Rightarrow> string \<Rightarrow> bytes \<Rightarrow> 'e \<Rightarrow> (bucket_error + 'e) \<times> FSBucket" where
  "fsCAS flt etag b k d expect =
     (case getLocked flt etag b k of
        Inl e \<Rightarrow> (Inl e, b)
      | Inr (_, cur) \<Rightarrow> if cur \<noteq> expect then (Inl ErrPrecondition, b) else putLocked flt etag b k d)"

definition fsConditionalDelete ::
  "faults \<Rightarrow> (bytes \<Rightarrow> 'e) \<Rightarrow> FSBucket \<Rightarrow> string \<Rightarrow> 'e \<Rightarrow> (bucket_error + unit) \<times> FSBucket" where
  "fsConditionalDelete flt etag b k expect =
     (case getLocked flt etag b k of
        Inl e \<Rightarrow> (Inl (if e = ErrNotFound then ErrPrecondition else e), b)
      | Inr (_, cur) \<Rightarrow>
          if cur \<noteq> expect then (Inl ErrPrecondition, b)
          else case os_remove flt b (path_of b k) of
              (Inl e, b') \<Rightarrow> (if e = NotExist then Inr () else Inl io_error, b')
            | (Inr _, b') \<Rightarrow> (Inr (), b'))"

definition fsDelete :: "faults \<Rightarrow> FSBucket \<Rightarrow> string \<Rightarrow> (bucket_error + unit) \<times> FSBucket" where
  "fsDelete flt b k =
     (case os_remove flt b (path_of b k) of
        (Inl e, b') \<Rightarrow> (if e = NotExist then Inr () else Inl io_error, b')
      | (Inr _, b') \<Rightarrow> (Inr (), b'))"

definition fsList :: "FSBucket \<Rightarrow> string \<Rightarrow> string list" where
  "fsList b p =
     sort (filter (\<lambda>k. \<not> HasSuffix k ''.tmp'') (map (rel_key b) (walk b (path_of b p))))"

definition fsPresignGet :: "faults \<Rightarrow> FSBucket \<Rightarrow> string \<Rightarrow> bucket_error + path" where
  "fsPresignGet flt b k =
     (case os_stat flt b (path_of b k) of
        Inl NotExist \<Rightarrow> Inl ErrNotFound
      | Inl _ \<Rightarrow> Inl io_error
      | Inr _ \<Rightarrow> Inr (path_of b k))"

subsection \<open>Listings\<close>

record 'e ObjectInfo =
  InfoKey :: string
  InfoSize :: "nat option"
  InfoETag :: 'e

definition object_info :: "faults \<Rightarrow> (bytes \<Rightarrow> 'e) \<Rightarrow> FSBucket \<Rightarrow> string \<Rightarrow> 'e ObjectInfo option" where
  "object_info flt etag b k =
     (case (os_stat flt b (path_of b k), os_read flt b (path_of b k)) of
        (Inr sz, Inr d) \<Rightarrow> Some \<lparr>InfoKey = k, InfoSize = sz, InfoETag = etag d\<rparr>
      | _ \<Rightarrow> None)"

definition fsListSizes :: "faults \<Rightarrow> (bytes \<Rightarrow> 'e) \<Rightarrow> FSBucket \<Rightarrow> string \<Rightarrow> 'e ObjectInfo list" where
  "fsListSizes flt etag b p = List.map_filter (object_info flt etag b) (fsList b p)"

text \<open>The directory \<open>ListPage\<close> walks: the prefix itself when it names a directory, its parent otherwise.\<close>

definition page_base :: "faults \<Rightarrow> FSBucket \<Rightarrow> string \<Rightarrow> path" where
  "page_base flt b p =
     (case os_stat flt b (path_of b p) of
        Inr None \<Rightarrow> path_of b p
      | _ \<Rightarrow> path_of b (if CHR ''/'' \<in> set p then rev (dropWhile (\<lambda>c. c \<noteq> CHR ''/'') (rev p)) else []))"

text \<open>One visited key: kept in order, at most \<open>limit + 1\<close> of them.\<close>

definition keep :: "string \<Rightarrow> string \<Rightarrow> nat \<Rightarrow> string \<Rightarrow> string list \<Rightarrow> string list" where
  "keep p after limit k kept =
     (if \<not> HasPrefix k p \<or> HasSuffix k ''.tmp'' then kept
      else if k \<le> after then kept
      else if length kept < limit + 1 then sort (kept @ [k])
      else if k < last kept then sort (butlast kept @ [k])
      else kept)"

definition fsListPage ::
  "faults \<Rightarrow> (bytes \<Rightarrow> 'e) \<Rightarrow> FSBucket \<Rightarrow> string \<Rightarrow> string \<Rightarrow> int \<Rightarrow> 'e ObjectInfo list \<times> string" where
  "fsListPage flt etag b p after limit =
     (let n = (if limit \<le> 0 then 100 else nat limit);
          kept = fold (keep p after n) (map (rel_key b) (walk b (page_base flt b p))) [];
          next = (if length kept > n then kept ! (n - 1) else [])
      in (List.map_filter (object_info flt etag b) (take n kept), next))"

definition dirHasFile :: "FSBucket \<Rightarrow> path \<Rightarrow> bool" where
  "dirHasFile b d \<longleftrightarrow> list_ex (\<lambda>p. \<not> HasSuffix (last p) ''.tmp'') (walk b d)"

text \<open>The names of the directories directly below one.\<close>

definition subdirs :: "FSBucket \<Rightarrow> path \<Rightarrow> string list" where
  "subdirs b d = sort (remdups (map last (filter (\<lambda>q. q \<noteq> [] \<and> butlast q = d) (dirs b))))"

definition fsCommonPrefixes :: "FSBucket \<Rightarrow> string \<Rightarrow> string \<Rightarrow> string list" where
  "fsCommonPrefixes b p delimiter =
     (let d = (if delimiter = [] then ''/'' else delimiter); base = path_of b p in
      map (\<lambda>n. p @ n @ d) (filter (\<lambda>n. dirHasFile b (base @ [n])) (subdirs b base)))"

subsection \<open>Paths stay below the root\<close>

lemma clean_parts_set:
  "c \<in> set (clean_parts acc ps) \<Longrightarrow> c \<in> set acc \<or> c \<in> set ps \<and> c \<notin> {[], ''.'', ''..''}"
proof (induction acc ps rule: clean_parts.induct)
  case (2 acc p ps)
  then show ?case by (auto split: if_splits dest: in_set_butlastD)
qed simp


subsection \<open>Bounded selection\<close>

lemma take_insort_less:
  "sorted L \<Longrightarrow> n < length L \<Longrightarrow> k < L ! n \<Longrightarrow> take (Suc n) (insort k L) = insort k (take n (L :: 'a :: linorder list))"
proof (induction L arbitrary: n)
  case (Cons x L)
  show ?case
  proof (cases n)
    case 0
    with Cons show ?thesis by (simp add: less_imp_le)
  next
    case (Suc m)
    with Cons show ?thesis by auto
  qed
qed simp

lemma take_insort_ge:
  "sorted L \<Longrightarrow> n < length L \<Longrightarrow> \<not> k < L ! n \<Longrightarrow> take (Suc n) (insort k L) = take (Suc n) (L :: 'a :: linorder list)"
proof (induction L arbitrary: n)
  case (Cons x L)
  show ?case
  proof (cases n)
    case 0
    with Cons show ?thesis by (cases L) auto
  next
    case (Suc m)
    with Cons have m: "m < length L" "\<not> k < L ! m" by simp_all
    show ?thesis
    proof (cases "k \<le> x")
      case True
      have eq: "L ! i = x" if "i \<le> m" for i
      proof (rule order_antisym)
        have "L ! i \<le> L ! m" using Cons.prems(1) m(1) that by (auto intro: sorted_nth_mono)
        with m(2) True show "L ! i \<le> x" by simp
        show "x \<le> L ! i" using Cons.prems(1) m(1) that by simp
      qed
      have r: "take j L = replicate j x" if "j \<le> Suc m" for j
        using that m(1) eq by (intro nth_equalityI) auto
      have "k = x" using eq [of m] m(2) True by simp
      with Suc True r [of m] r [of "Suc m"] show ?thesis by (simp add: replicate_append_same)
    next
      case False
      with Cons.IH [OF _ m] Cons.prems Suc show ?thesis by simp
    qed
  qed
qed simp

lemma sort_snoc: "sort (xs @ [k]) = insort k (sort (xs :: 'a :: linorder list))"
  by (rule properties_for_sort) (simp_all add: sorted_insort)

lemma keep_step:
  assumes "kept = take (Suc n) (sort xs)"
  shows "keep p after n k kept =
    take (Suc n) (sort (xs @ (if HasPrefix k p \<and> \<not> HasSuffix k ''.tmp'' \<and> after < k then [k] else [])))"
proof (cases "HasPrefix k p \<and> \<not> HasSuffix k ''.tmp'' \<and> after < k")
  case ok: True
  show ?thesis
  proof (cases "length kept < Suc n")
    case True
    then have "kept = sort xs" and l: "length xs < Suc n" using assms by auto
    then have "sort (kept @ [k]) = sort (xs @ [k])" by (simp add: sort_snoc sorted_sort_id)
    with ok True l show ?thesis by (auto simp: keep_def)
  next
    case False
    then have n: "n < length (sort xs)" using assms by simp
    then have last: "last kept = sort xs ! n" and bl: "butlast kept = take n (sort xs)"
      using assms by (simp_all add: take_Suc_conv_app_nth)
    have so: "sort (take n (sort xs) @ [k]) = insort k (take n (sort xs))"
      by (simp add: sort_snoc sorted_sort_id sorted_wrt_take)
    show ?thesis
      using ok False last bl so assms take_insort_less [OF _ n, of k] take_insort_ge [OF _ n, of k]
      by (auto simp: keep_def sort_snoc)
  qed
next
  case False
  with assms show ?thesis by (auto simp: keep_def)
qed

lemma keep_fold:
  "fold (keep p after n) ks (take (Suc n) (sort xs)) =
     take (Suc n) (sort (xs @ filter (\<lambda>k. HasPrefix k p \<and> \<not> HasSuffix k ''.tmp'' \<and> after < k) ks))"
  by (induction ks arbitrary: xs) (auto simp: keep_step)

subsection \<open>The filesystem bucket implements the contract\<close>

text \<open>On a set of keys that can coexist as files (canonical, no component that looks like a temporary file, none
  the directory of another) and without input/output errors.\<close>

definition canonical :: "string \<Rightarrow> bool" where
  "canonical k \<longleftrightarrow> (\<forall>c\<in>set (split_on (CHR ''/'') k). c \<notin> {[], ''.'', ''..''} \<and> \<not> HasSuffix c ''.tmp'')"

definition parts :: "string \<Rightarrow> path" where
  "parts k = split_on (CHR ''/'') k"

definition keyspace :: "string set \<Rightarrow> bool" where
  "keyspace K \<longleftrightarrow> (\<forall>k\<in>K. canonical k) \<and> (\<forall>k\<in>K. \<forall>l\<in>K. prefix (parts k) (parts l) \<longrightarrow> k = l)"

definition fs_inv :: "path \<Rightarrow> string set \<Rightarrow> FSBucket \<Rightarrow> bool" where
  "fs_inv r K b \<longleftrightarrow>
     root b = r \<and> distinct (map fst (files b))
     \<and> (\<forall>p. is_file b p \<longrightarrow> (\<exists>k\<in>K. p = r @ parts k \<or> p = tmp_of (r @ parts k)))
     \<and> (\<forall>d\<in>set (dirs b). prefix d r \<or> (\<exists>k\<in>K. strict_prefix d (r @ parts k)))"

definition fs_abs :: "path \<Rightarrow> string set \<Rightarrow> FSBucket \<Rightarrow> bytes objects" where
  "fs_abs r K b = (\<lambda>k. if k \<in> K then map_of (files b) (r @ parts k) else None)"

abbreviation nofault :: faults where "nofault \<equiv> \<lambda>_ _. None"

definition fs_ops :: "(bytes \<Rightarrow> 'e) \<Rightarrow> (FSBucket, bytes, 'e) bucket_ops" where
  "fs_ops etag =
     \<lparr>op_get = fsGet nofault etag, op_create = fsConditionalCreate nofault etag, op_cas = fsCAS nofault etag,
      op_cdelete = fsConditionalDelete nofault etag, op_put = fsPut nofault etag, op_delete = fsDelete nofault,
      op_list = (\<lambda>b p. Inr (fsList b p))\<rparr>"

lemma clean_parts_id: "(\<And>c. c \<in> set ps \<Longrightarrow> c \<notin> {[], ''.'', ''..''}) \<Longrightarrow> clean_parts acc ps = acc @ ps"
  by (induction ps arbitrary: acc) auto

lemma parts_nonempty [simp]: "parts k \<noteq> []"
  by (simp add: parts_def)

lemma path_of_canonical: "canonical k \<Longrightarrow> path_of b k = root b @ parts k"
  by (simp add: path_of_def parts_def canonical_def clean_parts_id)

lemma parts_inj: "parts k = parts l \<Longrightarrow> k = l"
  unfolding parts_def by (metis join_split)

lemma tmp_not_parts:
  assumes "canonical l" "k \<noteq> []"
  shows "\<not> prefix (tmp_of (r @ k)) (r @ parts l)"
proof
  assume "prefix (tmp_of (r @ k)) (r @ parts l)"
  with assms(2) have "prefix (butlast k @ [last k @ ''.tmp'']) (parts l)"
    by (simp add: tmp_of_def butlast_append)
  then have "last k @ ''.tmp'' \<in> set (parts l)"
    using set_mono_prefix by fastforce
  with assms(1) show False by (auto simp: canonical_def parts_def HasSuffix_iff)
qed

lemma strict_prefix_tmp: "p \<noteq> [] \<Longrightarrow> strict_prefix q (tmp_of p) \<longleftrightarrow> strict_prefix q p"
proof -
  have sn: "strict_prefix q (xs @ [x]) \<longleftrightarrow> prefix q xs" for q xs and x :: string
    by (auto simp: strict_prefix_def prefix_snoc)
  assume "p \<noteq> []"
  then obtain xs x where "p = xs @ [x]" by (metis append_butlast_last_id)
  then show ?thesis by (simp add: tmp_of_def sn)
qed

lemma ancestors_iff: "q \<in> set (ancestors p) \<longleftrightarrow> strict_prefix q p"
proof
  assume "q \<in> set (ancestors p)"
  then show "strict_prefix q p"
    by (auto simp: ancestors_def strict_prefix_def take_is_prefix)
next
  assume s: "strict_prefix q p"
  then obtain zs where "p = q @ zs" "zs \<noteq> []" by (auto simp: strict_prefix_def prefix_def)
  then show "q \<in> set (ancestors p)"
    by (auto simp: ancestors_def intro!: image_eqI [of _ _ "length q"])
qed

lemma file_above_iff: "file_above b p \<longleftrightarrow> (\<exists>q. is_file b q \<and> strict_prefix q p)"
  by (auto simp: file_above_def list_ex_iff ancestors_iff)

text \<open>The situation of a key of the keyspace: nothing stands in the way of its file or of its temporary.\<close>

lemma keyspace_clear:
  assumes K: "keyspace K" and inv: "fs_inv r K b" and k: "k \<in> K"
  shows "path_of b k = r @ parts k"
    and "r @ parts k \<notin> set (dirs b)" and "tmp_of (r @ parts k) \<notin> set (dirs b)"
    and "\<not> file_above b (r @ parts k)" and "\<not> file_above b (tmp_of (r @ parts k))"
proof -
  have c: "canonical l" if "l \<in> K" for l using K that by (simp add: keyspace_def)
  show "path_of b k = r @ parts k" using path_of_canonical [OF c [OF k]] inv by (simp add: fs_inv_def)
  have pk: "l = k" if "l \<in> K" "prefix (parts l) (parts k)" for l using K k that by (simp add: keyspace_def)
  have kp: "l = k" if "l \<in> K" "prefix (parts k) (parts l)" for l using K k that by (auto simp: keyspace_def)
  show "r @ parts k \<notin> set (dirs b)"
  proof
    assume "r @ parts k \<in> set (dirs b)"
    with inv obtain l where "l \<in> K" "strict_prefix (r @ parts k) (r @ parts l)"
      by (auto simp: fs_inv_def prefix_def)
    then show False using kp by (auto simp: strict_prefix_def)
  qed
  show "tmp_of (r @ parts k) \<notin> set (dirs b)"
  proof
    assume t: "tmp_of (r @ parts k) \<in> set (dirs b)"
    have "\<not> prefix (tmp_of (r @ parts k)) r"
      by (auto simp: tmp_of_def butlast_append prefix_def)
    with t inv obtain l where "l \<in> K" "strict_prefix (tmp_of (r @ parts k)) (r @ parts l)"
      by (auto simp: fs_inv_def)
    then show False using tmp_not_parts [OF c] by (auto simp: strict_prefix_def)
  qed
  show fa: "\<not> file_above b (r @ parts k)"
  proof
    assume "file_above b (r @ parts k)"
    then obtain q where q: "is_file b q" "strict_prefix q (r @ parts k)" by (auto simp: file_above_iff)
    with inv obtain l where l: "l \<in> K" "q = r @ parts l \<or> q = tmp_of (r @ parts l)" by (auto simp: fs_inv_def)
    then show False
      using q(2) pk [of l] tmp_not_parts [OF c [OF k], of "parts l" r] by (auto simp: strict_prefix_def)
  qed
  then show "\<not> file_above b (tmp_of (r @ parts k))"
    by (simp add: file_above_iff strict_prefix_tmp)
qed

lemma mkdir_step:
  assumes K: "keyspace K" and inv: "fs_inv r K b" and k: "k \<in> K"
  obtains ds where "os_mkdirall nofault b (butlast (r @ parts k)) = (Inr (), b\<lparr>dirs := ds\<rparr>)"
    and "fs_inv r K (b\<lparr>dirs := ds\<rparr>)"
proof -
  let ?p = "r @ parts k"
  have bl: "strict_prefix q ?p" if "prefix q (butlast ?p)" for q
    using that by (metis append_butlast_last_id append_is_Nil_conv parts_nonempty prefix_order.le_less_trans
        prefix_prefix prefixI strict_prefix_def not_Cons_self2 append_self_conv)
  have "\<not> is_file b (butlast ?p)" "\<not> file_above b (butlast ?p)"
    using keyspace_clear(4) [OF K inv k] bl by (auto simp: file_above_iff strict_prefix_def)
  then have "os_mkdirall nofault b (butlast ?p) = (Inr (), b\<lparr>dirs := dirs b @ ancestors (butlast ?p) @ [butlast ?p]\<rparr>)"
    by (simp add: os_mkdirall_def)
  moreover have "strict_prefix d ?p" if "d \<in> set (ancestors (butlast ?p) @ [butlast ?p])" for d
    using that bl by (auto simp: ancestors_iff strict_prefix_def)
  then have "fs_inv r K (b\<lparr>dirs := dirs b @ ancestors (butlast ?p) @ [butlast ?p]\<rparr>)"
    using inv k unfolding fs_inv_def is_file_def set_append by (simp, blast)
  ultimately show ?thesis by (rule that)
qed

lemma fs_inv_files:
  assumes "fs_inv r K b" "distinct (map fst fs)"
    and "\<And>p. map_of fs p \<noteq> None \<Longrightarrow> is_file b p \<or> (\<exists>k\<in>K. p = r @ parts k \<or> p = tmp_of (r @ parts k))"
  shows "fs_inv r K (b\<lparr>files := fs\<rparr>)"
proof -
  have "\<exists>k\<in>K. p = r @ parts k \<or> p = tmp_of (r @ parts k)" if "map_of fs p \<noteq> None" for p
    using assms(3) [OF that] assms(1) unfolding fs_inv_def by blast
  with assms(1,2) show ?thesis by (simp add: fs_inv_def is_file_def)
qed

lemma tmp_neq: "keyspace K \<Longrightarrow> l \<in> K \<Longrightarrow> r @ parts l \<noteq> tmp_of (r @ parts k)"
  using tmp_not_parts [of l "parts k" r] by (auto simp: keyspace_def)

lemma putLocked_ok:
  assumes K: "keyspace K" and inv: "fs_inv r K b" and k: "k \<in> K"
    and put: "putLocked nofault etag b k d = (x, b')"
  shows "fs_inv r K b' \<and> x = Inr (etag d) \<and> fs_abs r K b' = (fs_abs r K b)(k \<mapsto> d)"
proof -
  let ?p = "r @ parts k"
  obtain ds where mk: "os_mkdirall nofault b (butlast ?p) = (Inr (), b\<lparr>dirs := ds\<rparr>)"
    and i1: "fs_inv r K (b\<lparr>dirs := ds\<rparr>)"
    using mkdir_step [OF K inv k] .
  let ?b1 = "b\<lparr>dirs := ds\<rparr>"
  let ?f2 = "AList.update (tmp_of ?p) d (files b)"
  let ?b2 = "?b1\<lparr>files := ?f2\<rparr>"
  let ?b3 = "?b1\<lparr>files := AList.update ?p d (AList.delete (tmp_of ?p) ?f2)\<rparr>"
  note c1 = keyspace_clear [OF K i1 k]
  have w: "os_write nofault ?b1 (tmp_of ?p) d = (Inr (), ?b2)" using c1 by (simp add: os_write_def)
  have rn: "os_rename nofault ?b2 (tmp_of ?p) ?p = (Inr (), ?b3)"
    using c1 by (simp add: os_rename_def update_conv')
  have di: "distinct (map fst (files b))" using inv by (simp add: fs_inv_def)
  have b': "b' = ?b3" and x: "x = Inr (etag d)"
    using put keyspace_clear(1) [OF K inv k] mk w rn by (simp_all add: putLocked_def Let_def)
  have "fs_inv r K ?b3"
  proof (rule fs_inv_files [OF i1])
    show "distinct (map fst (AList.update ?p d (AList.delete (tmp_of ?p) ?f2)))"
      using di by (simp add: distinct_update distinct_delete)
    fix p
    assume "map_of (AList.update ?p d (AList.delete (tmp_of ?p) ?f2)) p \<noteq> None"
    with k show "is_file ?b1 p \<or> (\<exists>k\<in>K. p = r @ parts k \<or> p = tmp_of (r @ parts k))"
      by (auto simp: update_conv' delete_conv' is_file_def split: if_splits)
  qed
  moreover have "fs_abs r K ?b3 = (fs_abs r K b)(k \<mapsto> d)"
    using k tmp_neq [OF K, of _ r k] by (auto simp: fs_abs_def update_conv' delete_conv' fun_eq_iff dest: parts_inj)
  ultimately show ?thesis using b' x by simp
qed

lemma getLocked_ok:
  assumes "keyspace K" "fs_inv r K b" "k \<in> K"
  shows "getLocked nofault etag b k = bucket_get etag (fs_abs r K b) k"
  using keyspace_clear [OF assms] assms(3)
  by (auto simp: getLocked_def os_read_def missing_def bucket_get_def fs_abs_def split: option.splits)

lemma remove_ok:
  assumes "keyspace K" "fs_inv r K b" "k \<in> K" "os_remove nofault b (r @ parts k) = (x, b')"
  shows "fs_inv r K b' \<and> fs_abs r K b' = (fs_abs r K b)(k := None) \<and> x \<noteq> Inl OsOther \<and> x \<noteq> Inl Exist"
proof (cases "is_file b (r @ parts k)")
  case True
  then have b': "b' = b\<lparr>files := AList.delete (r @ parts k) (files b)\<rparr>" and "x = Inr ()"
    using assms(4) by (simp_all add: os_remove_def)
  moreover have "fs_inv r K b'"
    unfolding b' using assms(2)
    by (intro fs_inv_files) (auto simp: fs_inv_def distinct_delete delete_conv' is_file_def split: if_splits)
  moreover have "fs_abs r K b' = (fs_abs r K b)(k := None)"
    using assms(3) unfolding b' by (auto simp: fs_abs_def delete_conv' fun_eq_iff dest: parts_inj)
  ultimately show ?thesis by simp
next
  case False
  then have "b' = b" "x = Inl NotExist"
    using assms(4) keyspace_clear [OF assms(1-3)] by (simp_all add: os_remove_def missing_def)
  moreover have "fs_abs r K b = (fs_abs r K b)(k := None)"
    using False by (auto simp: fs_abs_def is_file_def fun_eq_iff)
  ultimately show ?thesis using assms(2) by simp
qed

lemma create_ok:
  assumes K: "keyspace K" and inv: "fs_inv r K b" and k: "k \<in> K"
    and cr: "fsConditionalCreate nofault etag b k d = (x, b')"
  shows "fs_inv r K b' \<and> bucket_create etag (fs_abs r K b) k d = (x, fs_abs r K b')"
proof -
  let ?p = "r @ parts k"
  obtain ds where mk: "os_mkdirall nofault b (butlast ?p) = (Inr (), b\<lparr>dirs := ds\<rparr>)"
    and i1: "fs_inv r K (b\<lparr>dirs := ds\<rparr>)"
    using mkdir_step [OF K inv k] .
  let ?b1 = "b\<lparr>dirs := ds\<rparr>"
  note c1 = keyspace_clear [OF K i1 k]
  have a1: "fs_abs r K ?b1 = fs_abs r K b" by (simp add: fs_abs_def fun_eq_iff)
  show ?thesis
  proof (cases "map_of (files b) ?p")
    case (Some e)
    then have "b' = ?b1" "x = Inl ErrPrecondition"
      using cr keyspace_clear(1) [OF K inv k] mk by (simp_all add: fsConditionalCreate_def Let_def os_stat_def)
    with i1 a1 Some k show ?thesis by (simp add: bucket_create_def fs_abs_def)
  next
    case None
    let ?f2 = "AList.update (tmp_of ?p) d (files b)"
    let ?f3 = "AList.update ?p d ?f2"
    let ?b3 = "?b1\<lparr>files := AList.delete (tmp_of ?p) ?f3\<rparr>"
    have st: "os_stat nofault ?b1 ?p = Inl NotExist"
      using c1 None by (simp add: os_stat_def missing_def)
    have w: "os_write nofault ?b1 (tmp_of ?p) d = (Inr (), ?b1\<lparr>files := ?f2\<rparr>)" using c1 by (simp add: os_write_def)
    have ln: "os_link nofault (?b1\<lparr>files := ?f2\<rparr>) (tmp_of ?p) ?p = (Inr (), ?b1\<lparr>files := ?f3\<rparr>)"
      using c1 None tmp_neq [OF K k, of r k, symmetric] by (simp add: os_link_def update_conv' is_file_def)
    have rm: "snd (os_remove nofault (?b1\<lparr>files := ?f3\<rparr>) (tmp_of ?p)) = ?b3"
      using tmp_neq [OF K k, of r k, symmetric] by (simp add: os_remove_def is_file_def update_conv')
    have b': "b' = ?b3" and x: "x = Inr (etag d)"
      using cr keyspace_clear(1) [OF K inv k] mk st w ln rm by (simp_all add: fsConditionalCreate_def Let_def)
    have "fs_inv r K ?b3"
    proof (rule fs_inv_files [OF i1])
      show "distinct (map fst (AList.delete (tmp_of ?p) ?f3))"
        using inv by (simp add: fs_inv_def distinct_update distinct_delete)
      fix p
      assume "map_of (AList.delete (tmp_of ?p) ?f3) p \<noteq> None"
      with k show "is_file ?b1 p \<or> (\<exists>k\<in>K. p = r @ parts k \<or> p = tmp_of (r @ parts k))"
        by (auto simp: update_conv' delete_conv' is_file_def split: if_splits)
    qed
    moreover have "fs_abs r K ?b3 = (fs_abs r K b)(k \<mapsto> d)"
      using k tmp_neq [OF K, of _ r k] by (auto simp: fs_abs_def update_conv' delete_conv' fun_eq_iff dest: parts_inj)
    ultimately show ?thesis using b' x None k by (simp add: bucket_create_def fs_abs_def)
  qed
qed

text \<open>Listings: a prefix that ends in a separator and is not itself a key followed by one.\<close>

definition dir_prefix :: "string set \<Rightarrow> string \<Rightarrow> bool" where
  "dir_prefix K pre \<longleftrightarrow>
     (\<exists>cs. cs \<noteq> [] \<and> (\<forall>c\<in>set cs. c \<notin> {[], ''.'', ''..''} \<and> CHR ''/'' \<notin> set c)
        \<and> pre = join_with (CHR ''/'') cs @ ''/'' \<and> join_with (CHR ''/'') cs \<notin> K)"

lemma split_on_join_append:
  "cs \<noteq> [] \<Longrightarrow> (\<And>c. c \<in> set cs \<Longrightarrow> sep \<notin> set c) \<Longrightarrow>
   split_on sep (join_with sep cs @ sep # s) = cs @ split_on sep s"
  by (induction sep cs rule: join_with.induct) (auto simp: split_on_append)

lemma join_append:
  "cs \<noteq> [] \<Longrightarrow> ds \<noteq> [] \<Longrightarrow> join_with sep (cs @ ds) = join_with sep cs @ sep # join_with sep ds"
proof (induction sep cs rule: join_with.induct)
  case (2 sep w)
  then show ?case by (cases ds) auto
qed auto

lemma split_on_word_end:
  "sep \<notin> set s \<Longrightarrow> split_on sep (u @ s) = butlast (split_on sep u) @ [last (split_on sep u) @ s]"
proof (induction u)
  case Nil
  then show ?case by (simp add: split_on_word)
next
  case (Cons c u)
  obtain w ws where "split_on sep u = w # ws" by (metis list.exhaust split_on_nonempty)
  with Cons show ?case by (auto split: list.splits)
qed

lemma canonical_no_tmp: "canonical k \<Longrightarrow> \<not> HasSuffix k ''.tmp''"
proof
  assume c: "canonical k" and "HasSuffix k ''.tmp''"
  then obtain u where "k = u @ ''.tmp''" by (auto simp: HasSuffix_iff)
  then have "last (split_on (CHR ''/'') u) @ ''.tmp'' \<in> set (split_on (CHR ''/'') k)"
    by (simp add: split_on_word_end)
  with c show False by (auto simp: canonical_def HasSuffix_iff)
qed

lemma rel_key_parts: "root b = r \<Longrightarrow> rel_key b (r @ parts k) = k"
  by (simp add: rel_key_def parts_def)

lemma rel_key_tmp: "root b = r \<Longrightarrow> rel_key b (tmp_of (r @ parts k)) = k @ ''.tmp''"
proof -
  assume r: "root b = r"
  have "split_on (CHR ''/'') (k @ ''.tmp'') = butlast (parts k) @ [last (parts k) @ ''.tmp'']"
    by (simp add: split_on_word_end parts_def)
  then have "join_with (CHR ''/'') (butlast (parts k) @ [last (parts k) @ ''.tmp'']) = k @ ''.tmp''"
    by (metis join_split)
  with r show ?thesis by (simp add: rel_key_def tmp_of_def butlast_append)
qed

lemma join_parts: "join_with (CHR ''/'') (parts k) = k"
  by (simp add: parts_def)

lemma is_file_iff: "is_file b p \<longleftrightarrow> p \<in> fst ` set (files b)"
  by (simp add: is_file_def map_of_eq_None_iff)

lemma rel_key_inj:
  assumes K: "keyspace K" and inv: "fs_inv r K b"
  shows "inj_on (rel_key b) {p. is_file b p}"
proof (rule inj_onI)
  have r: "root b = r" using inv by (simp add: fs_inv_def)
  fix p q
  assume "p \<in> {p. is_file b p}" "q \<in> {p. is_file b p}" and e: "rel_key b p = rel_key b q"
  then obtain k l where k: "k \<in> K" "p = r @ parts k \<or> p = tmp_of (r @ parts k)"
    and l: "l \<in> K" "q = r @ parts l \<or> q = tmp_of (r @ parts l)"
    using inv unfolding fs_inv_def by blast
  have "\<not> HasSuffix k ''.tmp''" "\<not> HasSuffix l ''.tmp''"
    using K k l canonical_no_tmp by (simp_all add: keyspace_def)
  then have "k \<noteq> l @ ''.tmp''" "l \<noteq> k @ ''.tmp''" by (auto simp: HasSuffix_iff)
  with e k(2) l(2) show "p = q"
    by (elim disjE) (simp_all add: rel_key_parts [OF r] rel_key_tmp [OF r])
qed

lemma list_ok:
  assumes K: "keyspace K" and inv: "fs_inv r K b" and Q: "dir_prefix K pre"
  shows "fsList b pre = bucket_list (fs_abs r K b) pre"
proof -
  from Q obtain cs where cs: "cs \<noteq> []" "\<And>c. c \<in> set cs \<Longrightarrow> c \<notin> {[], ''.'', ''..''} \<and> CHR ''/'' \<notin> set c"
    and pre: "pre = join_with (CHR ''/'') cs @ ''/''" and nk: "join_with (CHR ''/'') cs \<notin> K"
    by (auto simp: dir_prefix_def)
  have r: "root b = r" and di: "distinct (map fst (files b))" using inv by (simp_all add: fs_inv_def)
  have cl: "clean_parts acc (xs @ [[]]) = acc @ xs" if "\<And>c. c \<in> set xs \<Longrightarrow> c \<notin> {[], ''.'', ''..''}" for acc xs
    using that by (induction xs arbitrary: acc) auto
  have base: "path_of b pre = r @ cs"
    using split_on_join_append [OF cs(1), of "CHR ''/''" "[]"] cs(2) r by (simp add: path_of_def pre cl)
  have fk: "\<exists>k\<in>K. p = r @ parts k \<or> p = tmp_of (r @ parts k)" if "is_file b p" for p
    using inv that by (simp add: fs_inv_def)
  have kn: "\<not> HasSuffix k ''.tmp''" if "k \<in> K" for k using K canonical_no_tmp that by (auto simp: keyspace_def)
  let ?xs = "filter (\<lambda>k. \<not> HasSuffix k ''.tmp'') (map (rel_key b) (walk b (path_of b pre)))"
  have w: "set (walk b (path_of b pre)) = {p. is_file b p \<and> prefix (r @ cs) p}"
    by (auto simp: walk_def base is_file_iff)
  have "inj_on (rel_key b) (set (walk b (path_of b pre)))"
    using rel_key_inj [OF K inv] by (rule inj_on_subset) (auto simp: w)
  moreover have "distinct (walk b (path_of b pre))" using di by (simp add: walk_def)
  ultimately have d: "distinct ?xs"
    by (simp add: distinct_map)
  have "set ?xs = {k \<in> dom (fs_abs r K b). HasPrefix k pre}"
  proof (intro set_eqI iffI)
    fix x
    assume "x \<in> set ?xs"
    then obtain p where p: "is_file b p" "prefix (r @ cs) p" "x = rel_key b p" "\<not> HasSuffix x ''.tmp''"
      using w by auto
    with fk [of p] obtain k where k: "k \<in> K" "p = r @ parts k"
      by (auto simp: rel_key_tmp [OF r] HasSuffix_iff)
    then have x: "x = k" using p by (simp add: rel_key_parts [OF r])
    from p k obtain ds where ds: "parts k = cs @ ds" by (auto simp: prefix_def)
    have "ds \<noteq> []" using nk k(1) ds join_parts [of k] by auto
    then have "k = pre @ join_with (CHR ''/'') ds"
      using ds cs(1) join_append [of cs ds "CHR ''/''"] join_parts [of k] by (simp add: pre)
    then have "HasPrefix k pre" unfolding HasPrefix_iff by blast
    with p(1) k x show "x \<in> {k \<in> dom (fs_abs r K b). HasPrefix k pre}"
      by (auto simp: fs_abs_def is_file_def)
  next
    fix x
    assume "x \<in> {k \<in> dom (fs_abs r K b). HasPrefix k pre}"
    then have x: "x \<in> K" "is_file b (r @ parts x)" "HasPrefix x pre"
      by (auto simp: fs_abs_def is_file_def dom_def split: if_splits)
    then obtain u where "x = join_with (CHR ''/'') cs @ CHR ''/'' # u" by (auto simp: HasPrefix_iff pre)
    then have "parts x = cs @ parts u" using split_on_join_append [OF cs(1)] cs(2) by (simp add: parts_def)
    then have "r @ parts x \<in> set (walk b (path_of b pre))" using x w by simp
    then have "rel_key b (r @ parts x) \<in> set (map (rel_key b) (walk b (path_of b pre)))" by simp
    then show "x \<in> set ?xs" using kn [OF x(1)] by (simp add: rel_key_parts [OF r])
  qed
  then have "bucket_list (fs_abs r K b) pre = sorted_list_of_set (set ?xs)" by (simp add: bucket_list_def)
  also have "\<dots> = sort ?xs" unfolding sorted_list_of_set_sort_remdups distinct_remdups_id [OF d] ..
  finally show ?thesis by (simp add: fsList_def)
qed

interpretation fs: bucket_impl etag "fs_ops etag" "keyspace K" "fs_inv r K" "fs_abs r K" "\<lambda>k. k \<in> K" "dir_prefix K"
  for etag :: "bytes \<Rightarrow> 'e" and r K
proof unfold_locales
  fix b b' k d and x :: "bucket_error + 'e" and y :: "bucket_error + unit" and e :: 'e and p
  assume K: "keyspace K" and inv: "fs_inv r K b"
  show "op_list (fs_ops etag) b p = Inr (bucket_list (fs_abs r K b) p)" if "dir_prefix K p"
    using list_ok [OF K inv that] by (simp add: fs_ops_def)
  assume k: "k \<in> K"
  note g = getLocked_ok [OF K inv k, of etag]
  show "op_get (fs_ops etag) b k = bucket_get etag (fs_abs r K b) k"
    using g by (simp add: fs_ops_def fsGet_def)
  show "fs_inv r K b' \<and> bucket_create etag (fs_abs r K b) k d = (x, fs_abs r K b')"
    if "op_create (fs_ops etag) b k d = (x, b')"
    using create_ok [OF K inv k] that by (simp add: fs_ops_def)
  show "fs_inv r K b' \<and> x = Inr (etag d) \<and> fs_abs r K b' = (fs_abs r K b)(k \<mapsto> d)"
    if "op_put (fs_ops etag) b k d = (x, b')"
    using putLocked_ok [OF K inv k] that by (simp add: fs_ops_def fsPut_def)
  show "fs_inv r K b' \<and> bucket_cas etag (fs_abs r K b) k d e = (x, fs_abs r K b')"
    if "op_cas (fs_ops etag) b k d e = (x, b')"
    using that g inv putLocked_ok [OF K inv k, of etag d x b']
    by (auto simp: fs_ops_def fsCAS_def bucket_cas_def bucket_get_def split: option.splits if_splits)
  have rm: "path_of b k = r @ parts k" by (rule keyspace_clear(1) [OF K inv k])
  obtain z c where zc: "os_remove nofault b (r @ parts k) = (z, c)" by fastforce
  note rmk = remove_ok [OF K inv k zc]
  then have z: "z = Inr () \<or> z = Inl NotExist" by (cases z) (auto, metis os_error.exhaust)
  show "fs_inv r K b' \<and> bucket_cdelete etag (fs_abs r K b) k e = (y, fs_abs r K b')"
    if "op_cdelete (fs_ops etag) b k e = (y, b')"
    using that g inv rm zc rmk z
    by (auto simp: fs_ops_def fsConditionalDelete_def bucket_cdelete_def bucket_get_def
        split: option.splits if_splits)
  show "fs_inv r K b' \<and> y = Inr () \<and> fs_abs r K b' = (fs_abs r K b)(k := None)"
    if "op_delete (fs_ops etag) b k = (y, b')"
    using that rm zc rmk z by (auto simp: fs_ops_def fsDelete_def)
qed


definition fs_demo_keys :: "string set" where
  "fs_demo_keys = {''fleet/drain-token.json'', ''nodes/a.json''}"

lemma fs_demo_keyspace: "keyspace fs_demo_keys"
  by (simp add: keyspace_def fs_demo_keys_def canonical_def parts_def HasSuffix_def prefix_def)

lemma fs_demo_inv: "fs_inv [''data''] fs_demo_keys (NewFSBucket [''data''])"
  by (auto simp: fs_inv_def NewFSBucket_def is_file_def ancestors_iff strict_prefix_def ancestors_def)


subsection \<open>Failing writes\<close>

lemma fs_inv_tmp:
  assumes "fs_inv r K b" "k \<in> K"
  shows "fs_inv r K (b\<lparr>files := AList.update (tmp_of (r @ parts k)) d (files b)\<rparr>)"
  using assms
  by (intro fs_inv_files) (auto simp: fs_inv_def distinct_update update_conv' is_file_def split: if_splits)

lemma fs_abs_tmp:
  assumes "keyspace K"
  shows "fs_abs r K (b\<lparr>files := AList.update (tmp_of (r @ parts k)) d (files b)\<rparr>) = fs_abs r K b"
  using tmp_neq [OF assms, of _ r k] by (auto simp: fs_abs_def update_conv' fun_eq_iff)



subsection \<open>Pages\<close>

definition page_keys :: "faults \<Rightarrow> FSBucket \<Rightarrow> string \<Rightarrow> string \<Rightarrow> string list" where
  "page_keys flt b p after =
     sort (filter (\<lambda>k. HasPrefix k p \<and> \<not> HasSuffix k ''.tmp'' \<and> after < k) (map (rel_key b) (walk b (page_base flt b p))))"

lemma object_info_key:
  assumes K: "keyspace K" and inv: "fs_inv r K b" and p: "is_file b p" "\<not> HasSuffix (rel_key b p) ''.tmp''"
  shows "map_option InfoKey (object_info nofault etag b (rel_key b p)) = Some (rel_key b p)"
proof -
  have r: "root b = r" using inv by (simp add: fs_inv_def)
  obtain k where k: "k \<in> K" "p = r @ parts k"
    using inv p unfolding fs_inv_def by (auto simp: rel_key_tmp HasSuffix_iff)
  then have "rel_key b p = k" by (simp add: rel_key_parts [OF r])
  with p(1) k keyspace_clear(1) [OF K inv k(1)] show ?thesis
    by (auto simp: object_info_def os_stat_def os_read_def is_file_def)
qed

lemma map_filter_total:
  "(\<And>x. x \<in> set xs \<Longrightarrow> map_option f (g x) = Some x) \<Longrightarrow> map f (List.map_filter g xs) = xs"
  by (induction xs) (fastforce simp: List.map_filter_simps split: option.splits)+

text \<open>A page of the filesystem bucket is the first \<open>limit\<close> keys of the directory walked that carry the prefix and
  follow the cursor, in order, although only \<open>limit + 1\<close> keys are ever held; the cursor is empty exactly
  when nothing is left.\<close>

lemma fs_list_page_selects:
  assumes K: "keyspace K" and inv: "fs_inv r K b" and n: "0 < n"
    and page: "fsListPage nofault etag b p after (int n) = (infos, nxt)"
  shows "map InfoKey infos = take n (page_keys nofault b p after)
    \<and> nxt = (if length (page_keys nofault b p after) > n then page_keys nofault b p after ! (n - 1) else [])"
proof -
  let ?ks = "map (rel_key b) (walk b (page_base nofault b p))"
  have kept: "fold (keep p after n) ?ks [] = take (Suc n) (page_keys nofault b p after)"
    using keep_fold [of p after n ?ks "[]"] by (simp add: page_keys_def)
  have "map InfoKey (List.map_filter (object_info nofault etag b) (take n (page_keys nofault b p after)))
      = take n (page_keys nofault b p after)"
  proof (rule map_filter_total)
    fix x
    assume "x \<in> set (take n (page_keys nofault b p after))"
    then have "x \<in> set (page_keys nofault b p after)" by (rule in_set_takeD)
    then obtain q where "q \<in> set (walk b (page_base nofault b p))" "x = rel_key b q" "\<not> HasSuffix x ''.tmp''"
      by (auto simp: page_keys_def)
    then show "map_option InfoKey (object_info nofault etag b x) = Some x"
      using object_info_key [OF K inv, of q etag] by (auto simp: walk_def is_file_iff)
  qed
  then show ?thesis using page kept n by (auto simp: fsListPage_def Let_def)
qed

lemma fs_list_page_selects_applies:
  "\<exists>infos nxt. fsListPage nofault id (NewFSBucket [''data'']) ''nodes/'' [] (int 5) = (infos, nxt)
     \<and> map InfoKey infos = take 5 (page_keys nofault (NewFSBucket [''data'']) ''nodes/'' [])"
proof -
  obtain infos nxt where e: "fsListPage nofault id (NewFSBucket [''data'']) ''nodes/'' [] (int 5) = (infos, nxt)"
    by fastforce
  from fs_list_page_selects [OF fs_demo_keyspace fs_demo_inv _ e] e show ?thesis by auto
qed

subsection \<open>Limits of the filesystem bucket\<close>

text \<open>A key with the suffix of a temporary is overwritten by a put of another key.\<close>

lemma put_destroys_tmp_key:
  "\<exists>b. fsGet nofault id b ''a.tmp'' = Inr ([1], [1])
     \<and> fsGet nofault id (snd (fsPut nofault id b ''a'' [2])) ''a.tmp'' = Inl ErrNotFound"
proof -
  let ?b = "snd (fsPut nofault id (NewFSBucket [''d'']) ''a.tmp'' [1])"
  have "fsGet nofault id ?b ''a.tmp'' = Inr ([1], [1])" by code_simp
  moreover have "fsGet nofault id (snd (fsPut nofault id ?b ''a'' [2])) ''a.tmp'' = Inl ErrNotFound" by code_simp
  ultimately show ?thesis by blast
qed

text \<open>A prefix that names a directory hides the keys beside it that carry the same prefix.\<close>

lemma list_page_misses_sibling:
  "\<exists>b. fsGet nofault id b ''meta.txt'' = Inr ([1], [1]) \<and> HasPrefix ''meta.txt'' ''meta''
     \<and> map InfoKey (fst (fsListPage nofault id b ''meta'' [] 10)) = [''meta/x'']"
proof -
  let ?b = "snd (fsPut nofault id (snd (fsPut nofault id (NewFSBucket [''d'']) ''meta.txt'' [1])) ''meta/x'' [2])"
  have "fsGet nofault id ?b ''meta.txt'' = Inr ([1], [1])" by code_simp
  moreover have "map InfoKey (fst (fsListPage nofault id ?b ''meta'' [] 10)) = [''meta/x'']" by code_simp
  ultimately show ?thesis by (intro exI [of _ ?b]) simp
qed

text \<open>A range whose end overflows 64 bits is not clamped to the object: the slice expression panics.\<close>

lemma ranged_get_overflow:
  "fsGet flt etag b k = Inr (d, e) \<Longrightarrow> d \<noteq> [] \<Longrightarrow>
   fsRangedGet flt etag b k 1 (2 ^ 63 - 1) = Inl SlicePanic"
  by (cases d) (simp_all add: fsRangedGet_def wrap64_def Let_def)

end
