(* ===== verification/Lease.thy ===== *)
theory Lease
  imports Bucket
begin

text \<open>
  \<^verbatim>\<open>internal/lease\<close>: the liveness lease of a node session (lease.go) and the snapshot of the fleet's leases a
  node keeps (known_refresh.go). A lease manager is its configuration \<open>LManager\<close>; what it remembers is
  \<open>lease_mem\<close>, both extensible because the owner manager of the same process adds to them. \<open>None\<close> stands
  for the zero time and the empty tag. \<open>Publish\<close> and the bucket reads are handlers; the functions that
  only touch memory under the mutex take the clock reading the code takes.
\<close>

subsection \<open>Records\<close>

record Load =
  OwnedCells :: int
  Weight :: int
  ResidentCells :: int
  RSSBytes :: int
  CPUPercentX100 :: int
  Pressured :: bool
  MemoryHeadroom :: int
  ShedCells :: int
  Restoring :: int
  SampledMs :: int

record NodeLease =
  NLNode :: string
  NLSession :: string
  NLInstance :: string
  NLLiveness :: string
  NLAdvertise :: string
  NLPeerURL :: string
  NLAZ :: string
  NLExpiry :: int
  NLProto :: string
  NLLoad :: Load

definition NodeLeaseLiveness :: string where
  "NodeLeaseLiveness = ''node-lease-fence-v2-recovery-v3''"

definition LeaseKey :: "string \<Rightarrow> string" where
  "LeaseKey node = ''nodes/'' @ node @ ''.json''"

record LManager =
  LNodeID :: string
  LSessionID :: string
  LAdvert :: string
  LPeerURL :: string
  LAZ :: string
  LTTL :: int
  LInstance :: string

record 'e lease_mem =
  publishedExpiry :: "time option"
  fenced :: bool
  publishedETag :: "'e option"
  cached :: "NodeLease list option"
  cachedAt :: time
  refreshing :: bool
  retryAt :: time
  observed :: "string \<Rightarrow> time option"
  knownRunning :: bool

datatype lease_error =
    ErrFenced | ErrCtx | ErrHeld | ErrWriteExpired | ErrLeaseDecode | LeaseBucket bucket_error

type_synonym ('v, 'e, 'x, 'a) handler = "('v, 'e, ('e, 'x) lease_mem_scheme, lease_error + 'a) prog"

subsection \<open>Liveness and the fence\<close>

definition LeaseLive :: "NodeLease \<Rightarrow> time \<Rightarrow> bool" where
  "LeaseLive l now \<longleftrightarrow> UnixMilli now < NLExpiry l"

definition expired_at :: "time option \<Rightarrow> time \<Rightarrow> bool" where
  "expired_at pe now =
     (case pe of None \<Rightarrow> False | Some e \<Rightarrow> \<not> now < e \<or> UnixMilli now \<ge> UnixMilli e)"

definition expiredLocked :: "time \<Rightarrow> ('e, 'x) lease_mem_scheme \<Rightarrow> ('e, 'x) lease_mem_scheme" where
  "expiredLocked now w = (if expired_at (publishedExpiry w) now then w\<lparr>fenced := True\<rparr> else w)"

definition Fenced :: "('v, 'e, ('e, 'x) lease_mem_scheme, bool) prog" where
  "Fenced = Local expiredLocked (\<lambda>now w. Return (fenced (expiredLocked now w)))"

definition margin :: "'y LManager_scheme \<Rightarrow> int" where
  "margin m = (let d = LTTL m div 5 in if d \<le> 0 then 1000000000 else d)"

text \<open>\<open>HealthyUntil\<close> reads the clock itself.\<close>

definition HealthyUntil ::
  "'y LManager_scheme \<Rightarrow> time \<Rightarrow> ('e, 'x) lease_mem_scheme \<Rightarrow> time option \<times> ('e, 'x) lease_mem_scheme" where
  "HealthyUntil m clk w =
     (let w' = expiredLocked clk w in
      (if fenced w' then None else map_option (\<lambda>e. e - margin m) (publishedExpiry w), w'))"

definition Healthy ::
  "'y LManager_scheme \<Rightarrow> time \<Rightarrow> time \<Rightarrow> ('e, 'x) lease_mem_scheme \<Rightarrow> bool \<times> ('e, 'x) lease_mem_scheme" where
  "Healthy m now clk w =
     (let w1 = expiredLocked now w in
      if fenced w1 then (False, w1)
      else case HealthyUntil m clk w1 of
          (None, w2) \<Rightarrow> (False, w2)
        | (Some u, w2) \<Rightarrow> (now < u, w2))"

subsection \<open>Publish\<close>

definition lease_of :: "'y LManager_scheme \<Rightarrow> Load \<Rightarrow> time \<Rightarrow> NodeLease" where
  "lease_of m load expiry =
     \<lparr>NLNode = LNodeID m, NLSession = LSessionID m, NLInstance = LInstance m, NLLiveness = NodeLeaseLiveness,
      NLAdvertise = LAdvert m, NLPeerURL = LPeerURL m, NLAZ = LAZ m, NLExpiry = UnixMilli expiry,
      NLProto = ''v1'', NLLoad = load\<rparr>"

text \<open>After the write: the outcome is judged under the mutex.\<close>

definition publish_done ::
  "NodeLease \<Rightarrow> time \<Rightarrow> bucket_error + 'e \<Rightarrow> ('v, 'e, 'x, unit) handler" where
  "publish_done l expiry res =
     Local
       (\<lambda>now w.
          let w' = expiredLocked now w in
          if fenced w' then w'
          else case res of
              Inl e \<Rightarrow> if publishedETag w \<noteq> None \<and> e = ErrPrecondition then w'\<lparr>fenced := True\<rparr> else w'
            | Inr tag \<Rightarrow>
                if \<not> now < expiry \<or> UnixMilli now \<ge> NLExpiry l then w'
                else w'\<lparr>publishedETag := Some tag, publishedExpiry := Some expiry\<rparr>)
       (\<lambda>now w. Return (
          if fenced (expiredLocked now w) then Inl ErrFenced
          else case res of
              Inl e \<Rightarrow> if publishedETag w \<noteq> None \<and> e = ErrPrecondition then Inl ErrFenced else Inl (LeaseBucket e)
            | Inr _ \<Rightarrow> if \<not> now < expiry \<or> UnixMilli now \<ge> NLExpiry l then Inl ErrWriteExpired else Inr ()))"

definition publish_write ::
  "(NodeLease, 'v) codec \<Rightarrow> 'y LManager_scheme \<Rightarrow> NodeLease \<Rightarrow> time \<Rightarrow> 'e option \<Rightarrow> ('v, 'e, 'x, unit) handler" where
  "publish_write J m l expiry expected =
     bind Fenced (\<lambda>f.
       if f then Return (Inl ErrFenced)
       else case expected of
           None \<Rightarrow> Create (LeaseKey (LNodeID m)) (marshal J l) (publish_done l expiry)
         | Some tag \<Rightarrow> CAS (LeaseKey (LNodeID m)) (marshal J l) tag (publish_done l expiry))"

text \<open>The first write of a session reads what is there: an expired lease, its own, or one of the same
  persistent instance may be replaced.\<close>

definition publish_first ::
  "(NodeLease, 'v) codec \<Rightarrow> 'y LManager_scheme \<Rightarrow> NodeLease \<Rightarrow> time \<Rightarrow> ('v, 'e, 'x, unit) handler" where
  "publish_first J m l expiry =
     Get (LeaseKey (LNodeID m)) (\<lambda>x. case x of
         Inl ErrNotFound \<Rightarrow> publish_write J m l expiry None
       | Inl e \<Rightarrow> Return (Inl (LeaseBucket e))
       | Inr (previous, tag) \<Rightarrow>
           (case unmarshal J previous of
              None \<Rightarrow> Return (Inl ErrLeaseDecode)
            | Some prev \<Rightarrow>
                Local (\<lambda>_ w. w) (\<lambda>now _.
                  if LeaseLive prev now \<and> NLSession prev \<noteq> LSessionID m
                     \<and> (LInstance m = [] \<or> NLInstance prev \<noteq> LInstance m)
                  then Return (Inl ErrHeld)
                  else publish_write J m l expiry (Some tag))))"

definition Publish ::
  "(NodeLease, 'v) codec \<Rightarrow> bool \<Rightarrow> 'y LManager_scheme \<Rightarrow> Load \<Rightarrow> ('v, 'e, 'x, unit) handler" where
  "Publish J canceled m load =
     bind Fenced (\<lambda>f.
       if f then Return (Inl ErrFenced)
       else if canceled then Return (Inl ErrCtx)
       else Local (\<lambda>_ w. w) (\<lambda>t1 _.
         let load' = (if SampledMs load = 0 then load\<lparr>SampledMs := UnixMilli t1\<rparr> else load) in
         Local (\<lambda>_ w. w) (\<lambda>t2 w.
           let expiry = (case publishedExpiry w of Some e \<Rightarrow> max e (t2 + LTTL m) | None \<Rightarrow> t2 + LTTL m);
               l = lease_of m load' expiry
           in case publishedETag w of
                Some tag \<Rightarrow> publish_write J m l expiry (Some tag)
              | None \<Rightarrow> publish_first J m l expiry)))"

subsection \<open>The snapshot of the fleet\<close>

definition leases_of :: "('e, 'x) lease_mem_scheme \<Rightarrow> NodeLease list" where
  "leases_of w = (case cached w of None \<Rightarrow> [] | Some ls \<Rightarrow> ls)"

definition LegacyPeers :: "NodeLease list \<Rightarrow> string \<Rightarrow> time \<Rightarrow> NodeLease list" where
  "LegacyPeers leases self now =
     filter (\<lambda>l. \<not> (NLNode l = self \<or> \<not> LeaseLive l now \<or> NLLiveness l = NodeLeaseLiveness)) leases"

definition LegacyPeerVisible :: "'y LManager_scheme \<Rightarrow> time \<Rightarrow> ('e, 'x) lease_mem_scheme \<Rightarrow> bool" where
  "LegacyPeerVisible m now w \<longleftrightarrow> LegacyPeers (leases_of w) (LNodeID m) now \<noteq> []"

definition HasShedTarget :: "NodeLease list \<Rightarrow> string \<Rightarrow> time \<Rightarrow> bool" where
  "HasShedTarget leases self now =
     list_ex (\<lambda>l. \<not> (NLNode l = self \<or> \<not> LeaseLive l now \<or> Pressured (NLLoad l))
        \<and> OwnedCells (NLLoad l) < (if Weight (NLLoad l) \<le> 0 then 1 else Weight (NLLoad l))) leases"

definition CachedNodeLease :: "('e, 'x) lease_mem_scheme \<Rightarrow> string \<Rightarrow> NodeLease option" where
  "CachedNodeLease w node = find (\<lambda>l. NLNode l = node) (leases_of w)"

definition knownTTL :: "'y LManager_scheme \<Rightarrow> int" where
  "knownTTL m = (if LTTL m > 0 then LTTL m else 10000000000)"

definition knownRefreshInterval :: "'y LManager_scheme \<Rightarrow> int" where
  "knownRefreshInterval m =
     (let d = knownTTL m div 5;
          d = (if d > 2000000000 then 2000000000 else d)
      in if d < 10000000 then 10000000 else d)"

definition newer_than :: "time option \<Rightarrow> time \<Rightarrow> bool" where
  "newer_than seen started = (case seen of None \<Rightarrow> False | Some t \<Rightarrow> started < t)"

text \<open>The first entry of a node replaced, or dropped when the point read found no record.\<close>

fun replace_first :: "string \<Rightarrow> NodeLease option \<Rightarrow> NodeLease list \<Rightarrow> NodeLease list" where
  "replace_first node r [] = []"
| "replace_first node r (l # ls) =
     (if NLNode l = node then (case r of None \<Rightarrow> ls | Some l' \<Rightarrow> l' # ls) else l # replace_first node r ls)"

definition applyKnownRead ::
  "string \<Rightarrow> lease_error + NodeLease \<Rightarrow> time \<Rightarrow> time \<Rightarrow> ('e, 'x) lease_mem_scheme \<Rightarrow> ('e, 'x) lease_mem_scheme" where
  "applyKnownRead node res started now w =
     (let result = (case res of
          Inl (LeaseBucket ErrNotFound) \<Rightarrow> Some None
        | Inl _ \<Rightarrow> None
        | Inr l \<Rightarrow> if NLNode l \<noteq> node then None else Some (Some l)) in
      case result of
        None \<Rightarrow> w
      | Some r \<Rightarrow>
          if newer_than (observed w node) started then w
          else if list_ex (\<lambda>l. NLNode l = node) (leases_of w) then
            w\<lparr>cached := Some (replace_first node r (leases_of w)), observed := (observed w)(node \<mapsto> started)\<rparr>
          else case r of
              None \<Rightarrow> w
            | Some l \<Rightarrow>
                if LeaseLive l now \<and> length (leases_of w) < 4096
                then w\<lparr>cached := Some (leases_of w @ [l]), observed := (observed w)(node \<mapsto> started)\<rparr>
                else w)"

text \<open>\<open>mergeSampleLocked\<close>: the loop over the sample, the loop over the old snapshot, the pruning of marks.\<close>

fun merge_sample ::
  "(string \<Rightarrow> NodeLease option) \<Rightarrow> time \<Rightarrow> NodeLease list \<Rightarrow> string list \<Rightarrow> NodeLease list \<Rightarrow> (string \<Rightarrow> time option) \<Rightarrow>
   string list \<times> NodeLease list \<times> (string \<Rightarrow> time option)" where
  "merge_sample current started [] seen out obs = (seen, out, obs)"
| "merge_sample current started (l # ls) seen out obs =
     (if NLNode l \<in> set seen then merge_sample current started ls seen out obs
      else if newer_than (obs (NLNode l)) started
        then merge_sample current started ls (NLNode l # seen)
               (case current (NLNode l) of Some fresh \<Rightarrow> out @ [fresh] | None \<Rightarrow> out) obs
      else merge_sample current started ls (NLNode l # seen) (out @ [l]) (obs(NLNode l \<mapsto> started)))"

fun keep_recent ::
  "time \<Rightarrow> int \<Rightarrow> (string \<Rightarrow> time option) \<Rightarrow> NodeLease list \<Rightarrow> string list \<Rightarrow> NodeLease list \<Rightarrow> string list \<times> NodeLease list" where
  "keep_recent started floor obs [] seen out = (seen, out)"
| "keep_recent started floor obs (l # ls) seen out =
     (if NLNode l \<notin> set seen \<and> (newer_than (obs (NLNode l)) started \<or> NLExpiry l > floor)
      then keep_recent started floor obs ls (NLNode l # seen) (out @ [l])
      else keep_recent started floor obs ls seen out)"

definition mergeSampleLocked ::
  "'y LManager_scheme \<Rightarrow> NodeLease list \<Rightarrow> time \<Rightarrow> time \<Rightarrow> ('e, 'x) lease_mem_scheme \<Rightarrow> ('e, 'x) lease_mem_scheme" where
  "mergeSampleLocked m sample started now w =
     (let current = map_of (map (\<lambda>l. (NLNode l, l)) (rev (leases_of w)));
          (seen, out, obs) = merge_sample current started sample [] [] (observed w);
          (seen', out') = keep_recent started (UnixMilli (now - knownTTL m)) obs (leases_of w) seen out
      in w\<lparr>cached := Some out',
           observed := (\<lambda>n. if n \<notin> set seen' \<and> \<not> newer_than (obs n) started then None else obs n)\<rparr>)"

subsection \<open>Reading leases\<close>

definition LeaseGet :: "(NodeLease, 'v) codec \<Rightarrow> string \<Rightarrow> ('v, 'e, 'x, NodeLease) handler" where
  "LeaseGet J node =
     Get (LeaseKey node) (\<lambda>x. Return (case x of
         Inl e \<Rightarrow> Inl (LeaseBucket e)
       | Inr (data, _) \<Rightarrow> (case unmarshal J data of None \<Rightarrow> Inl ErrLeaseDecode | Some l \<Rightarrow> Inr l)))"

text \<open>A point read, its effect on the snapshot unless the context is done, and its answer.\<close>

definition NodeLeaseFresh :: "(NodeLease, 'v) codec \<Rightarrow> bool \<Rightarrow> string \<Rightarrow> ('v, 'e, 'x, NodeLease option) handler" where
  "NodeLeaseFresh J canceled node =
     Local (\<lambda>_ w. w) (\<lambda>started _.
       bind (LeaseGet J node) (\<lambda>r.
         Local (\<lambda>now w. if canceled then w else applyKnownRead node r started now w) (\<lambda>_ _. Return (case r of
             Inl (LeaseBucket ErrNotFound) \<Rightarrow> Inr None
           | Inl e \<Rightarrow> Inl e
           | Inr l \<Rightarrow> Inr (Some l)))))"

definition NodeLeaseOf :: "(NodeLease, 'v) codec \<Rightarrow> bool \<Rightarrow> string \<Rightarrow> ('v, 'e, 'x, NodeLease option) handler" where
  "NodeLeaseOf J canceled node =
     Local (\<lambda>_ w. w) (\<lambda>_ w.
       case CachedNodeLease w node of
         Some l \<Rightarrow> Return (Inr (Some l))
       | None \<Rightarrow> NodeLeaseFresh J canceled node)"

definition sample_key :: "string \<Rightarrow> bool" where
  "sample_key k \<longleftrightarrow> \<not> (Contains (TrimPrefix k ''nodes/'') ''/'' \<or> \<not> HasSuffix k ''.json'')"

primrec sample_loop :: "(NodeLease, 'v) codec \<Rightarrow> string list \<Rightarrow> ('v, 'e, 'x, NodeLease list) handler" where
  "sample_loop J [] = Return (Inr [])"
| "sample_loop J (k # ks) =
     (if sample_key k
      then Get k (\<lambda>x. bind (sample_loop J ks) (\<lambda>r. Return (map_sum id (\<lambda>ls.
             (case x of Inl _ \<Rightarrow> ls
              | Inr (data, _) \<Rightarrow> (case unmarshal J data of None \<Rightarrow> ls | Some l \<Rightarrow> l # ls))) r)))
      else sample_loop J ks)"

definition Sample :: "(NodeLease, 'v) codec \<Rightarrow> bool \<Rightarrow> ('v, 'e, 'x, NodeLease list) handler" where
  "Sample J canceled =
     ListKeys ''nodes/'' (\<lambda>x. case x of
         Inl e \<Rightarrow> Return (Inl (LeaseBucket e))
       | Inr ks \<Rightarrow> bind (sample_loop J ks) (\<lambda>r. Return (if canceled then Inl ErrCtx else r)))"

definition SampleCached ::
  "int \<Rightarrow> time \<Rightarrow> ('e, 'x) lease_mem_scheme \<Rightarrow> (NodeLease list option \<times> bool) \<times> ('e, 'x) lease_mem_scheme" where
  "SampleCached ttl now w =
     (let fresh = (cached w \<noteq> None \<and> now - cachedAt w < ttl);
          start = (\<not> fresh \<and> \<not> refreshing w \<and> now > retryAt w)
      in ((cached w, start), if start then w\<lparr>refreshing := True\<rparr> else w))"

definition refresh :: "(NodeLease, 'v) codec \<Rightarrow> bool \<Rightarrow> 'y LManager_scheme \<Rightarrow> ('v, 'e, 'x, unit) handler" where
  "refresh J canceled m =
     Local (\<lambda>_ w. w) (\<lambda>started _.
       bind (Sample J canceled) (\<lambda>r.
         Local (\<lambda>now w. case r of
             Inl _ \<Rightarrow> w\<lparr>refreshing := False, retryAt := now + 5000000000\<rparr>
           | Inr sample \<Rightarrow> (mergeSampleLocked m sample started now (w\<lparr>refreshing := False\<rparr>))\<lparr>cachedAt := now\<rparr>)
         (\<lambda>_ _. Return (Inr ()))))"

text \<open>One pass of \<open>refreshKnown\<close>: a point read of every known peer that is not long dead. The reads run in
  parallel in the code and touch one entry each; \<open>late\<close> lists those whose answer came after the timeout.\<close>

definition known_nodes :: "'y LManager_scheme \<Rightarrow> time \<Rightarrow> NodeLease list \<Rightarrow> string list" where
  "known_nodes m now ls =
     map NLNode (filter (\<lambda>l. NLNode l \<noteq> [] \<and> NLNode l \<noteq> LNodeID m \<and> NLExpiry l > UnixMilli (now - knownTTL m)) ls)"

primrec refresh_nodes :: "(NodeLease, 'v) codec \<Rightarrow> string list \<Rightarrow> string list \<Rightarrow> ('v, 'e, 'x, unit) handler" where
  "refresh_nodes J late [] = Return (Inr ())"
| "refresh_nodes J late (n # ns) = bind (NodeLeaseFresh J (n \<in> set late) n) (\<lambda>_. refresh_nodes J late ns)"

definition refreshKnown :: "(NodeLease, 'v) codec \<Rightarrow> string list \<Rightarrow> 'y LManager_scheme \<Rightarrow> ('v, 'e, 'x, unit) handler" where
  "refreshKnown J late m = Local (\<lambda>_ w. w) (\<lambda>now w. refresh_nodes J late (known_nodes m now (leases_of w)))"

text \<open>\<open>RunKnownRefresh\<close> for \<open>n\<close> ticks before the context is done; a second call returns at once.\<close>

primrec known_ticks :: "nat \<Rightarrow> (nat \<Rightarrow> string list) \<Rightarrow> (NodeLease, 'v) codec \<Rightarrow> 'y LManager_scheme \<Rightarrow> ('v, 'e, 'x, unit) handler" where
  "known_ticks 0 late J m = Return (Inr ())"
| "known_ticks (Suc n) late J m = bind (refreshKnown J (late n) m) (\<lambda>_. known_ticks n late J m)"

definition RunKnownRefresh :: "nat \<Rightarrow> (nat \<Rightarrow> string list) \<Rightarrow> (NodeLease, 'v) codec \<Rightarrow> 'y LManager_scheme \<Rightarrow> ('v, 'e, 'x, unit) handler" where
  "RunKnownRefresh n late J m =
     Local (\<lambda>_ w. w\<lparr>knownRunning := True\<rparr>) (\<lambda>_ w.
       if knownRunning w then Return (Inr ())
       else bind (known_ticks n late J m) (\<lambda>_. Local (\<lambda>_ w. w\<lparr>knownRunning := False\<rparr>) (\<lambda>_ _. Return (Inr ()))))"

subsection \<open>Merging a scan\<close>

abbreviation entry :: "string \<Rightarrow> NodeLease list \<Rightarrow> NodeLease option" where
  "entry n ls \<equiv> find (\<lambda>l. NLNode l = n) ls"

lemma find_append: "find P (xs @ ys) = (case find P xs of Some x \<Rightarrow> Some x | None \<Rightarrow> find P ys)"
  by (induction xs) auto

lemma entry_node: "entry n ls = Some l \<Longrightarrow> NLNode l = n"
  by (auto simp: find_Some_iff)

text \<open>The loop over the sample decides every node at its first lease.\<close>

definition merged ::
  "(string \<Rightarrow> NodeLease option) \<Rightarrow> time \<Rightarrow> NodeLease list \<Rightarrow> string set \<Rightarrow> NodeLease list \<Rightarrow> (string \<Rightarrow> time option) \<Rightarrow> string \<Rightarrow>
   NodeLease option \<times> time option" where
  "merged current started ls seen out obs n =
     (if n \<in> seen then (entry n out, obs n)
      else case entry n ls of
          None \<Rightarrow> (None, obs n)
        | Some l \<Rightarrow> if newer_than (obs n) started then (current n, obs n) else (Some l, Some started))"

lemma merge_sample_spec:
  assumes cur: "\<And>n f. current n = Some f \<Longrightarrow> NLNode f = n"
  shows "(\<forall>n. n \<notin> set seen \<longrightarrow> entry n out = None) \<Longrightarrow>
    merge_sample current started ls seen out obs = (seen', out', obs') \<Longrightarrow>
    set seen' = set seen \<union> NLNode ` set ls
    \<and> (\<forall>n. (entry n out', obs' n) = merged current started ls (set seen) out obs n)"
proof (induction ls arbitrary: seen out obs)
  case Nil
  then show ?case by (auto simp: merged_def)
next
  case (Cons l ls)
  let ?n = "NLNode l"
  consider (old) "?n \<in> set seen" | (newer) "?n \<notin> set seen" "newer_than (obs ?n) started"
    | (scan) "?n \<notin> set seen" "\<not> newer_than (obs ?n) started" by blast
  then show ?case
  proof cases
    case old
    with Cons.prems(2) have "merge_sample current started ls seen out obs = (seen', out', obs')" by simp
    note ih = Cons.IH [OF Cons.prems(1) this]
    moreover have "merged current started ls (set seen) out obs n = merged current started (l # ls) (set seen) out obs n" for n
      using old by (auto simp: merged_def)
    ultimately show ?thesis using old by (simp add: insert_absorb)
  next
    case newer
    let ?out = "case current ?n of Some fresh \<Rightarrow> out @ [fresh] | None \<Rightarrow> out"
    have e: "entry k ?out = (if k = ?n then current ?n else entry k out)" for k
    proof (cases "current ?n")
      case (Some f)
      then have "NLNode f = ?n" by (rule cur)
      moreover have "entry ?n out = None" using Cons.prems(1) newer(1) by blast
      ultimately show ?thesis using Some by (simp add: find_append split: option.split)
    next
      case None
      have "entry ?n out = None" using Cons.prems(1) newer(1) by blast
      with None show ?thesis by simp
    qed
    have m: "merge_sample current started ls (?n # seen) ?out obs = (seen', out', obs')"
      using Cons.prems(2) newer by simp
    have "\<forall>n. n \<notin> set (?n # seen) \<longrightarrow> entry n ?out = None" using e Cons.prems(1) by simp
    note ih = Cons.IH [OF this m]
    moreover have "merged current started ls (set (?n # seen)) ?out obs n = merged current started (l # ls) (set seen) out obs n" for n
      using newer e [of n] by (cases "n = ?n") (simp_all add: merged_def)
    ultimately show ?thesis by simp
  next
    case scan
    have e: "entry k (out @ [l]) = (if k = ?n then Some l else entry k out)" for k
    proof -
      have "entry ?n out = None" using Cons.prems(1) scan(1) by blast
      then show ?thesis by (simp add: find_append split: option.split)
    qed
    have m: "merge_sample current started ls (?n # seen) (out @ [l]) (obs(?n \<mapsto> started)) = (seen', out', obs')"
      using Cons.prems(2) scan by simp
    have "\<forall>n. n \<notin> set (?n # seen) \<longrightarrow> entry n (out @ [l]) = None" using e Cons.prems(1) by simp
    note ih = Cons.IH [OF this m]
    have eq: "merged current started ls (set (?n # seen)) (out @ [l]) (obs(?n \<mapsto> started)) n
        = merged current started (l # ls) (set seen) out obs n" for n
      using scan e [of n] by (cases "n = ?n") (simp_all add: merged_def split: option.split)
    show ?thesis using ih unfolding eq by auto
  qed
qed

lemma keep_recent_spec:
  "(\<forall>n. n \<notin> set seen \<longrightarrow> entry n out = None) \<Longrightarrow> keep_recent started floor obs ls seen out = (seen', out') \<Longrightarrow>
   set seen \<subseteq> set seen'
   \<and> (\<forall>n. entry n out' = (if n \<in> set seen then entry n out
        else find (\<lambda>l. NLNode l = n \<and> (newer_than (obs n) started \<or> NLExpiry l > floor)) ls))"
proof (induction ls arbitrary: seen out)
  case (Cons l ls)
  let ?n = "NLNode l"
  show ?case
  proof (cases "?n \<notin> set seen \<and> (newer_than (obs ?n) started \<or> NLExpiry l > floor)")
    case True
    have e: "entry k (out @ [l]) = (if k = ?n then Some l else entry k out)" for k
      using Cons.prems(1) True by (auto simp: find_append split: option.splits)
    have "\<forall>n. n \<notin> set (?n # seen) \<longrightarrow> entry n (out @ [l]) = None" using e Cons.prems(1) by simp
    from Cons.IH [OF this] Cons.prems(2) True e show ?thesis by auto
  next
    case False
    with Cons.IH [OF Cons.prems(1)] Cons.prems(2) show ?thesis by auto
  qed
qed auto

lemma map_of_rev_entry:
  "distinct (map NLNode ls) \<Longrightarrow> map_of (map (\<lambda>l. (NLNode l, l)) (rev ls)) n = entry n ls"
proof (induction ls)
  case (Cons l ls)
  have "entry (NLNode l) ls = None" using Cons.prems by (auto simp: find_None_iff image_iff)
  with Cons show ?case by (auto simp: map_add_def split: option.splits)
qed simp

text \<open>C28: Merging a full scan into the snapshot never overwrites what a point read started after the scan has seen:
  such a node keeps exactly its entry, removal included. A node the scan saw and no newer read did gets
  the scan's first lease.\<close>

theorem merge_keeps_newer:
  assumes "distinct (map NLNode (leases_of w))" "w' = mergeSampleLocked m sample started now w"
  shows "CachedNodeLease w' n =
    (if newer_than (observed w n) started then CachedNodeLease w n
     else if entry n sample \<noteq> None then entry n sample
     else find (\<lambda>l. NLNode l = n \<and> NLExpiry l > UnixMilli (now - knownTTL m)) (leases_of w))"
proof -
  let ?cur = "map_of (map (\<lambda>l. (NLNode l, l)) (rev (leases_of w)))"
  let ?floor = "UnixMilli (now - knownTTL m)"
  obtain seen out obs where ms: "merge_sample ?cur started sample [] [] (observed w) = (seen, out, obs)"
    by (metis prod_cases3)
  obtain seen' out' where kr: "keep_recent started ?floor obs (leases_of w) seen out = (seen', out')"
    by fastforce
  have cur: "?cur k = entry k (leases_of w)" for k by (rule map_of_rev_entry [OF assms(1)])
  have "?cur k = Some f \<Longrightarrow> NLNode f = k" for k f unfolding cur by (rule entry_node)
  from merge_sample_spec [OF this _ ms]
  have seen: "set seen = NLNode ` set sample"
    and mg: "(entry k out, obs k) = merged ?cur started sample {} [] (observed w) k" for k by auto
  have none: "entry k sample = None \<longleftrightarrow> k \<notin> set seen" for k
    unfolding seen by (auto simp: find_None_iff image_iff)
  have "entry k out = None" if "k \<notin> set seen" for k
    using mg [of k] none [of k] that by (simp add: merged_def)
  then have "\<forall>k. k \<notin> set seen \<longrightarrow> entry k out = None" by blast
  from keep_recent_spec [OF this kr]
  have out': "entry k out' = (if k \<in> set seen then entry k out
      else find (\<lambda>l. NLNode l = k \<and> (newer_than (obs k) started \<or> NLExpiry l > ?floor)) (leases_of w))" for k
    by blast
  have "leases_of w' = out'"
    using assms(2) ms kr by (simp add: mergeSampleLocked_def Let_def leases_of_def)
  then have e: "CachedNodeLease w' n = entry n out'" by (simp add: CachedNodeLease_def)
  show ?thesis
  proof (cases "n \<in> set seen")
    case True
    then obtain l where "entry n sample = Some l" using none [of n] by (cases "entry n sample") auto
    with True mg [of n] show ?thesis
      unfolding e out' by (simp add: merged_def cur CachedNodeLease_def split: if_splits)
  next
    case False
    with none have "entry n sample = None" by simp
    with False mg [of n] show ?thesis
      unfolding e out' by (simp add: merged_def CachedNodeLease_def)
  qed
qed

definition snap_lease :: "string \<Rightarrow> int \<Rightarrow> NodeLease" where
  "snap_lease n e = \<lparr>NLNode = n, NLSession = ''s'', NLInstance = [], NLLiveness = [], NLAdvertise = [], NLPeerURL = [], NLAZ = [],
     NLExpiry = e, NLProto = ''v1'', NLLoad = \<lparr>OwnedCells = 0, Weight = 0, ResidentCells = 0, RSSBytes = 0, CPUPercentX100 = 0,
       Pressured = False, MemoryHeadroom = 0, ShedCells = 0, Restoring = 0, SampledMs = 0\<rparr>\<rparr>"

definition snap_mem :: "nat lease_mem" where
  "snap_mem = \<lparr>publishedExpiry = None, fenced = False, publishedETag = None, cached = Some [snap_lease ''a'' 9], cachedAt = 0,
     refreshing = True, retryAt = 0, observed = [''a'' \<mapsto> 5, ''b'' \<mapsto> 5], knownRunning = False\<rparr>"

theorem merge_keeps_newer_witness:
  "\<exists>w'. w' = mergeSampleLocked \<lparr>LNodeID = ''z'', LSessionID = [], LAdvert = [], LPeerURL = [], LAZ = [], LTTL = 10, LInstance = []\<rparr>
      [snap_lease ''a'' 1, snap_lease ''b'' 1] 3 6 snap_mem
     \<and> CachedNodeLease w' ''a'' = Some (snap_lease ''a'' 9) \<and> CachedNodeLease w' ''b'' = None"
proof -
  let ?m = "\<lparr>LNodeID = ''z'', LSessionID = [], LAdvert = [], LPeerURL = [], LAZ = [], LTTL = 10, LInstance = []\<rparr>"
  let ?w' = "mergeSampleLocked ?m [snap_lease ''a'' 1, snap_lease ''b'' 1] 3 6 snap_mem"
  have d: "distinct (map NLNode (leases_of snap_mem))" by (simp add: leases_of_def snap_mem_def)
  have "CachedNodeLease ?w' ''a'' = Some (snap_lease ''a'' 9)" "CachedNodeLease ?w' ''b'' = None"
    unfolding merge_keeps_newer [OF d refl]
    by (simp_all add: CachedNodeLease_def leases_of_def snap_mem_def newer_than_def snap_lease_def)
  then show ?thesis by blast
qed

end
