(* ===== verification/LeaseFleet.thy ===== *)
theory LeaseFleet
  imports Lease
begin

text \<open>
  The lease protocol under interleaving: any number of process sessions of any number of nodes publish,
  renew, crash and restart over one bucket and one clock. The result: while a session counts itself
  healthy, the lease every other node reads is that session's and has not expired.
\<close>

subsection \<open>What a publishing thread may do\<close>

text \<open>The body that manager \<open>m\<close> may replace at time \<open>now\<close>.\<close>

definition takeable :: "(NodeLease, 'v) codec \<Rightarrow> 'y LManager_scheme \<Rightarrow> time \<Rightarrow> 'v \<Rightarrow> bool" where
  "takeable J m now u \<longleftrightarrow>
     (\<exists>l. unmarshal J u = Some l
        \<and> (NLSession l = LSessionID m \<or> NLExpiry l \<le> UnixMilli now \<or> LInstance m \<noteq> [] \<and> NLInstance l = LInstance m))"

definition own_lease :: "'y LManager_scheme \<Rightarrow> NodeLease \<Rightarrow> bool" where
  "own_lease m l \<longleftrightarrow> NLNode l = LNodeID m \<and> NLSession l = LSessionID m \<and> NLInstance l = LInstance m"

definition own_tag :: "(NodeLease, 'v) codec \<Rightarrow> ('v \<Rightarrow> 'e) \<Rightarrow> 'y LManager_scheme \<Rightarrow> 'e option \<Rightarrow> bool" where
  "own_tag J etag m et \<longleftrightarrow> (\<forall>e. et = Some e \<longrightarrow> (\<exists>l. own_lease m l \<and> e = etag (marshal J l)))"

text \<open>\<open>pub_safe m p now pe et pend\<close>: from time \<open>now\<close> on, whatever is answered, the handler \<open>p\<close> writes only its own
  lease, never shorter than the deadline \<open>pe\<close> its manager counts on, only over a body it may replace,
  and moves the deadline only to the expiry of a lease \<open>pend\<close> it has just written, and only while the
  old deadline has not passed.\<close>

primrec pub_safe ::
  "(NodeLease, 'v) codec \<Rightarrow> ('v \<Rightarrow> 'e) \<Rightarrow> 'y LManager_scheme \<Rightarrow> ('v, 'e, ('e, 'x) lease_mem_scheme, 'r) prog \<Rightarrow>
   time \<Rightarrow> time option \<Rightarrow> 'e option \<Rightarrow> NodeLease option \<Rightarrow> bool" where
  "pub_safe J etag m (Return r) now pe et pend = True"
| "pub_safe J etag m (Get k c) now pe et pend =
     ((\<forall>err. pub_safe J etag m (c (Inl err)) now pe et pend)
      \<and> (\<forall>v. pub_safe J etag m (c (Inr (v, etag v))) now pe et pend))"
| "pub_safe J etag m (Create k v c) now pe et pend =
     (k = LeaseKey (LNodeID m)
      \<and> (\<exists>l. v = marshal J l \<and> own_lease m l \<and> (\<forall>e. pe = Some e \<longrightarrow> UnixMilli e \<le> NLExpiry l)
           \<and> pub_safe J etag m (c (Inr (etag v))) now pe et (Some l))
      \<and> (\<forall>err. pub_safe J etag m (c (Inl err)) now pe et None))"
| "pub_safe J etag m (CAS k v tag c) now pe et pend =
     (k = LeaseKey (LNodeID m) \<and> (\<forall>u. etag u = tag \<longrightarrow> takeable J m now u)
      \<and> (\<exists>l. v = marshal J l \<and> own_lease m l \<and> (\<forall>e. pe = Some e \<longrightarrow> UnixMilli e \<le> NLExpiry l)
           \<and> pub_safe J etag m (c (Inr (etag v))) now pe et (Some l))
      \<and> (\<forall>err. pub_safe J etag m (c (Inl err)) now pe et None))"
| "pub_safe J etag m (CDelete k e c) now pe et pend = False"
| "pub_safe J etag m (Put k v c) now pe et pend = False"
| "pub_safe J etag m (Delete k c) now pe et pend = False"
| "pub_safe J etag m (ListKeys p c) now pe et pend = (\<forall>x. pub_safe J etag m (c x) now pe et pend)"
| "pub_safe J etag m (Local u c) now pe et pend =
     (\<forall>t\<ge>now. \<forall>w. publishedExpiry w = pe \<longrightarrow> publishedETag w = et \<longrightarrow> own_tag J etag m et \<longrightarrow>
        (fenced w \<longrightarrow> fenced (u t w))
        \<and> (publishedExpiry (u t w) = pe \<and> publishedETag (u t w) = et \<and> pub_safe J etag m (c t w) t pe et pend
           \<or> (\<exists>l E. pend = Some l \<and> publishedExpiry (u t w) = Some E \<and> NLExpiry l = UnixMilli E
                \<and> publishedETag (u t w) = Some (etag (marshal J l)) \<and> own_lease m l
                \<and> \<not> fenced (u t w) \<and> \<not> expired_at pe t
                \<and> pub_safe J etag m (c t w) t (Some E) (Some (etag (marshal J l))) None)))"

lemma takeable_mono: "takeable J m s u \<Longrightarrow> s \<le> t \<Longrightarrow> takeable J m t u"
  using UnixMilli_mono [of s t] unfolding takeable_def by fastforce

lemma pub_safe_mono:
  "pub_safe J etag m p s pe et pend \<Longrightarrow> s \<le> t \<Longrightarrow> pub_safe J etag m p t pe et pend"
proof (induction p arbitrary: s t pend)
  case (CAS k v tag c)
  then have "\<forall>u. etag u = tag \<longrightarrow> takeable J m t u" by (auto intro: takeable_mono)
  with CAS show ?case by (simp, blast)
next
  case (Local u c)
  then show ?case by simp
qed (simp_all, blast+)

text \<open>Handlers that keep off the lease: no write below \<open>nodes/\<close>, the published deadline and tag untouched, the
  fence never lifted.\<close>

primrec neutral :: "('v, 'e, ('e, 'x) lease_mem_scheme, 'r) prog \<Rightarrow> bool" where
  "neutral (Return r) = True"
| "neutral (Get k c) = (\<forall>x. neutral (c x))"
| "neutral (Create k v c) = (\<not> HasPrefix k ''nodes/'' \<and> (\<forall>x. neutral (c x)))"
| "neutral (CAS k v e c) = (\<not> HasPrefix k ''nodes/'' \<and> (\<forall>x. neutral (c x)))"
| "neutral (CDelete k e c) = (\<not> HasPrefix k ''nodes/'' \<and> (\<forall>x. neutral (c x)))"
| "neutral (Put k v c) = (\<not> HasPrefix k ''nodes/'' \<and> (\<forall>x. neutral (c x)))"
| "neutral (Delete k c) = (\<not> HasPrefix k ''nodes/'' \<and> (\<forall>x. neutral (c x)))"
| "neutral (ListKeys p c) = (\<forall>x. neutral (c x))"
| "neutral (Local u c) =
     (\<forall>t w. publishedExpiry (u t w) = publishedExpiry w \<and> publishedETag (u t w) = publishedETag w
        \<and> (fenced w \<longrightarrow> fenced (u t w)) \<and> neutral (c t w))"

lemma neutral_bind: "neutral p \<Longrightarrow> (\<And>r. neutral (f r)) \<Longrightarrow> neutral (bind p f)"
  by (induction p) auto

lemma neutral_call:
  "bucket_call etag B p B' p' \<Longrightarrow> neutral p \<Longrightarrow> neutral p' \<and> B' (LeaseKey n) = B (LeaseKey n)"
  by (induction rule: bucket_call.induct)
     (auto simp: bucket_create_def bucket_cas_def bucket_cdelete_def LeaseKey_def split: option.splits if_splits)

subsection \<open>The handlers of the lease manager\<close>

lemma pub_safe_forget:
  fixes p :: "('v, 'e, ('e, 'x) lease_mem_scheme, 'r) prog"
  shows "pub_safe J etag m p now pe et pend \<Longrightarrow> pub_safe J etag m (forget p) now pe et pend"
  unfolding forget_def
proof (induction p arbitrary: now pe et pend)
  case (Local u c)
  have IH: "pub_safe J etag m (c t w) s pe et pend \<Longrightarrow>
      pub_safe J etag m (bind (c t w) (\<lambda>_. Return ())) s pe et pend" for t w s pe et pend
    by (rule Local.IH [OF rangeI rangeI])
  show ?case
    unfolding bind.simps pub_safe.simps
  proof (intro allI impI)
    fix t and w :: "('e, 'x) lease_mem_scheme"
    assume "now \<le> t" "publishedExpiry w = pe" "publishedETag w = et" "own_tag J etag m et"
    from Local.prems [unfolded pub_safe.simps, rule_format, OF this] IH
    show "(fenced w \<longrightarrow> fenced (u t w))
        \<and> (publishedExpiry (u t w) = pe \<and> publishedETag (u t w) = et
             \<and> pub_safe J etag m (bind (c t w) (\<lambda>_. Return ())) t pe et pend
           \<or> (\<exists>l E. pend = Some l \<and> publishedExpiry (u t w) = Some E \<and> NLExpiry l = UnixMilli E
                \<and> publishedETag (u t w) = Some (etag (marshal J l)) \<and> own_lease m l
                \<and> \<not> fenced (u t w) \<and> \<not> expired_at pe t
                \<and> pub_safe J etag m (bind (c t w) (\<lambda>_. Return ())) t (Some E) (Some (etag (marshal J l))) None))"
      by blast
  qed
next
  case (Create k v c)
  note IH = Create.IH [OF rangeI]
  show ?case
    using Create.prems unfolding bind.simps pub_safe.simps by (blast intro: IH)
next
  case (CAS k v e c)
  note IH = CAS.IH [OF rangeI]
  show ?case
    using CAS.prems unfolding bind.simps pub_safe.simps by (blast intro: IH)
qed simp_all

lemma expiredLocked_simps [simp]:
  "publishedExpiry (expiredLocked t w) = publishedExpiry w" "publishedETag (expiredLocked t w) = publishedETag w"
  "fenced (expiredLocked t w) \<longleftrightarrow> fenced w \<or> expired_at (publishedExpiry w) t"
  by (simp_all add: expiredLocked_def)

lemma lease_of_simps [simp]: "own_lease m (lease_of m load e)" "NLExpiry (lease_of m load e) = UnixMilli e"
  by (simp_all add: own_lease_def lease_of_def)

lemma publish_done_fails: "pub_safe J etag m (publish_done l expiry (Inl e)) now pe et pend"
  by (auto simp: publish_done_def Let_def)

lemma publish_done_ok:
  "own_lease m l \<Longrightarrow> NLExpiry l = UnixMilli expiry \<Longrightarrow>
   pub_safe J etag m (publish_done l expiry (Inr (etag (marshal J l)))) now pe et (Some l)"
  by (auto simp: publish_done_def Let_def)

lemma publish_write_safe:
  assumes "own_lease m l" "NLExpiry l = UnixMilli expiry" "\<And>e. pe = Some e \<Longrightarrow> e \<le> expiry"
    and "\<And>tag u t. own_tag J etag m et \<Longrightarrow> now \<le> t \<Longrightarrow> expected = Some tag \<Longrightarrow> etag u = tag \<Longrightarrow> takeable J m t u"
  shows "pub_safe J etag m (publish_write J m l expiry expected) now pe et pend"
  using assms UnixMilli_mono
  by (auto simp: publish_write_def Fenced_def publish_done_fails publish_done_ok split: option.splits)

lemma own_tag_takeable:
  "inj etag \<Longrightarrow> lawful J \<Longrightarrow> own_tag J etag m et \<Longrightarrow> et = Some tag \<Longrightarrow> etag u = tag \<Longrightarrow> takeable J m t u"
  by (auto simp: own_tag_def takeable_def own_lease_def inj_eq)

lemma publish_first_safe:
  assumes "inj etag" "\<And>e. pe = Some e \<Longrightarrow> e \<le> expiry"
  shows "pub_safe J etag m (publish_first J m (lease_of m load expiry) expiry) now pe et pend"
proof -
  have tk: "takeable J m t u"
    if "s \<le> t" "unmarshal J v = Some l" "etag u = etag v"
      "\<not> (LeaseLive l s \<and> NLSession l \<noteq> LSessionID m \<and> (LInstance m = [] \<or> NLInstance l \<noteq> LInstance m))" for s t u v l
    using that assms(1) UnixMilli_mono [OF that(1)] unfolding takeable_def LeaseLive_def inj_eq [OF assms(1)] by fastforce
  show ?thesis
    using assms(2)
    by (auto simp: publish_first_def intro!: publish_write_safe tk split: bucket_error.splits option.splits if_splits)
qed

lemma Publish_safe:
  assumes "inj etag" "lawful J"
  shows "pub_safe J etag m (Publish J canceled m load) now pe et None"
proof -
  have tk: "own_tag J etag m (Some (etag u)) \<Longrightarrow> takeable J m t u" for u t
    by (rule own_tag_takeable [OF assms]) simp_all
  show ?thesis
    by (auto simp: Publish_def Fenced_def Let_def
        intro!: publish_first_safe assms publish_write_safe tk split: option.splits)
qed

lemma applyKnownRead_published [simp]:
  "publishedExpiry (applyKnownRead node r started now w) = publishedExpiry w"
  "publishedETag (applyKnownRead node r started now w) = publishedETag w"
  "fenced (applyKnownRead node r started now w) = fenced w"
  by (auto simp: applyKnownRead_def Let_def split: option.splits)

lemma mergeSample_published [simp]:
  "publishedExpiry (mergeSampleLocked m sample started now w) = publishedExpiry w"
  "publishedETag (mergeSampleLocked m sample started now w) = publishedETag w"
  "fenced (mergeSampleLocked m sample started now w) = fenced w"
  by (simp_all add: mergeSampleLocked_def Let_def split: prod.split)

lemma NodeLeaseFresh_neutral [simp]: "neutral (NodeLeaseFresh J canceled node)"
  by (simp add: NodeLeaseFresh_def LeaseGet_def)

lemma NodeLeaseOf_neutral [simp]: "neutral (NodeLeaseOf J canceled node)"
  by (simp add: NodeLeaseOf_def split: option.splits)

lemma refresh_neutral [simp]: "neutral (refresh J canceled m)"
proof -
  have "neutral (sample_loop J ks :: ('v, 'e, 'x, _) handler)" for J :: "(NodeLease, 'v) codec" and ks
    by (induction ks) (auto intro!: neutral_bind)
  then show ?thesis
    by (auto simp: refresh_def Sample_def intro!: neutral_bind split: sum.splits)
qed

lemma RunKnownRefresh_neutral [simp]: "neutral (RunKnownRefresh n late J m)"
proof -
  have "neutral (refresh_nodes J l ns :: ('v, 'e, 'x, _) handler)" for J :: "(NodeLease, 'v) codec" and l ns
    by (induction ns) (auto intro!: neutral_bind)
  then have "neutral (known_ticks n late J m :: ('v, 'e, 'x, _) handler)" for J :: "(NodeLease, 'v) codec" and n
    by (induction n) (auto simp: refreshKnown_def intro!: neutral_bind)
  then show ?thesis by (auto simp: RunKnownRefresh_def intro!: neutral_bind)
qed

lemma neutral_forget [simp]: "neutral p \<Longrightarrow> neutral (forget p)"
  by (simp add: forget_def neutral_bind)

subsection \<open>The invariant of the fleet\<close>

text \<open>The bucket shows a lease of session \<open>m\<close> that lasts to \<open>E\<close> at least.\<close>

definition shown ::
  "(NodeLease, 'v) codec \<Rightarrow> ('v, 'e, ('e, 'x) lease_mem_scheme, 'r, 'y LManager_scheme) system \<Rightarrow> 'y LManager_scheme \<Rightarrow> int \<Rightarrow> bool" where
  "shown J S m E \<longleftrightarrow> (\<exists>l. store S (LeaseKey (LNodeID m)) = Some (marshal J l) \<and> own_lease m l \<and> E \<le> NLExpiry l)"

definition twins :: "'y LManager_scheme \<Rightarrow> 'y LManager_scheme \<Rightarrow> bool" where
  "twins m n \<longleftrightarrow> LNodeID m = LNodeID n \<and> (LSessionID m = LSessionID n \<or> LInstance m = LInstance n \<and> LInstance m \<noteq> [])"

text \<open>A running manager: its publishing thread is safe, and the lease it has just written or counts on is shown
  until it expires.\<close>

definition mgr_ok ::
  "('v \<Rightarrow> 'e) \<Rightarrow> (NodeLease, 'v) codec \<Rightarrow> ('v, 'e, ('e, 'x) lease_mem_scheme, 'r, 'y LManager_scheme) system \<Rightarrow>
   'y LManager_scheme \<Rightarrow> bool" where
  "mgr_ok etag J S m \<longleftrightarrow>
     (\<exists>pend. (\<forall>p. threads S m 0 = Some p \<longrightarrow>
           pub_safe J etag m p (clock S) (publishedExpiry (memory S m)) (publishedETag (memory S m)) pend)
        \<and> (\<forall>l. pend = Some l \<longrightarrow> UnixMilli (clock S) < NLExpiry l \<longrightarrow> shown J S m (NLExpiry l)))
     \<and> (\<forall>e. publishedExpiry (memory S m) = Some e \<longrightarrow> \<not> fenced (memory S m) \<longrightarrow>
          UnixMilli (clock S) < UnixMilli e \<longrightarrow> shown J S m (UnixMilli e))"

definition lease_inv ::
  "('v \<Rightarrow> 'e) \<Rightarrow> (NodeLease, 'v) codec \<Rightarrow> ('v, 'e, ('e, 'x) lease_mem_scheme, 'r, 'y LManager_scheme) system \<Rightarrow> bool" where
  "lease_inv etag J S \<longleftrightarrow>
     (\<forall>m i. life S m \<noteq> Up \<longrightarrow> threads S m i = None)
     \<and> (\<forall>m. life S m = Unborn \<longrightarrow> publishedExpiry (memory S m) = None \<and> publishedETag (memory S m) = None)
     \<and> (\<forall>m n. m \<noteq> n \<longrightarrow> life S m = Up \<longrightarrow> life S n = Up \<longrightarrow> \<not> twins m n)
     \<and> (\<forall>m. own_tag J etag m (publishedETag (memory S m)))
     \<and> (\<forall>m i p. threads S m (Suc i) = Some p \<longrightarrow> neutral p)
     \<and> (\<forall>m. life S m = Up \<longrightarrow> mgr_ok etag J S m)"

lemma lease_invD:
  assumes "lease_inv etag J S"
  shows "life S m \<noteq> Up \<Longrightarrow> threads S m i = None"
    and "life S m = Unborn \<Longrightarrow> publishedExpiry (memory S m) = None \<and> publishedETag (memory S m) = None"
    and "m \<noteq> n \<Longrightarrow> life S m = Up \<Longrightarrow> life S n = Up \<Longrightarrow> \<not> twins m n"
    and "own_tag J etag m (publishedETag (memory S m))"
    and "threads S m (Suc i) = Some p \<Longrightarrow> neutral p"
    and "life S m = Up \<Longrightarrow> mgr_ok etag J S m"
  using assms unfolding lease_inv_def by blast+

text \<open>A step of \<open>m\<close> in place: the others keep their state, and what the bucket shows of them.\<close>

lemma lease_inv_frame:
  assumes inv: "lease_inv etag J S"
    and same: "clock S' = clock S" "life S' = life S" "\<And>n. n \<noteq> m \<Longrightarrow> memory S' n = memory S n"
      "\<And>n. n \<noteq> m \<Longrightarrow> threads S' n = threads S n"
    and mgr: "life S m = Up \<Longrightarrow> mgr_ok etag J S' m" "own_tag J etag m (publishedETag (memory S' m))"
      "\<And>i. life S m \<noteq> Up \<Longrightarrow> threads S' m i = None \<and> memory S' m = memory S m"
      "\<And>i p. threads S' m (Suc i) = Some p \<Longrightarrow> neutral p"
    and shows': "\<And>n E. n \<noteq> m \<Longrightarrow> life S n = Up \<Longrightarrow> UnixMilli (clock S) < E \<Longrightarrow> shown J S n E \<Longrightarrow> shown J S' n E"
  shows "lease_inv etag J S'"
proof -
  have ok: "mgr_ok etag J S' n" if "life S n = Up" for n
  proof (cases "n = m")
    case False
    then show ?thesis
      using lease_invD(6) [OF inv that] same(3,4) [OF False] shows' [OF False that]
      unfolding mgr_ok_def same(1) by metis
  qed (use mgr(1) that in simp)
  show ?thesis
    unfolding lease_inv_def same(2)
  proof (intro conjI allI impI)
    fix n i assume "life S n \<noteq> Up"
    then show "threads S' n i = None"
      using lease_invD(1) [OF inv, of n] mgr(3) same(4) [of n] by (cases "n = m") auto
  next
    fix n assume "life S n = Unborn"
    then show "publishedExpiry (memory S' n) = None" "publishedETag (memory S' n) = None"
      using lease_invD(2) [OF inv, of n] mgr(3) same(3) [of n] by (cases "n = m", auto)+
  next
    fix n show "own_tag J etag n (publishedETag (memory S' n))"
      using lease_invD(4) [OF inv, of n] mgr(2) same(3) [of n] by (cases "n = m") auto
  next
    fix n i p assume "threads S' n (Suc i) = Some p"
    then show "neutral p"
      using lease_invD(5) [OF inv, of n] mgr(4) same(4) [of n] by (cases "n = m") auto
  qed (use lease_invD(3) [OF inv] ok in auto)
qed

locale lease_fleet =
  fixes etag :: "'v \<Rightarrow> 'e"
    and J :: "(NodeLease, 'v) codec"
    and starts :: "('v, 'e, ('e, 'x) lease_mem_scheme, 'r, 'y LManager_scheme) starter"
  assumes slot0: "inj etag \<Longrightarrow> lawful J \<Longrightarrow> starts S m (Run 0 p) \<Longrightarrow> pub_safe J etag m p now pe et None"
    and others: "starts S m (Run (Suc i) p) \<Longrightarrow> neutral p"
    and boots: "starts S m Boot \<Longrightarrow> life S n = Up \<Longrightarrow> \<not> twins m n"
begin

text \<open>A lease that has not expired can only be replaced by its own session.\<close>

lemma shown_not_takeable:
  assumes "lawful J" "shown J S m E" "UnixMilli (clock S) < E" "store S (LeaseKey (LNodeID m)) = Some u"
    and "takeable J n t u" "t \<le> clock S" "LNodeID n = LNodeID m"
  shows "twins n m"
proof -
  from assms(1,2,4) obtain l where l: "unmarshal J u = Some l" "own_lease m l" "E \<le> NLExpiry l"
    by (auto simp: shown_def)
  with assms(3,5) UnixMilli_mono [OF assms(6)] show ?thesis
    using assms(7) by (auto simp: takeable_def twins_def own_lease_def)
qed

lemma pub_call_cases:
  assumes "bucket_call etag B p B' p'" "pub_safe J etag m p now pe et pend"
  shows "(B' = B \<and> (pub_safe J etag m p' now pe et pend \<or> pub_safe J etag m p' now pe et None))
    \<or> (\<exists>l. B' = B(LeaseKey (LNodeID m) \<mapsto> marshal J l) \<and> own_lease m l \<and> (\<forall>e. pe = Some e \<longrightarrow> UnixMilli e \<le> NLExpiry l)
         \<and> (\<forall>u. B (LeaseKey (LNodeID m)) = Some u \<longrightarrow> takeable J m now u)
         \<and> (pub_safe J etag m p' now pe et (Some l) \<or> pub_safe J etag m p' now pe et None))"
  using assms
proof (cases rule: bucket_call.cases)
  case (get k c)
  then show ?thesis using assms(2) by (auto simp: bucket_get_def split: option.splits)
next
  case (create k v x c)
  then show ?thesis using assms(2) by (auto simp: bucket_create_def split: option.splits)
next
  case (create_lost k v x c err)
  then show ?thesis using assms(2) by (auto simp: bucket_create_def split: option.splits)
next
  case (cas k v e x c)
  then show ?thesis using assms(2) by (auto simp: bucket_cas_def split: option.splits if_splits)
next
  case (cas_lost k v e x c err)
  then show ?thesis using assms(2) by (auto simp: bucket_cas_def split: option.splits if_splits)
qed auto

lemma lease_inv_pub_call:
  assumes laws: "lawful J" and inv: "lease_inv etag J S"
    and p: "threads S m 0 = Some p" and call: "bucket_call etag (store S) p B' p'"
  shows "lease_inv etag J (set_thread m 0 (Some p') (S\<lparr>store := B'\<rparr>))" (is "lease_inv etag J ?S'")
proof -
  have up: "life S m = Up" using lease_invD(1) [OF inv, of m 0] p by auto
  let ?pe = "publishedExpiry (memory S m)" and ?et = "publishedETag (memory S m)"
  from lease_invD(6) [OF inv up] p obtain pend where ps: "pub_safe J etag m p (clock S) ?pe ?et pend"
    and po: "\<And>l. pend = Some l \<Longrightarrow> UnixMilli (clock S) < NLExpiry l \<Longrightarrow> shown J S m (NLExpiry l)"
    and act: "\<And>e. ?pe = Some e \<Longrightarrow> \<not> fenced (memory S m) \<Longrightarrow> UnixMilli (clock S) < UnixMilli e \<Longrightarrow> shown J S m (UnixMilli e)"
    unfolding mgr_ok_def by blast
  consider (same) "B' = store S" "pub_safe J etag m p' (clock S) ?pe ?et pend \<or> pub_safe J etag m p' (clock S) ?pe ?et None"
    | (wrote) l where "B' = (store S)(LeaseKey (LNodeID m) \<mapsto> marshal J l)" "own_lease m l"
        "\<And>e. ?pe = Some e \<Longrightarrow> UnixMilli e \<le> NLExpiry l"
        "\<And>u. store S (LeaseKey (LNodeID m)) = Some u \<Longrightarrow> takeable J m (clock S) u"
        "pub_safe J etag m p' (clock S) ?pe ?et (Some l) \<or> pub_safe J etag m p' (clock S) ?pe ?et None"
    using pub_call_cases [OF call ps] by blast
  then show ?thesis
  proof cases
    case same
    then have sh: "shown J ?S' n E = shown J S n E" for n E by (simp add: shown_def)
    have "mgr_ok etag J ?S' m"
      using same(2) po act unfolding mgr_ok_def by (auto simp: sh)
    then show ?thesis
      using up lease_invD(4,5) [OF inv] by (intro lease_inv_frame [OF inv, of ?S' m]) (auto simp: sh)
  next
    case wrote
    have sh: "shown J ?S' m E" if "E \<le> NLExpiry l" for E
      using that wrote(1,2) by (auto simp: shown_def)
    have "mgr_ok etag J ?S' m"
      using wrote(3,5) unfolding mgr_ok_def by (auto intro: sh)
    moreover have "shown J ?S' n E" if n: "n \<noteq> m" "life S n = Up" "UnixMilli (clock S) < E" "shown J S n E" for n E
    proof (cases "LNodeID m = LNodeID n")
      case True
      from n(4) obtain u where u: "store S (LeaseKey (LNodeID n)) = Some u" by (auto simp: shown_def)
      with wrote(4) True have "takeable J m (clock S) u" by simp
      from shown_not_takeable [OF laws n(4,3) u this order_refl True] lease_invD(3) [OF inv _ up n(2)] n(1)
      show ?thesis by auto
    next
      case False
      with n(4) wrote(1) show ?thesis by (auto simp: shown_def LeaseKey_def)
    qed
    ultimately show ?thesis
      using up lease_invD(4,5) [OF inv] by (intro lease_inv_frame [OF inv, of ?S' m]) auto
  qed
qed

lemma lease_inv_other_call:
  assumes inv: "lease_inv etag J S" and p: "threads S m (Suc i) = Some p" and call: "bucket_call etag (store S) p B' p'"
  shows "lease_inv etag J (set_thread m (Suc i) (Some p') (S\<lparr>store := B'\<rparr>))" (is "lease_inv etag J ?S'")
proof -
  have up: "life S m = Up" using lease_invD(1) [OF inv, of m "Suc i"] p by auto
  note nc = neutral_call [OF call lease_invD(5) [OF inv p]]
  then have sh: "shown J ?S' n E = shown J S n E" for n E by (simp add: shown_def)
  have "mgr_ok etag J ?S' m"
    using lease_invD(6) [OF inv up] unfolding mgr_ok_def by (simp add: sh)
  then show ?thesis
    using up lease_invD(4,5) [OF inv] nc by (intro lease_inv_frame [OF inv, of ?S' m]) (auto simp: sh split: if_splits)
qed

lemma lease_inv_pub_local:
  assumes inv: "lease_inv etag J S" and p: "threads S m 0 = Some (Local u c)"
  shows "lease_inv etag J (set_thread m 0 (Some (c (clock S) (memory S m)))
    (S\<lparr>memory := (memory S)(m := u (clock S) (memory S m))\<rparr>))" (is "lease_inv etag J ?S'")
proof -
  have up: "life S m = Up" using lease_invD(1) [OF inv, of m 0] p by auto
  let ?w = "memory S m"
  let ?w' = "u (clock S) ?w"
  have sh: "shown J ?S' n E = shown J S n E" for n E by (simp add: shown_def)
  from lease_invD(6) [OF inv up] p obtain pend
    where ps: "pub_safe J etag m (Local u c) (clock S) (publishedExpiry ?w) (publishedETag ?w) pend"
    and po: "\<And>l. pend = Some l \<Longrightarrow> UnixMilli (clock S) < NLExpiry l \<Longrightarrow> shown J S m (NLExpiry l)"
    and act: "\<And>e. publishedExpiry ?w = Some e \<Longrightarrow> \<not> fenced ?w \<Longrightarrow> UnixMilli (clock S) < UnixMilli e \<Longrightarrow> shown J S m (UnixMilli e)"
    unfolding mgr_ok_def by blast
  have f: "fenced ?w \<Longrightarrow> fenced ?w'"
    and cs: "publishedExpiry ?w' = publishedExpiry ?w \<and> publishedETag ?w' = publishedETag ?w
        \<and> pub_safe J etag m (c (clock S) ?w) (clock S) (publishedExpiry ?w) (publishedETag ?w) pend
      \<or> (\<exists>l E. pend = Some l \<and> publishedExpiry ?w' = Some E \<and> NLExpiry l = UnixMilli E
           \<and> publishedETag ?w' = Some (etag (marshal J l)) \<and> own_lease m l
           \<and> \<not> fenced ?w' \<and> \<not> expired_at (publishedExpiry ?w) (clock S)
           \<and> pub_safe J etag m (c (clock S) ?w) (clock S) (Some E) (Some (etag (marshal J l))) None)"
    using ps [unfolded pub_safe.simps, rule_format, OF order_refl refl refl lease_invD(4) [OF inv]] by blast+
  have "mgr_ok etag J ?S' m \<and> own_tag J etag m (publishedETag ?w')"
    using cs
  proof (elim disjE conjE exE)
    assume "publishedExpiry ?w' = publishedExpiry ?w" "publishedETag ?w' = publishedETag ?w"
      "pub_safe J etag m (c (clock S) ?w) (clock S) (publishedExpiry ?w) (publishedETag ?w) pend"
    with po act f lease_invD(4) [OF inv, of m] show ?thesis
      unfolding mgr_ok_def by (auto simp: sh)
  next
    fix l E
    assume "pend = Some l" "publishedExpiry ?w' = Some E" "NLExpiry l = UnixMilli E"
      "publishedETag ?w' = Some (etag (marshal J l))" "own_lease m l"
      "pub_safe J etag m (c (clock S) ?w) (clock S) (Some E) (Some (etag (marshal J l))) None"
    with po show ?thesis unfolding mgr_ok_def own_tag_def by (auto simp: sh)
  qed
  then show ?thesis
    using up lease_invD(5) [OF inv] by (intro lease_inv_frame [OF inv, of ?S' m]) (auto simp: sh)
qed

lemma lease_inv_other_local:
  assumes inv: "lease_inv etag J S" and p: "threads S m (Suc i) = Some (Local u c)"
  shows "lease_inv etag J (set_thread m (Suc i) (Some (c (clock S) (memory S m)))
    (S\<lparr>memory := (memory S)(m := u (clock S) (memory S m))\<rparr>))" (is "lease_inv etag J ?S'")
proof -
  have up: "life S m = Up" using lease_invD(1) [OF inv, of m "Suc i"] p by auto
  have sh: "shown J ?S' n E = shown J S n E" for n E by (simp add: shown_def)
  have n: "publishedExpiry (u t w) = publishedExpiry w \<and> publishedETag (u t w) = publishedETag w
      \<and> (fenced w \<longrightarrow> fenced (u t w)) \<and> neutral (c t w)" for t w
    using lease_invD(5) [OF inv p] by simp
  have "mgr_ok etag J ?S' m"
    using lease_invD(6) [OF inv up] n unfolding mgr_ok_def by (auto simp: sh)
  then show ?thesis
    using up lease_invD(4,5) [OF inv] n by (intro lease_inv_frame [OF inv, of ?S' m]) (auto simp: sh split: if_splits)
qed

lemma lease_inv_tick:
  assumes inv: "lease_inv etag J S" and t: "clock S \<le> t"
  shows "lease_inv etag J (S\<lparr>clock := t\<rparr>)"
proof -
  have sh: "shown J (S\<lparr>clock := t\<rparr>) n E = shown J S n E" for n E by (simp add: shown_def)
  have "mgr_ok etag J (S\<lparr>clock := t\<rparr>) m" if up: "life S m = Up" for m
  proof -
    note ms = UnixMilli_mono [OF t]
    from lease_invD(6) [OF inv up] obtain pend where
      ps: "\<And>p. threads S m 0 = Some p \<Longrightarrow>
        pub_safe J etag m p (clock S) (publishedExpiry (memory S m)) (publishedETag (memory S m)) pend"
      and po: "\<And>l. pend = Some l \<Longrightarrow> UnixMilli (clock S) < NLExpiry l \<Longrightarrow> shown J S m (NLExpiry l)"
      and act: "\<And>e. publishedExpiry (memory S m) = Some e \<Longrightarrow> \<not> fenced (memory S m) \<Longrightarrow>
        UnixMilli (clock S) < UnixMilli e \<Longrightarrow> shown J S m (UnixMilli e)"
      unfolding mgr_ok_def by blast
    show ?thesis
      unfolding mgr_ok_def
    proof (intro conjI exI [of _ pend] allI impI)
      fix p assume "threads (S\<lparr>clock := t\<rparr>) m 0 = Some p"
      then show "pub_safe J etag m p (clock (S\<lparr>clock := t\<rparr>)) (publishedExpiry (memory (S\<lparr>clock := t\<rparr>) m))
          (publishedETag (memory (S\<lparr>clock := t\<rparr>) m)) pend"
        using ps pub_safe_mono [OF _ t] by simp
    qed (use po act ms in \<open>auto simp: sh\<close>)
  qed
  with inv show ?thesis unfolding lease_inv_def by auto
qed

lemma lease_inv_set_idle:
  assumes inv: "lease_inv etag J S" and up: "life S m = Up"
    and p: "\<And>q. p = Some q \<Longrightarrow> (if i = 0 then \<forall>now pe et. pub_safe J etag m q now pe et None else neutral q)"
  shows "lease_inv etag J (set_thread m i p S)" (is "lease_inv etag J ?S'")
proof -
  have sh: "shown J ?S' n E = shown J S n E" for n E by (simp add: shown_def)
  have "mgr_ok etag J ?S' m"
  proof (cases "i = 0")
    case True
    then show ?thesis
      using p lease_invD(6) [OF inv up] unfolding mgr_ok_def
      by (intro conjI exI [of _ None]) (auto simp: shown_def)
  next
    case False
    then show ?thesis using lease_invD(6) [OF inv up] unfolding mgr_ok_def by (auto simp: sh)
  qed
  moreover have "neutral q" if "threads ?S' m (Suc j) = Some q" for j q
    using that p [of q] lease_invD(5) [OF inv, of m j q] by (auto split: if_splits)
  ultimately show ?thesis
    using up lease_invD(4) [OF inv] by (intro lease_inv_frame [OF inv, of ?S' m]) (auto simp: sh)
qed

lemma lease_inv_finish:
  assumes inv: "lease_inv etag J S"
  shows "lease_inv etag J (set_thread m i None S)"
proof (cases "life S m = Up")
  case False
  then have "set_thread m i None S = S"
    using lease_invD(1) [OF inv False] by (simp add: set_thread_def fun_upd_idem)
  with inv show ?thesis by simp
qed (rule lease_inv_set_idle [OF inv], simp_all)

lemma lease_inv_halt:
  assumes inv: "lease_inv etag J S"
  shows "lease_inv etag J (S\<lparr>life := (life S)(m := Dead), threads := (threads S)(m := (\<lambda>_. None))\<rparr>)"
    (is "lease_inv etag J ?S'")
proof -
  have sh: "shown J ?S' n E = shown J S n E" for n E by (simp add: shown_def)
  have "mgr_ok etag J ?S' n" if "life ?S' n = Up" for n
    using that lease_invD(6) [OF inv, of n] unfolding mgr_ok_def by (auto simp: sh split: if_splits)
  with inv show ?thesis unfolding lease_inv_def by (auto split: if_splits)
qed

lemma lease_inv_boot:
  assumes inv: "lease_inv etag J S" and un: "life S m = Unborn" and st: "starts S m Boot"
  shows "lease_inv etag J (S\<lparr>life := (life S)(m := Up)\<rparr>)" (is "lease_inv etag J ?S'")
proof -
  have sh: "shown J ?S' n E = shown J S n E" for n E by (simp add: shown_def)
  have "mgr_ok etag J ?S' n" if "life ?S' n = Up" for n
  proof (cases "n = m")
    case True
    then show ?thesis
      using lease_invD(1,2) [OF inv, of m] un unfolding mgr_ok_def by auto
  next
    case False
    with that lease_invD(6) [OF inv, of n] show ?thesis unfolding mgr_ok_def by (auto simp: sh)
  qed
  moreover have "\<not> twins a b" if "a \<noteq> b" "life ?S' a = Up" "life ?S' b = Up" for a b
  proof -
    have sym: "twins a b \<longleftrightarrow> twins b a" for a b :: "'f LManager_scheme" by (auto simp: twins_def)
    show ?thesis
      using that boots [OF st] lease_invD(3) [OF inv, of a b] sym by (auto split: if_splits)
  qed
  ultimately show ?thesis
    using inv un unfolding lease_inv_def by auto
qed

lemma step_lease_inv:
  assumes "inj etag" "lawful J" "step etag starts a S S'" "lease_inv etag J S"
  shows "lease_inv etag J S'"
  using assms(3,4,1,2)
proof (induction rule: step.induct)
  case (start S m i p)
  then show ?case
    by (cases i) (auto intro!: lease_inv_set_idle intro: slot0 others)
next
  case (call S m i p B' p')
  then show ?case by (cases i) (auto intro: lease_inv_pub_call lease_inv_other_call)
next
  case (local S m i u c)
  then show ?case by (cases i) (auto intro: lease_inv_pub_local lease_inv_other_local)
qed (auto intro: lease_inv_tick lease_inv_boot lease_inv_halt lease_inv_finish)

lemma reachable_lease_inv:
  "reachable etag starts S S' \<Longrightarrow> inj etag \<Longrightarrow> lawful J \<Longrightarrow> lease_inv etag J S \<Longrightarrow> lease_inv etag J S'"
  by (induction rule: reachable.induct) (auto intro: step_lease_inv)

text \<open>A session whose deadline has passed keeps that deadline for good.\<close>

lemma lapsed_step:
  assumes "step etag starts a S S'" "lease_inv etag J S" "life S m \<noteq> Unborn"
    and "publishedExpiry (memory S m) = Some e" "UnixMilli e \<le> UnixMilli (clock S)"
  shows "life S' m \<noteq> Unborn \<and> publishedExpiry (memory S' m) = Some e \<and> UnixMilli e \<le> UnixMilli (clock S')"
  using assms
proof (induction rule: step.induct)
  case (tick S t)
  then show ?case using UnixMilli_mono [of "clock S" t] by auto
next
  case (local S n i u c)
  show ?case
  proof (cases "n = m")
    case n: True
    have up: "life S n = Up" using lease_invD(1) [OF local(2)] local(1) by force
    have "publishedExpiry (u (clock S) (memory S n)) = Some e"
    proof (cases i)
      case 0
      from lease_invD(6) [OF local(2) up] local(1) 0 obtain pend where
        ps: "pub_safe J etag n (Local u c) (clock S) (publishedExpiry (memory S n)) (publishedETag (memory S n)) pend"
        unfolding mgr_ok_def by blast
      have ex: "expired_at (publishedExpiry (memory S n)) (clock S)" using local n by (simp add: expired_at_def)
      show ?thesis
        using ps [unfolded pub_safe.simps, rule_format, OF order_refl refl refl lease_invD(4) [OF local(2)]] ex local n
        by auto
    next
      case (Suc j)
      with lease_invD(5) [OF local(2)] local n have "neutral (Local u c)" by blast
      then show ?thesis using local n by simp
    qed
    with local n show ?thesis by simp
  qed (use local in simp)
qed (auto split: if_splits)

lemma lapsed_reachable:
  "reachable etag starts S S' \<Longrightarrow> inj etag \<Longrightarrow> lawful J \<Longrightarrow> lease_inv etag J S \<Longrightarrow> life S m \<noteq> Unborn \<Longrightarrow>
   publishedExpiry (memory S m) = Some e \<Longrightarrow> UnixMilli e \<le> UnixMilli (clock S) \<Longrightarrow>
   life S' m \<noteq> Unborn \<and> publishedExpiry (memory S' m) = Some e \<and> UnixMilli e \<le> UnixMilli (clock S')"
proof (induction rule: reachable.induct)
  case (more S' a S'')
  then have "lease_inv etag J S'" using reachable_lease_inv by blast
  with more lapsed_step show ?case by blast
qed simp

lemma healthy_shown:
  assumes "lease_inv etag J S" "life S m = Up" "fst (Healthy m (clock S) (clock S) (memory S m))"
  obtains l where "store S (LeaseKey (LNodeID m)) = Some (marshal J l)" "own_lease m l"
    "\<And>t. t + 1000000 \<le> clock S + margin m \<Longrightarrow> LeaseLive l t"
proof -
  from assms(3) obtain e where e: "publishedExpiry (memory S m) = Some e" "\<not> fenced (memory S m)"
    "\<not> expired_at (Some e) (clock S)" "clock S < e - margin m"
    by (auto simp: Healthy_def HealthyUntil_def Let_def split: if_splits option.splits)
  then have "UnixMilli (clock S) < UnixMilli e" by (simp add: expired_at_def)
  with lease_invD(6) [OF assms(1,2)] e have "shown J S m (UnixMilli e)" unfolding mgr_ok_def by blast
  then obtain l where l: "store S (LeaseKey (LNodeID m)) = Some (marshal J l)" "own_lease m l" "UnixMilli e \<le> NLExpiry l"
    by (auto simp: shown_def)
  have "LeaseLive l t" if "t + 1000000 \<le> clock S + margin m" for t
  proof -
    have "t + 1000000 \<le> e" using that e(4) by simp
    then have "UnixMilli (t + 1000000) \<le> UnixMilli e" by (rule UnixMilli_mono)
    moreover have "UnixMilli (t + 1000000) = UnixMilli t + 1" by (simp add: UnixMilli_def)
    ultimately show ?thesis using l(3) by (simp add: LeaseLive_def)
  qed
  with l(1,2) show ?thesis by (rule that)
qed

end

subsection \<open>The fleet of lease managers\<close>

text \<open>What a lease manager runs. A process boots with a session id no running process of its node has, and
  holds the lock of its data directory: no running process shares its instance id.\<close>

inductive lease_starts ::
  "(NodeLease, 'v) codec \<Rightarrow> ('v, 'e, 'e lease_mem, unit, LManager) starter" for J where
  boot: "(\<And>n. life S n = Up \<Longrightarrow> \<not> twins m n) \<Longrightarrow> lease_starts J S m Boot"
| publish: "lease_starts J S m (Run 0 (forget (Publish J canceled m load)))"
| health: "lease_starts J S m (Run (Suc i) (Local (\<lambda>clk w. snd (Healthy m now clk w)) (\<lambda>_ _. Return ())))"
| watchdog: "lease_starts J S m (Run (Suc i) (forget Fenced))"
| refreshing: "lease_starts J S m (Run (Suc i) (forget (refresh J canceled m)))"
| known: "lease_starts J S m (Run (Suc i) (forget (RunKnownRefresh n late J m)))"
| lookup: "lease_starts J S m (Run (Suc i) (forget (NodeLeaseOf J canceled node)))"
| point_read: "lease_starts J S m (Run (Suc i) (forget (NodeLeaseFresh J canceled node)))"

definition fresh_fleet :: "('v, 'e, ('e, 'x) lease_mem_scheme, 'r, 'm) system \<Rightarrow> bool" where
  "fresh_fleet S \<longleftrightarrow> idle S \<and> (\<forall>m. life S m = Unborn \<and> publishedExpiry (memory S m) = None \<and> publishedETag (memory S m) = None)"

lemma fresh_lease_inv: "fresh_fleet S \<Longrightarrow> lease_inv etag J S"
  by (simp add: fresh_fleet_def lease_inv_def idle_def own_tag_def)

lemma Healthy_published [simp]:
  "publishedExpiry (snd (Healthy m now clk w)) = publishedExpiry w"
  "publishedETag (snd (Healthy m now clk w)) = publishedETag w"
  "fenced w \<Longrightarrow> fenced (snd (Healthy m now clk w))"
  by (simp_all add: Healthy_def HealthyUntil_def Let_def split: option.splits)

interpretation leases: lease_fleet etag J "lease_starts J" for etag J
  by unfold_locales
     (auto elim!: lease_starts.cases intro!: pub_safe_forget Publish_safe simp: Fenced_def)

text \<open>A fleet of one node that boots and publishes its first lease.\<close>

definition lease_demo_codec :: "(NodeLease, NodeLease) codec" where
  "lease_demo_codec = \<lparr>marshal = id, unmarshal = Some\<rparr>"

definition lease_demo_manager :: LManager where
  "lease_demo_manager = \<lparr>LNodeID = ''a'', LSessionID = ''s1'', LAdvert = [], LPeerURL = [], LAZ = [], LTTL = 10000000000, LInstance = ''i1''\<rparr>"

definition lease_demo_mem :: "'e lease_mem" where
  "lease_demo_mem = \<lparr>publishedExpiry = None, fenced = False, publishedETag = None, cached = None, cachedAt = 0, refreshing = False,
     retryAt = 0, observed = Map.empty, knownRunning = False\<rparr>"

definition lease_demo_fleet :: "(NodeLease, NodeLease, NodeLease lease_mem, unit, LManager) system" where
  "lease_demo_fleet = \<lparr>clock = 0, store = Map.empty, life = (\<lambda>_. Unborn), memory = (\<lambda>_. lease_demo_mem), threads = (\<lambda>_ _. None)\<rparr>"

definition lease_demo_load :: Load where
  "lease_demo_load = \<lparr>OwnedCells = 0, Weight = 1, ResidentCells = 0, RSSBytes = 0, CPUPercentX100 = 0, Pressured = False,
     MemoryHeadroom = 0, ShedCells = 0, Restoring = 0, SampledMs = 1\<rparr>"

lemma lease_demo_laws: "inj (id :: NodeLease \<Rightarrow> NodeLease)" "lawful lease_demo_codec" "fresh_fleet lease_demo_fleet"
  by (simp_all add: lawful_def lease_demo_codec_def fresh_fleet_def idle_def lease_demo_fleet_def lease_demo_mem_def)

lemma lease_demo_run:
  "run id 0 (forget (Publish lease_demo_codec False lease_demo_manager lease_demo_load)) Map.empty lease_demo_mem =
     ((), [LeaseKey ''a'' \<mapsto> lease_of lease_demo_manager lease_demo_load 10000000000],
      lease_demo_mem\<lparr>publishedETag := Some (lease_of lease_demo_manager lease_demo_load 10000000000),
        publishedExpiry := Some 10000000000\<rparr>)"
  by (simp add: forget_def Publish_def Fenced_def publish_first_def publish_write_def publish_done_def bucket_get_def
      bucket_create_def expiredLocked_def expired_at_def lease_demo_mem_def lease_demo_load_def lease_demo_codec_def
      lease_demo_manager_def UnixMilli_def lease_of_def Let_def)

lemma lease_demo_reach:
  "\<exists>S. reachable id (lease_starts lease_demo_codec) lease_demo_fleet S \<and> life S lease_demo_manager = Up \<and> clock S = 0
     \<and> publishedExpiry (memory S lease_demo_manager) = Some 10000000000 \<and> \<not> fenced (memory S lease_demo_manager)"
proof -
  let ?m = lease_demo_manager
  let ?p = "forget (Publish lease_demo_codec False ?m lease_demo_load)"
  let ?S1 = "lease_demo_fleet\<lparr>life := (life lease_demo_fleet)(?m := Up)\<rparr>"
  let ?S2 = "set_thread ?m 0 (Some ?p) ?S1"
  have "step id (lease_starts lease_demo_codec) (Some ?m) lease_demo_fleet ?S1"
    by (intro step.boot lease_starts.boot) (simp_all add: lease_demo_fleet_def)
  moreover have "step id (lease_starts lease_demo_codec) (Some ?m) ?S1 ?S2"
    by (intro step.start lease_starts.publish) (simp_all add: lease_demo_fleet_def)
  ultimately have r: "reachable id (lease_starts lease_demo_codec) lease_demo_fleet ?S2"
    by (meson reachable.more reachable.init)
  have run: "run id (clock ?S2) ?p (store ?S2) (memory ?S2 ?m) =
     ((), [LeaseKey ''a'' \<mapsto> lease_of lease_demo_manager lease_demo_load 10000000000],
      lease_demo_mem\<lparr>publishedETag := Some (lease_of lease_demo_manager lease_demo_load 10000000000),
        publishedExpiry := Some 10000000000\<rparr>)"
    using lease_demo_run by (simp add: lease_demo_fleet_def)
  have t: "threads ?S2 ?m 0 = Some ?p" by simp
  from reachable_trans [OF run_reachable [OF t run] r] show ?thesis
    by (rule exI [where P = "\<lambda>S. reachable id (lease_starts lease_demo_codec) lease_demo_fleet S \<and> _ S", OF conjI])
       (simp add: after_run_def lease_demo_mem_def lease_demo_fleet_def)
qed

text \<open>C26: Whenever a node session counts itself healthy, the lease in the bucket is its own, and a peer reads it as live
  at every instant up to the self-fence margin (less one millisecond) ahead of the session's clock.\<close>

theorem healthy_lease_visible:
  assumes "inj etag" "lawful J" "fresh_fleet S\<^sub>0" "reachable etag (lease_starts J) S\<^sub>0 S"
    and "life S m = Up" "fst (Healthy m (clock S) (clock S) (memory S m))"
  shows "\<exists>l. store S (LeaseKey (LNodeID m)) = Some (marshal J l) \<and> NLSession l = LSessionID m
    \<and> (\<forall>t. t + 1000000 \<le> clock S + margin m \<longrightarrow> LeaseLive l t)"
proof -
  have "lease_inv etag J S"
    by (rule leases.reachable_lease_inv [OF assms(4,1,2) fresh_lease_inv [OF assms(3)]])
  from leases.healthy_shown [OF this assms(5,6)] show ?thesis by (auto simp: own_lease_def)
qed



lemma lease_demo_healthy:
  assumes "publishedExpiry w = Some 10000000000" "\<not> fenced w"
  shows "fst (Healthy lease_demo_manager 0 0 w)"
  using assms
  by (simp add: Healthy_def HealthyUntil_def expired_at_def margin_def lease_demo_manager_def UnixMilli_def Let_def)

theorem healthy_lease_visible_witness:
  "\<exists>S. reachable id (lease_starts lease_demo_codec) lease_demo_fleet S
     \<and> fst (Healthy lease_demo_manager (clock S) (clock S) (memory S lease_demo_manager))
     \<and> (\<exists>l. store S (LeaseKey ''a'') = Some l \<and> LeaseLive l 1000000000)"
proof -
  obtain S where S: "reachable id (lease_starts lease_demo_codec) lease_demo_fleet S" "life S lease_demo_manager = Up"
    "clock S = 0" "publishedExpiry (memory S lease_demo_manager) = Some 10000000000" "\<not> fenced (memory S lease_demo_manager)"
    using lease_demo_reach by blast
  then have h: "fst (Healthy lease_demo_manager (clock S) (clock S) (memory S lease_demo_manager))"
    using lease_demo_healthy by simp
  from healthy_lease_visible [OF lease_demo_laws S(1,2) h] obtain l
    where "store S (LeaseKey ''a'') = Some l" "\<And>t. t + 1000000 \<le> clock S + margin lease_demo_manager \<Longrightarrow> LeaseLive l t"
    by (auto simp: lease_demo_codec_def lease_demo_manager_def)
  then have "store S (LeaseKey ''a'') = Some l \<and> LeaseLive l 1000000000"
    using S(3) by (simp add: margin_def lease_demo_manager_def)
  with S(1) h show ?thesis by blast
qed



end
