(* ===== verification/Owner.thy ===== *)
theory Owner
  imports Lease "HOL-Library.AList"
begin

text \<open>
  \<^verbatim>\<open>internal/owner\<close>: who owns a cell. owner.go (claim, renew, release, the record cache), as.go (the generation
  counter and claims on behalf of another node) and route.go (routes, the guards of local reads). The
  manager extends the lease manager of its process and its memory, as main.go wires them: \<open>WithLease\<close>
  says whether the lease view is set. A Go map whose size or iteration order matters is an
  association list, iterated in the order \<open>MapOrder\<close> gives, which is any. \<open>claims\<close> and \<open>routeFlights\<close> hold the
  channels other callers wait on; a wait is a poll, and the number of polls and loop iterations left
  before the context is done is an argument. The revision counters are natural numbers: they count the
  invalidations of one process.
\<close>

subsection \<open>State\<close>

record 'e cachedOwner =
  coOwner :: Owner
  coTag :: 'e
  coAt :: time

record OwnedScope =
  osScope :: Scope
  osEpoch :: u64

record 'e ownerRoute =
  rtOwner :: Owner
  rtTag :: 'e
  rtUntil :: time
  rtWall :: int
  rtLocal :: bool

datatype owner_error =
    ErrUnowned | ErrOwnerLive Owner | ErrEpochMismatch | ErrGenContention | ErrGenCorrupt | ErrCorruptRecord
  | OwnerBucket bucket_error | OwnerLease lease_error | ErrHook string | ErrDone

text \<open>A flight: its revision, and the answer once it is done: the outcome and whether to retry.\<close>

record 'e routeFlight =
  flRev :: nat
  flAnswer :: "((owner_error + Owner \<times> 'e) \<times> bool) option"

record OManager = LManager +
  WithLease :: bool
  Advertise :: string
  AdminAdvertise :: string
  MRole :: string
  OwnerTTL :: int
  MapOrder :: "time \<Rightarrow> string list \<Rightarrow> string list"

record 'e owner_mem = "'e lease_mem" +
  ocache :: "(string \<times> 'e cachedOwner) list"
  cacheRev :: "(string \<times> nat) list"
  cacheRevAt :: "string \<Rightarrow> time option"
  cacheEpoch :: nat
  cachePending :: "string \<Rightarrow> nat"
  guards :: "string \<Rightarrow> nat"
  routes :: "(string \<times> 'e ownerRoute) list"
  routeFlights :: "string \<Rightarrow> nat option"
  flights :: "nat \<Rightarrow> 'e routeFlight option"
  newFlight :: nat
  releasing :: "string \<Rightarrow> nat"
  claims :: "string \<Rightarrow> bool"
  owned :: "(string \<times> OwnedScope) list"
  lastTouch :: "string \<Rightarrow> time option"
  epochBumps :: nat
  takeoverSuccess :: nat
  takeoverFailed :: nat
  takeoverBlocked :: nat

definition ClaimStats :: "('e, 'x) owner_mem_scheme \<Rightarrow> (string \<times> nat) list" where
  "ClaimStats w = [(''epoch_bumps'', epochBumps w), (''takeover_success'', takeoverSuccess w),
     (''takeover_failed'', takeoverFailed w), (''takeover_blocked'', takeoverBlocked w)]"

definition maxOwnerCache :: nat where "maxOwnerCache = 4096"
definition maxOwnerCacheRev :: nat where "maxOwnerCacheRev = 8192"
definition ownerCacheIdle :: int where "ownerCacheIdle = 600000000000"
definition maxOwnerRoutes :: nat where "maxOwnerRoutes = 4096"

text \<open>The zero \<^verbatim>\<open>time.Time\<close>, first of January of the year 1.\<close>

definition zeroTime :: time where "zeroTime = -62135596800000000000"

definition time_of :: "time option \<Rightarrow> time" where
  "time_of t = (case t of None \<Rightarrow> zeroTime | Some t \<Rightarrow> t)"

text \<open>The codecs of the objects the protocol stores: leases, owner records, raw text.\<close>

record 'v wire =
  wLease :: "(NodeLease, 'v) codec"
  wOwner :: "(Owner, 'v) codec"
  wText :: "(string, 'v) codec"

type_synonym ('v, 'e, 'x, 'a) ohandler = "('v, 'e, ('e, 'x) owner_mem_scheme, owner_error + 'a) prog"
type_synonym ('v, 'e, 'x, 'a) oprog = "('v, 'e, ('e, 'x) owner_mem_scheme, 'a) prog"

subsection \<open>owner.go: caches\<close>

definition OwnerKey :: "Scope \<Rightarrow> string" where
  "OwnerKey s = ScopeKey s @ ''/owner.json''"

definition rev_of :: "('e, 'x) owner_mem_scheme \<Rightarrow> string \<Rightarrow> nat" where
  "rev_of w key = (case map_of (cacheRev w) key of None \<Rightarrow> 0 | Some n \<Rightarrow> n)"

definition finishResolveLocked :: "string \<Rightarrow> ('e, 'x) owner_mem_scheme \<Rightarrow> ('e, 'x) owner_mem_scheme" where
  "finishResolveLocked key w = w\<lparr>cachePending := (cachePending w)(key := cachePending w key - 1)\<rparr>"

definition cacheKeyActiveLocked :: "('e, 'x) owner_mem_scheme \<Rightarrow> string \<Rightarrow> bool" where
  "cacheKeyActiveLocked w key \<longleftrightarrow>
     map_of (ocache w) key \<noteq> None \<or> map_of (routes w) key \<noteq> None \<or> routeFlights w key \<noteq> None
     \<or> releasing w key > 0 \<or> cachePending w key > 0 \<or> guards w key > 0"

definition dropRevLocked :: "string \<Rightarrow> ('e, 'x) owner_mem_scheme \<Rightarrow> ('e, 'x) owner_mem_scheme" where
  "dropRevLocked key w =
     w\<lparr>cacheRev := AList.delete key (cacheRev w), cacheRevAt := (cacheRevAt w)(key := None), cacheEpoch := cacheEpoch w + 1\<rparr>"

definition idle_for :: "time \<Rightarrow> time option \<Rightarrow> bool" where
  "idle_for now at \<longleftrightarrow> (case at of None \<Rightarrow> True | Some t \<Rightarrow> now - t \<ge> ownerCacheIdle)"

text \<open>The four loops of \<open>trimCachesLocked\<close>.\<close>

fun evict_cache :: "string list \<Rightarrow> (string \<times> 'e cachedOwner) list \<Rightarrow> (string \<times> 'e cachedOwner) list" where
  "evict_cache [] c = c"
| "evict_cache (k # ks) c = (if length c \<le> maxOwnerCache then c else evict_cache ks (AList.delete k c))"

fun drop_idle :: "time \<Rightarrow> string list \<Rightarrow> ('e, 'x) owner_mem_scheme \<Rightarrow> ('e, 'x) owner_mem_scheme" where
  "drop_idle now [] w = w"
| "drop_idle now (k # ks) w =
     drop_idle now ks (if \<not> cacheKeyActiveLocked w k \<and> idle_for now (cacheRevAt w k) then dropRevLocked k w else w)"

fun drop_excess :: "string list \<Rightarrow> ('e, 'x) owner_mem_scheme \<Rightarrow> ('e, 'x) owner_mem_scheme" where
  "drop_excess [] w = w"
| "drop_excess (k # ks) w =
     (if length (cacheRev w) \<le> maxOwnerCacheRev then w
      else drop_excess ks (if \<not> cacheKeyActiveLocked w k then dropRevLocked k w else w))"

definition trimCachesLocked :: "'y OManager_scheme \<Rightarrow> time \<Rightarrow> ('e, 'x) owner_mem_scheme \<Rightarrow> ('e, 'x) owner_mem_scheme" where
  "trimCachesLocked m now w =
     (let w1 = (if length (ocache w) > maxOwnerCache
                then let c = filter (\<lambda>(_, c). \<not> now - coAt c \<ge> ownerCacheIdle) (ocache w)
                     in w\<lparr>ocache := evict_cache (MapOrder m now (map fst c)) c\<rparr>
                else w)
      in if length (cacheRev w1) > maxOwnerCacheRev
         then let w2 = drop_idle now (MapOrder m now (map fst (cacheRev w1))) w1
              in drop_excess (MapOrder m now (map fst (cacheRev w2))) w2
         else w1)"

definition invalidateLocked ::
  "'y OManager_scheme \<Rightarrow> string \<Rightarrow> time \<Rightarrow> ('e, 'x) owner_mem_scheme \<Rightarrow> ('e, 'x) owner_mem_scheme" where
  "invalidateLocked m key now w =
     trimCachesLocked m now
       (w\<lparr>ocache := AList.delete key (ocache w), routes := AList.delete key (routes w),
          cacheRev := AList.update key (rev_of w key + 1) (cacheRev w), cacheRevAt := (cacheRevAt w)(key \<mapsto> now)\<rparr>)"

definition Invalidate :: "'y OManager_scheme \<Rightarrow> Scope \<Rightarrow> ('v, 'e, 'x, unit) oprog" where
  "Invalidate m s = change (invalidateLocked m (ScopeString s))"

definition Resolve :: "'v wire \<Rightarrow> Scope \<Rightarrow> ('v, 'e, 'x, Owner \<times> 'e) ohandler" where
  "Resolve W s =
     Get (OwnerKey s) (\<lambda>x. Return (case x of
         Inl ErrNotFound \<Rightarrow> Inl ErrUnowned
       | Inl e \<Rightarrow> Inl (OwnerBucket e)
       | Inr (data, e) \<Rightarrow> (case unmarshal (wOwner W) data of None \<Rightarrow> Inl ErrCorruptRecord | Some o' \<Rightarrow> Inr (o', e))))"

definition ResolveCached :: "'v wire \<Rightarrow> 'y OManager_scheme \<Rightarrow> Scope \<Rightarrow> int \<Rightarrow> ('v, 'e, 'x, Owner \<times> 'e) ohandler" where
  "ResolveCached W m s ttl =
     (let key = ScopeString s in
      bind (atomically (\<lambda>t w. case map_of (ocache w) key of
          Some c \<Rightarrow> if t - coAt c < ttl then (Inl (coOwner c, coTag c), w)
                    else (Inr (rev_of w key), w\<lparr>cachePending := (cachePending w)(key := cachePending w key + 1)\<rparr>)
        | None \<Rightarrow> (Inr (rev_of w key), w\<lparr>cachePending := (cachePending w)(key := cachePending w key + 1)\<rparr>)))
        (\<lambda>hit. case hit of
           Inl oe \<Rightarrow> Return (Inr oe)
         | Inr r0 \<Rightarrow>
             bind (Resolve W s) (\<lambda>r. case r of
                 Inl e \<Rightarrow> bind (change (\<lambda>_. finishResolveLocked key)) (\<lambda>_. Return (Inl e))
               | Inr (o', e) \<Rightarrow>
                   bind (change (\<lambda>t w.
                       let w1 = (if rev_of w key = r0
                                 then w\<lparr>ocache := AList.update key \<lparr>coOwner = o', coTag = e, coAt = t\<rparr> (ocache w)\<rparr>
                                 else w)
                       in trimCachesLocked m t (finishResolveLocked key w1)))
                     (\<lambda>_. Return (Inr (o', e))))))"

subsection \<open>owner.go: liveness\<close>

definition live_as :: "NodeLease option \<Rightarrow> Owner \<Rightarrow> time \<Rightarrow> bool" where
  "live_as r o' now \<longleftrightarrow> (case r of None \<Rightarrow> False | Some l \<Rightarrow> LeaseLive l now \<and> NLSession l = Session o')"

definition lease_call :: "('v, 'e, ('e, 'x) owner_mem_scheme, lease_error + 'a) prog \<Rightarrow> ('v, 'e, 'x, 'a) ohandler" where
  "lease_call p = bind p (\<lambda>r. Return (map_sum OwnerLease id r))"

definition Live ::
  "'v wire \<Rightarrow> bool \<Rightarrow> 'y OManager_scheme \<Rightarrow> Owner \<Rightarrow> time \<Rightarrow> ('v, 'e, 'x, bool) ohandler" where
  "Live W canceled m o' now =
     (if Liveness o' \<noteq> node_lease then Return (Inr (\<not> Expired o' now))
      else if WithLease m \<and> Node o' = LNodeID m \<and> Session o' = LSessionID m
        then atomically (\<lambda>clk w. map_prod Inr id (Healthy m now clk w))
      else if \<not> WithLease m then Return (Inr (UnixMilli now < Expiry o'))
      else
        attempt (lease_call (NodeLeaseOf (wLease W) canceled (Node o'))) (\<lambda>l.
          if live_as l o' now then Return (Inr True)
          else attempt (lease_call (NodeLeaseFresh (wLease W) canceled (Node o'))) (\<lambda>l.
                 Return (Inr (live_as l o' now)))))"

definition liveFresh ::
  "'v wire \<Rightarrow> bool \<Rightarrow> 'y OManager_scheme \<Rightarrow> Owner \<Rightarrow> time \<Rightarrow> ('v, 'e, 'x, bool) ohandler" where
  "liveFresh = Live"

subsection \<open>owner.go: the owned set\<close>

definition Forget :: "Scope \<Rightarrow> u64 \<Rightarrow> ('v, 'e, 'x, unit) oprog" where
  "Forget s epoch = change (\<lambda>_ w. case map_of (owned w) (ScopeString s) of
       Some cur \<Rightarrow> if epoch = 0 \<or> osEpoch cur = epoch then w\<lparr>owned := AList.delete (ScopeString s) (owned w)\<rparr> else w
     | None \<Rightarrow> w)"

definition rememberOwned :: "Scope \<Rightarrow> u64 \<Rightarrow> ('v, 'e, 'x, unit) oprog" where
  "rememberOwned s epoch =
     change (\<lambda>_ w. w\<lparr>owned := AList.update (ScopeString s) \<lparr>osScope = s, osEpoch = epoch\<rparr> (owned w)\<rparr>)"

definition forgetOwned :: "Scope \<Rightarrow> ('v, 'e, 'x, unit) oprog" where
  "forgetOwned s =
     bind (change (\<lambda>_ w. w\<lparr>owned := AList.delete (ScopeString s) (owned w)\<rparr>)) (\<lambda>_.
       change (\<lambda>_ w. w\<lparr>lastTouch := (lastTouch w)(ScopeString s := None)\<rparr>))"

definition OwnedScopes :: "('e, 'x) owner_mem_scheme \<Rightarrow> OwnedScope list" where
  "OwnedScopes w = map snd (owned w)"

text \<open>The optional \<^verbatim>\<open>Touch\<close> of the bucket, a parameter, is called at most twice an hour for a scope.\<close>

definition touchOwnerSegment ::
  "(string \<Rightarrow> ('v, 'e, 'x, unit) oprog) option \<Rightarrow> Scope \<Rightarrow> time \<Rightarrow> ('v, 'e, 'x, unit) oprog" where
  "touchOwnerSegment toucher s now =
     (case toucher of
        None \<Rightarrow> Return ()
      | Some touch \<Rightarrow>
          bind (atomically (\<lambda>_ w.
              let due = (case lastTouch w (ScopeString s) of None \<Rightarrow> True | Some at \<Rightarrow> now - at \<ge> 1800000000000)
              in (due, if due then w\<lparr>lastTouch := (lastTouch w)(ScopeString s \<mapsto> now)\<rparr> else w)))
            (\<lambda>due. if due then touch (OwnerKey s) else Return ()))"

definition newOwner :: "'y OManager_scheme \<Rightarrow> u64 \<Rightarrow> time \<Rightarrow> Owner" where
  "newOwner m epoch now =
     \<lparr>Node = LNodeID m, Role = MRole m, Session = LSessionID m, Epoch = epoch, Expiry = UnixMilli (now + OwnerTTL m),
      Liveness = node_lease, Address = Advertise m, AdminAddress = AdminAdvertise m, OwnerProto = ProtoVersion\<rparr>"

subsection \<open>as.go: the generation counter\<close>

definition genKey :: "Scope \<Rightarrow> string" where
  "genKey s = ScopeKey s @ ''/owner-gen''"

definition gen_of :: "'v wire \<Rightarrow> 'v \<Rightarrow> u64 option" where
  "gen_of W v = (case unmarshal (wText W) v of None \<Rightarrow> None | Some t \<Rightarrow> ParseUint (TrimSpace t))"

definition gen_body :: "'v wire \<Rightarrow> u64 \<Rightarrow> 'v" where
  "gen_body W n = marshal (wText W) (dec (unat n))"

definition next_gen :: "u64 \<Rightarrow> u64 \<Rightarrow> u64" where
  "next_gen g floor = (let n = g + 1 in if n \<le> floor then floor + 1 else n)"

primrec bump :: "nat \<Rightarrow> 'v wire \<Rightarrow> Scope \<Rightarrow> u64 \<Rightarrow> ('v, 'e, 'x, u64) ohandler" where
  "bump 0 W s floor = Return (Inl ErrGenContention)"
| "bump (Suc n) W s floor =
     Get (genKey s) (\<lambda>x. case x of
         Inl ErrNotFound \<Rightarrow>
           (let next = next_gen 0 floor in
            Create (genKey s) (gen_body W next) (\<lambda>c. case c of
                Inl _ \<Rightarrow> bump n W s floor
              | Inr _ \<Rightarrow> bind (change (\<lambda>_ w. w\<lparr>epochBumps := epochBumps w + 1\<rparr>)) (\<lambda>_. Return (Inr next))))
       | Inl e \<Rightarrow> Return (Inl (OwnerBucket e))
       | Inr (data, e) \<Rightarrow>
           (case gen_of W data of
              None \<Rightarrow> Return (Inl ErrGenCorrupt)
            | Some g \<Rightarrow>
                (let next = next_gen g floor in
                 CAS (genKey s) (gen_body W next) e (\<lambda>c. case c of
                     Inl _ \<Rightarrow> bump n W s floor
                   | Inr _ \<Rightarrow> bind (change (\<lambda>_ w. w\<lparr>epochBumps := epochBumps w + 1\<rparr>)) (\<lambda>_. Return (Inr next))))))"

definition nextEpoch :: "'v wire \<Rightarrow> Scope \<Rightarrow> u64 \<Rightarrow> ('v, 'e, 'x, u64) ohandler" where
  "nextEpoch = bump 8"

subsection \<open>owner.go: claim, renew, release\<close>

text \<open>The wait for another claim of the same scope in this process.\<close>

primrec lockClaim :: "nat \<Rightarrow> string \<Rightarrow> ('v, 'e, 'x, unit) ohandler" where
  "lockClaim 0 key = Return (Inl ErrDone)"
| "lockClaim (Suc n) key =
     bind (atomically (\<lambda>_ w. (claims w key, w\<lparr>claims := (claims w)(key := True)\<rparr>))) (\<lambda>busy.
       if busy then lockClaim n key else Return (Inr ()))"

definition unlockClaim :: "string \<Rightarrow> ('v, 'e, 'x, unit) oprog" where
  "unlockClaim key = change (\<lambda>_ w. w\<lparr>claims := (claims w)(key := False)\<rparr>)"

text \<open>The callbacks of a claim, a release: \<open>BeforeTakeover\<close>, \<open>reset\<close>, \<open>BeforeRelease\<close>, the bucket's \<^verbatim>\<open>Touch\<close>.\<close>

record ('v, 'e, 'w) hooks =
  BeforeTakeover :: "(Owner \<Rightarrow> ('v, 'e, 'w, string + unit) prog) option"
  Reset :: "(Scope \<Rightarrow> ('v, 'e, 'w, string + unit) prog) option"
  BeforeRelease :: "(Scope \<Rightarrow> u64 \<Rightarrow> ('v, 'e, 'w, string + unit) prog) option"
  Touch :: "(string \<Rightarrow> ('v, 'e, 'w, unit) prog) option"

definition hook :: "('v, 'e, ('e, 'x) owner_mem_scheme, string + unit) prog option \<Rightarrow> ('v, 'e, 'x, unit) ohandler" where
  "hook h = (case h of None \<Rightarrow> Return (Inr ()) | Some p \<Rightarrow> bind p (\<lambda>r. Return (map_sum ErrHook id r)))"

definition claimed :: "'y OManager_scheme \<Rightarrow> Scope \<Rightarrow> Owner \<Rightarrow> ('v, 'e, 'x, Owner) ohandler" where
  "claimed m s o' = bind (Invalidate m s) (\<lambda>_. bind (rememberOwned s (Epoch o')) (\<lambda>_. Return (Inr o')))"

definition claim_unowned ::
  "'v wire \<Rightarrow> ('v, 'e, ('e, 'x) owner_mem_scheme) hooks \<Rightarrow> 'y OManager_scheme \<Rightarrow> Scope \<Rightarrow> time \<Rightarrow> ('v, 'e, 'x, Owner) ohandler" where
  "claim_unowned W H m s now =
     attempt (nextEpoch W s 0) (\<lambda>epoch.
     attempt (hook (map_option (\<lambda>f. f s) (Reset H))) (\<lambda>_.
       let o' = newOwner m epoch now in
       Create (OwnerKey s) (MarshalOwner (marshal (wOwner W)) o') (\<lambda>c. case c of
           Inl e \<Rightarrow> Return (Inl (OwnerBucket e))
         | Inr _ \<Rightarrow> claimed m s o')))"

definition claim_takeover ::
  "'v wire \<Rightarrow> ('v, 'e, ('e, 'x) owner_mem_scheme) hooks \<Rightarrow> 'y OManager_scheme \<Rightarrow> Scope \<Rightarrow> time \<Rightarrow> Owner \<Rightarrow> 'e \<Rightarrow>
   ('v, 'e, 'x, Owner) ohandler" where
  "claim_takeover W H m s now cur e =
     bind (hook (map_option (\<lambda>f. f cur) (BeforeTakeover H))) (\<lambda>r. case r of
         Inl x \<Rightarrow> bind (change (\<lambda>_ w. w\<lparr>takeoverFailed := takeoverFailed w + 1\<rparr>)) (\<lambda>_. Return (Inl x))
       | Inr _ \<Rightarrow>
     attempt (hook (map_option (\<lambda>f. f s) (Reset H))) (\<lambda>_.
     attempt (nextEpoch W s (Epoch cur)) (\<lambda>epoch.
       let o' = newOwner m epoch now in
       CAS (OwnerKey s) (MarshalOwner (marshal (wOwner W)) o') e (\<lambda>c. case c of
           Inl x \<Rightarrow> bind (change (\<lambda>_ w. w\<lparr>takeoverFailed := takeoverFailed w + 1\<rparr>)) (\<lambda>_. Return (Inl (OwnerBucket x)))
         | Inr _ \<Rightarrow> bind (change (\<lambda>_ w. w\<lparr>takeoverSuccess := takeoverSuccess w + 1\<rparr>)) (\<lambda>_. claimed m s o')))))"

definition claim_body ::
  "'v wire \<Rightarrow> bool \<Rightarrow> ('v, 'e, ('e, 'x) owner_mem_scheme) hooks \<Rightarrow> 'y OManager_scheme \<Rightarrow> Scope \<Rightarrow> time \<Rightarrow>
   ('v, 'e, 'x, Owner) ohandler" where
  "claim_body W canceled H m s now =
     bind (Resolve W s) (\<lambda>r. case r of
         Inl ErrUnowned \<Rightarrow> claim_unowned W H m s now
       | Inl x \<Rightarrow> Return (Inl x)
       | Inr (cur, e) \<Rightarrow>
           if Node cur = LNodeID m \<and> Session cur = LSessionID m
           then bind (rememberOwned s (Epoch cur)) (\<lambda>_. bind (touchOwnerSegment (Touch H) s now) (\<lambda>_. Return (Inr cur)))
           else attempt (liveFresh W canceled m cur now) (\<lambda>live.
             if live then bind (change (\<lambda>_ w. w\<lparr>takeoverBlocked := takeoverBlocked w + 1\<rparr>)) (\<lambda>_. Return (Inl (ErrOwnerLive cur)))
             else claim_takeover W H m s now cur e))"

definition ClaimWithReset ::
  "nat \<Rightarrow> 'v wire \<Rightarrow> bool \<Rightarrow> ('v, 'e, ('e, 'x) owner_mem_scheme) hooks \<Rightarrow> 'y OManager_scheme \<Rightarrow> Scope \<Rightarrow> time \<Rightarrow>
   ('v, 'e, 'x, Owner) ohandler" where
  "ClaimWithReset n W canceled H m s now =
     attempt (lockClaim n (ScopeString s)) (\<lambda>_.
       bind (claim_body W canceled H m s now) (\<lambda>r. bind (unlockClaim (ScopeString s)) (\<lambda>_. Return r)))"

definition Claim ::
  "nat \<Rightarrow> 'v wire \<Rightarrow> bool \<Rightarrow> ('v, 'e, ('e, 'x) owner_mem_scheme) hooks \<Rightarrow> 'y OManager_scheme \<Rightarrow> Scope \<Rightarrow> time \<Rightarrow>
   ('v, 'e, 'x, Owner) ohandler" where
  "Claim n W canceled H m s now = ClaimWithReset n W canceled (H\<lparr>Reset := None\<rparr>) m s now"

definition Renew ::
  "'v wire \<Rightarrow> ('v, 'e, ('e, 'x) owner_mem_scheme) hooks \<Rightarrow> 'y OManager_scheme \<Rightarrow> Scope \<Rightarrow> u64 \<Rightarrow> time \<Rightarrow>
   ('v, 'e, 'x, Owner) ohandler" where
  "Renew W H m s epoch now =
     attempt (Resolve W s) (\<lambda>(cur, e).
       if Node cur \<noteq> LNodeID m \<or> Session cur \<noteq> LSessionID m \<or> Epoch cur \<noteq> epoch
       then bind (Invalidate m s) (\<lambda>_. Return (Inl ErrEpochMismatch))
       else if Liveness cur = node_lease then
         (let kept = (\<lambda>cur. bind (rememberOwned s (Epoch cur)) (\<lambda>_. bind (touchOwnerSegment (Touch H) s now) (\<lambda>_. Return (Inr cur))))
          in if AdminAdvertise m \<noteq> [] \<and> AdminAddress cur \<noteq> AdminAdvertise m
             then let cur' = cur\<lparr>AdminAddress := AdminAdvertise m\<rparr> in
               CAS (OwnerKey s) (MarshalOwner (marshal (wOwner W)) cur') e (\<lambda>c. case c of
                   Inl x \<Rightarrow> Return (Inl (OwnerBucket x)) | Inr _ \<Rightarrow> kept cur')
             else kept cur)
       else
         (let cur1 = cur\<lparr>Expiry := UnixMilli (now + OwnerTTL m)\<rparr>;
              cur' = (if AdminAdvertise m \<noteq> [] then cur1\<lparr>AdminAddress := AdminAdvertise m\<rparr> else cur1)
          in CAS (OwnerKey s) (MarshalOwner (marshal (wOwner W)) cur') e (\<lambda>c. case c of
                 Inl x \<Rightarrow> Return (Inl (OwnerBucket x))
               | Inr _ \<Rightarrow> bind (rememberOwned s (Epoch cur')) (\<lambda>_. Return (Inr cur')))))"

definition release_enter :: "'y OManager_scheme \<Rightarrow> string \<Rightarrow> time \<Rightarrow> ('e, 'x) owner_mem_scheme \<Rightarrow> ('e, 'x) owner_mem_scheme" where
  "release_enter m key now w =
     invalidateLocked m key now (w\<lparr>releasing := (releasing w)(key := releasing w key + 1)\<rparr>)"

definition release_leave :: "'y OManager_scheme \<Rightarrow> string \<Rightarrow> time \<Rightarrow> ('e, 'x) owner_mem_scheme \<Rightarrow> ('e, 'x) owner_mem_scheme" where
  "release_leave m key now w =
     invalidateLocked m key now (w\<lparr>releasing := (releasing w)(key := releasing w key - 1)\<rparr>)"

definition release_body ::
  "'v wire \<Rightarrow> ('v, 'e, ('e, 'x) owner_mem_scheme) hooks \<Rightarrow> 'y OManager_scheme \<Rightarrow> Scope \<Rightarrow> u64 \<Rightarrow> bool \<Rightarrow> ('v, 'e, 'x, unit) ohandler" where
  "release_body W H m s epoch skip =
     attempt (Resolve W s) (\<lambda>(cur, e).
       if Node cur \<noteq> LNodeID m \<or> Session cur \<noteq> LSessionID m \<or> Epoch cur \<noteq> epoch
       then bind (Invalidate m s) (\<lambda>_. Return (Inl ErrEpochMismatch))
       else
         bind (hook (if skip then None else map_option (\<lambda>f. f s epoch) (BeforeRelease H))) (\<lambda>r. case r of
             Inl x \<Rightarrow> bind (Invalidate m s) (\<lambda>_. Return (Inl x))
           | Inr _ \<Rightarrow>
               CDelete (OwnerKey s) e (\<lambda>c. case c of
                   Inl ErrPrecondition \<Rightarrow> Return (Inl ErrEpochMismatch)
                 | Inl x \<Rightarrow> Return (Inl (OwnerBucket x))
                 | Inr _ \<Rightarrow> bind (Invalidate m s) (\<lambda>_. bind (forgetOwned s) (\<lambda>_. Return (Inr ()))))))"

definition release ::
  "'v wire \<Rightarrow> ('v, 'e, ('e, 'x) owner_mem_scheme) hooks \<Rightarrow> 'y OManager_scheme \<Rightarrow> Scope \<Rightarrow> u64 \<Rightarrow> bool \<Rightarrow> ('v, 'e, 'x, unit) ohandler" where
  "release W H m s epoch skip =
     bind (change (release_enter m (ScopeString s))) (\<lambda>_.
     bind (release_body W H m s epoch skip) (\<lambda>r.
     bind (change (release_leave m (ScopeString s))) (\<lambda>_. Return r)))"

definition Release ::
  "'v wire \<Rightarrow> ('v, 'e, ('e, 'x) owner_mem_scheme) hooks \<Rightarrow> 'y OManager_scheme \<Rightarrow> Scope \<Rightarrow> u64 \<Rightarrow> ('v, 'e, 'x, unit) ohandler" where
  "Release W H m s epoch = release W H m s epoch False"

definition ReleaseForPurge ::
  "'v wire \<Rightarrow> ('v, 'e, ('e, 'x) owner_mem_scheme) hooks \<Rightarrow> 'y OManager_scheme \<Rightarrow> Scope \<Rightarrow> u64 \<Rightarrow> ('v, 'e, 'x, unit) ohandler" where
  "ReleaseForPurge W H m s epoch = release W H m s epoch True"

subsection \<open>as.go: ownership on behalf of another node\<close>

definition ownerFor :: "'y OManager_scheme \<Rightarrow> u64 \<Rightarrow> time \<Rightarrow> string \<Rightarrow> string \<Rightarrow> string \<Rightarrow> int \<Rightarrow> Owner" where
  "ownerFor m epoch now node advertise role ttl =
     \<lparr>Node = node, Role = role, Session = LSessionID m, Epoch = epoch, Expiry = UnixMilli (now + ttl), Liveness = [],
      Address = advertise, AdminAddress = AdminAdvertise m, OwnerProto = ProtoVersion\<rparr>"

definition ttl_or :: "'y OManager_scheme \<Rightarrow> int \<Rightarrow> int" where
  "ttl_or m ttl = (if ttl \<le> 0 then OwnerTTL m else ttl)"

definition ClaimAs ::
  "'v wire \<Rightarrow> 'y OManager_scheme \<Rightarrow> Scope \<Rightarrow> string \<Rightarrow> string \<Rightarrow> string \<Rightarrow> int \<Rightarrow> time \<Rightarrow> ('v, 'e, 'x, Owner) ohandler" where
  "ClaimAs W m s node advertise role ttl now =
     bind (Resolve W s) (\<lambda>r. case r of
         Inl ErrUnowned \<Rightarrow>
           attempt (nextEpoch W s 0) (\<lambda>epoch.
             let o' = ownerFor m epoch now node advertise role (ttl_or m ttl) in
             Create (OwnerKey s) (MarshalOwner (marshal (wOwner W)) o') (\<lambda>c. case c of
                 Inl x \<Rightarrow> Return (Inl (OwnerBucket x))
               | Inr _ \<Rightarrow> bind (Invalidate m s) (\<lambda>_. Return (Inr o'))))
       | Inl x \<Rightarrow> Return (Inl x)
       | Inr (cur, e) \<Rightarrow>
           if Node cur \<noteq> node \<and> \<not> Expired cur now
           then bind (change (\<lambda>_ w. w\<lparr>takeoverBlocked := takeoverBlocked w + 1\<rparr>)) (\<lambda>_. Return (Inl (ErrOwnerLive cur)))
           else
             (let takeover = (Node cur \<noteq> node) in
              attempt (nextEpoch W s (Epoch cur)) (\<lambda>epoch.
                let o' = ownerFor m epoch now node advertise role (ttl_or m ttl) in
                CAS (OwnerKey s) (MarshalOwner (marshal (wOwner W)) o') e (\<lambda>c. case c of
                    Inl x \<Rightarrow> bind (change (\<lambda>_ w. if takeover then w\<lparr>takeoverFailed := takeoverFailed w + 1\<rparr> else w))
                              (\<lambda>_. Return (Inl (OwnerBucket x)))
                  | Inr _ \<Rightarrow> bind (change (\<lambda>_ w. if takeover then w\<lparr>takeoverSuccess := takeoverSuccess w + 1\<rparr> else w))
                              (\<lambda>_. bind (Invalidate m s) (\<lambda>_. Return (Inr o')))))))"

definition RenewAs ::
  "'v wire \<Rightarrow> 'y OManager_scheme \<Rightarrow> Scope \<Rightarrow> string \<Rightarrow> u64 \<Rightarrow> int \<Rightarrow> time \<Rightarrow> ('v, 'e, 'x, Owner) ohandler" where
  "RenewAs W m s node epoch ttl now =
     attempt (Resolve W s) (\<lambda>(cur, e).
       if Node cur \<noteq> node \<or> Epoch cur \<noteq> epoch then Return (Inl ErrEpochMismatch)
       else
         (let cur1 = cur\<lparr>Expiry := UnixMilli (now + ttl_or m ttl)\<rparr>;
              cur' = (if AdminAdvertise m \<noteq> [] then cur1\<lparr>AdminAddress := AdminAdvertise m\<rparr> else cur1)
          in CAS (OwnerKey s) (MarshalOwner (marshal (wOwner W)) cur') e (\<lambda>c. Return (case c of
                 Inl x \<Rightarrow> Inl (OwnerBucket x) | Inr _ \<Rightarrow> Inr cur'))))"

definition ReleaseAs ::
  "'v wire \<Rightarrow> 'y OManager_scheme \<Rightarrow> Scope \<Rightarrow> string \<Rightarrow> u64 \<Rightarrow> ('v, 'e, 'x, unit) ohandler" where
  "ReleaseAs W m s node epoch =
     attempt (Resolve W s) (\<lambda>(cur, e).
       if Node cur \<noteq> node \<or> Epoch cur \<noteq> epoch then Return (Inl ErrEpochMismatch)
       else CDelete (OwnerKey s) e (\<lambda>c. case c of
           Inl ErrPrecondition \<Rightarrow> Return (Inl ErrEpochMismatch)
         | Inl x \<Rightarrow> Return (Inl (OwnerBucket x))
         | Inr _ \<Rightarrow> bind (Invalidate m s) (\<lambda>_. Return (Inr ()))))"

definition DOScope :: "string \<Rightarrow> string \<Rightarrow> string \<Rightarrow> int \<Rightarrow> Scope" where
  "DOScope ns worker cls shard =
     \<lparr>Namespace = ns, Class = ''__do__'',
      ScopeID = worker @ ''~'' @ cls @ ''~shard'' @ (if shard < 0 then ''-'' else []) @ dec (nat \<bar>shard\<bar>)\<rparr>"

end
