(* ===== verification/Route.thy ===== *)
theory Route
  imports Owner
begin

text \<open>
  \<^verbatim>\<open>internal/owner/route.go\<close>: where requests for a cell go. A route is a cached owner record with the time it may be
  used to; one lookup per scope is in flight, the others wait for its answer. \<open>LocalReadGuard\<close> and
  \<open>ReadFence\<close> return a check the caller runs after the read; the check's captured variables are a record.
  The clock is read once in a critical section.
\<close>

subsection \<open>Routes\<close>

definition localLease :: "'y OManager_scheme \<Rightarrow> Owner \<Rightarrow> bool" where
  "localLease m o' \<longleftrightarrow>
     WithLease m \<and> Liveness o' = node_lease \<and> Node o' = LNodeID m \<and> Session o' = LSessionID m"

definition route_fresh :: "'e ownerRoute \<Rightarrow> time \<Rightarrow> bool" where
  "route_fresh c now \<longleftrightarrow> now < rtUntil c \<and> UnixMilli now < rtWall c"

datatype 'e look = Hit Owner 'e | Wait nat | Lead nat nat

text \<open>The first critical section of \<open>ResolveRoute\<close>: a usable route, a flight to wait for, or a new flight.\<close>

definition use_route ::
  "'y OManager_scheme \<Rightarrow> string \<Rightarrow> 'e ownerRoute \<Rightarrow> time \<Rightarrow> ('e, 'x) owner_mem_scheme \<Rightarrow> bool \<times> ('e, 'x) owner_mem_scheme" where
  "use_route m key c now w =
     (if \<not> route_fresh c now then (False, w)
      else if rtLocal c then
        (if localLease m (rtOwner c) then
           (case Healthy m now now w of
              (False, w1) \<Rightarrow> (False, w1)
            | (True, w1) \<Rightarrow>
                (case HealthyUntil m now w1 of (u, w2) \<Rightarrow>
                   (True, w2\<lparr>routes := AList.update key (c\<lparr>rtUntil := time_of u, rtWall := UnixMilli (time_of u)\<rparr>) (routes w2)\<rparr>)))
         else (False, w))
      else (True, w))"

definition route_enter ::
  "'y OManager_scheme \<Rightarrow> string \<Rightarrow> time \<Rightarrow> ('e, 'x) owner_mem_scheme \<Rightarrow> 'e look \<times> ('e, 'x) owner_mem_scheme" where
  "route_enter m key now w =
     (let fly = (\<lambda>w. case routeFlights w key of
            Some f \<Rightarrow> (Wait f, w)
          | None \<Rightarrow> (Lead (newFlight w) (rev_of w key),
              w\<lparr>routeFlights := (routeFlights w)(key \<mapsto> newFlight w),
                flights := (flights w)(newFlight w \<mapsto> \<lparr>flRev = rev_of w key, flAnswer = None\<rparr>),
                newFlight := newFlight w + 1\<rparr>))
      in case map_of (routes w) key of
           None \<Rightarrow> fly w
         | Some c \<Rightarrow>
             (case use_route m key c now w of
                (True, w1) \<Rightarrow> (Hit (rtOwner c) (rtTag c), w1)
              | (False, w1) \<Rightarrow> fly (w1\<lparr>routes := AList.delete key (routes w1)\<rparr>)))"

text \<open>What a lookup learns beside the record: until when the route may be used.\<close>

definition route_evidence ::
  "'v wire \<Rightarrow> bool \<Rightarrow> 'y OManager_scheme \<Rightarrow> time \<Rightarrow> time \<Rightarrow> Owner \<Rightarrow> 'e \<Rightarrow> ('v, 'e, 'x, 'e ownerRoute) ohandler" where
  "route_evidence W canceled m localUntil issued o' e =
     (let c = \<lparr>rtOwner = o', rtTag = e, rtUntil = zeroTime, rtWall = 0, rtLocal = False\<rparr> in
      if localLease m o' then Return (Inr (c\<lparr>rtLocal := True, rtUntil := localUntil, rtWall := UnixMilli localUntil\<rparr>))
      else if Liveness o' = node_lease \<and> WithLease m then
        (let good = (\<lambda>l. NLNode l = Node o' \<and> NLSession l = Session o');
             add = (\<lambda>now r. case r of
               Some l \<Rightarrow> if good l
                 then c\<lparr>rtWall := NLExpiry l, rtUntil := issued + (NLExpiry l - UnixMilli now) * 1000000\<rparr> else c
             | None \<Rightarrow> c)
         in attempt (lease_call (NodeLeaseOf (wLease W) canceled (Node o'))) (\<lambda>r.
            bind now_is (\<lambda>now.
              if (case r of None \<Rightarrow> True | Some l \<Rightarrow> \<not> good l \<or> \<not> LeaseLive l now)
              then attempt (lease_call (NodeLeaseFresh (wLease W) canceled (Node o'))) (\<lambda>r.
                     bind now_is (\<lambda>now. Return (Inr (add now r))))
              else bind now_is (\<lambda>now. Return (Inr (add now r))))))
      else Return (Inr (c\<lparr>rtUntil := issued + 1000000000, rtWall := Expiry o'\<rparr>)))"

text \<open>The last critical section: keep the route if nothing was invalidated meanwhile, answer the waiters.\<close>

definition add_route ::
  "'y OManager_scheme \<Rightarrow> string \<Rightarrow> 'e ownerRoute \<Rightarrow> time \<Rightarrow> (string \<times> 'e ownerRoute) list \<Rightarrow> (string \<times> 'e ownerRoute) list" where
  "add_route m key c now rs =
     AList.update key c
       (if length rs \<ge> maxOwnerRoutes
        then (case MapOrder m now (map fst rs) of [] \<Rightarrow> rs | victim # _ \<Rightarrow> AList.delete victim rs)
        else rs)"

definition route_finish ::
  "'y OManager_scheme \<Rightarrow> string \<Rightarrow> nat \<Rightarrow> nat \<Rightarrow> owner_error + 'e ownerRoute \<Rightarrow> (owner_error + Owner \<times> 'e) \<Rightarrow> bool \<Rightarrow> time \<Rightarrow>
   ('e, 'x) owner_mem_scheme \<Rightarrow> bool \<times> ('e, 'x) owner_mem_scheme" where
  "route_finish m key f rv route ans again now w =
     (let current = (rev_of w key = rv);
          w1 = (case route of
                  Inr c \<Rightarrow> if current \<and> route_fresh c now then w\<lparr>routes := add_route m key c now (routes w)\<rparr> else w
                | Inl _ \<Rightarrow> w)
      in (current, w1\<lparr>flights := (flights w1)(f \<mapsto> \<lparr>flRev = rv, flAnswer = Some (ans, again)\<rparr>),
                     routeFlights := (routeFlights w1)(key := None)\<rparr>))"

text \<open>One lookup by the leader of a flight; \<open>None\<close> means the loop goes round again.\<close>

definition route_lead ::
  "'v wire \<Rightarrow> bool \<Rightarrow> 'y OManager_scheme \<Rightarrow> Scope \<Rightarrow> nat \<Rightarrow> nat \<Rightarrow> ('v, 'e, 'x, (owner_error + Owner \<times> 'e) option) oprog" where
  "route_lead W canceled m s f rv =
     bind (atomically (\<lambda>t w. if WithLease m then map_prod time_of id (HealthyUntil m t w) else (zeroTime, w))) (\<lambda>localUntil.
     bind now_is (\<lambda>issued.
     bind (Resolve W s) (\<lambda>r.
     bind (case r of Inl x \<Rightarrow> Return (Inl x) | Inr (o', e) \<Rightarrow> route_evidence W canceled m localUntil issued o' e) (\<lambda>route.
     bind (case route of
             Inl _ \<Rightarrow> Return False
           | Inr c \<Rightarrow>
               if rtLocal c
               then atomically (\<lambda>now w. if \<not> now < localUntil then Healthy m now now w else (False, w))
               else Return False) (\<lambda>again.
     let ans = (case route of Inl x \<Rightarrow> Inl x | Inr c \<Rightarrow> Inr (rtOwner c, rtTag c)) in
     bind (atomically (route_finish m (ScopeString s) f rv route ans again)) (\<lambda>current.
       Return (if \<not> current \<or> again then None else Some ans)))))))"

text \<open>A waiter looks at the flight: not done yet, or done and the answer stands, or round again. A cancelled leader
  does not cancel the waiters.\<close>

definition flight_poll :: "string \<Rightarrow> nat \<Rightarrow> ('e, 'x) owner_mem_scheme \<Rightarrow> (owner_error + Owner \<times> 'e) option option" where
  "flight_poll key f w =
     (case flights w f of
        None \<Rightarrow> None
      | Some fl \<Rightarrow>
          (case flAnswer fl of
             None \<Rightarrow> None
           | Some (ans, again) \<Rightarrow>
               Some (if rev_of w key \<noteq> flRev fl \<or> again then None
                     else (case ans of Inl ErrDone \<Rightarrow> None | Inl (OwnerLease ErrCtx) \<Rightarrow> None | _ \<Rightarrow> Some ans))))"

text \<open>The loop of \<open>ResolveRoute\<close>, at its head or waiting for a flight.\<close>

primrec route_loop ::
  "nat \<Rightarrow> 'v wire \<Rightarrow> bool \<Rightarrow> 'y OManager_scheme \<Rightarrow> Scope \<Rightarrow> nat option \<Rightarrow> ('v, 'e, 'x, Owner \<times> 'e) ohandler" where
  "route_loop 0 W canceled m s mode = Return (Inl ErrDone)"
| "route_loop (Suc n) W canceled m s mode =
     (case mode of
        None \<Rightarrow>
          bind (atomically (route_enter m (ScopeString s))) (\<lambda>look. case look of
              Hit o' e \<Rightarrow> Return (Inr (o', e))
            | Wait f \<Rightarrow> route_loop n W canceled m s (Some f)
            | Lead f rv \<Rightarrow> bind (route_lead W canceled m s f rv) (\<lambda>r. case r of
                  None \<Rightarrow> route_loop n W canceled m s None
                | Some ans \<Rightarrow> Return ans))
      | Some f \<Rightarrow>
          bind (atomically (\<lambda>_ w. (flight_poll (ScopeString s) f w, w))) (\<lambda>p. case p of
              None \<Rightarrow> route_loop n W canceled m s (Some f)
            | Some None \<Rightarrow> route_loop n W canceled m s None
            | Some (Some ans) \<Rightarrow> Return ans))"

definition ResolveRoute ::
  "nat \<Rightarrow> 'v wire \<Rightarrow> bool \<Rightarrow> 'y OManager_scheme \<Rightarrow> Scope \<Rightarrow> ('v, 'e, 'x, Owner \<times> 'e) ohandler" where
  "ResolveRoute n W canceled m s = route_loop n W canceled m s None"

definition LiveRoute ::
  "'v wire \<Rightarrow> bool \<Rightarrow> 'y OManager_scheme \<Rightarrow> Scope \<Rightarrow> Owner \<Rightarrow> time \<Rightarrow> ('v, 'e, 'x, bool) ohandler" where
  "LiveRoute W canceled m s o' now =
     bind (atomically (\<lambda>_ w. (case map_of (routes w) (ScopeString s) of
         None \<Rightarrow> False
       | Some c \<Rightarrow> rtOwner c = o' \<and> route_fresh c now \<and> \<not> rtLocal c, w))) (\<lambda>valid.
       if valid \<and> Liveness o' = node_lease \<and> WithLease m then Return (Inr True)
       else Live W canceled m o' now)"

definition ResolveForwardRoute ::
  "nat \<Rightarrow> 'v wire \<Rightarrow> bool \<Rightarrow> 'y OManager_scheme \<Rightarrow> Scope \<Rightarrow> ('v, 'e, 'x, Owner \<times> 'e) ohandler" where
  "ResolveForwardRoute n W canceled m s =
     (if canceled then Return (Inl ErrDone)
      else
        bind (atomically (\<lambda>now w. (if WithLease m
            then (case map_of (routes w) (ScopeString s) of
                    None \<Rightarrow> None
                  | Some c \<Rightarrow>
                      if \<not> rtLocal c \<and> Node (rtOwner c) \<noteq> LNodeID m \<and> Liveness (rtOwner c) = node_lease
                      then (case CachedNodeLease w (Node (rtOwner c)) of
                              None \<Rightarrow> None
                            | Some l \<Rightarrow>
                                if NLNode l = Node (rtOwner c) \<and> NLSession l = Session (rtOwner c) \<and> LeaseLive l now
                                then Some (rtOwner c, rtTag c) else None)
                      else None)
            else None, w))) (\<lambda>hit. case hit of
              Some oe \<Rightarrow> Return (Inr oe)
            | None \<Rightarrow> ResolveRoute n W canceled m s))"

subsection \<open>Guards of local reads\<close>

record 'e read_guard =
  rgRoute :: "'e ownerRoute"
  rgRev :: nat
  rgEpoch :: nat

definition LocalReadGuard ::
  "'y OManager_scheme \<Rightarrow> Scope \<Rightarrow> time \<Rightarrow> ('e, 'x) owner_mem_scheme \<Rightarrow> 'e read_guard option \<times> ('e, 'x) owner_mem_scheme" where
  "LocalReadGuard m s now w =
     (let key = ScopeString s in
      case map_of (routes w) key of
        None \<Rightarrow> (None, w)
      | Some c \<Rightarrow>
          if rtLocal c \<and> localLease m (rtOwner c) \<and> releasing w key = 0 \<and> route_fresh c now
          then (case Healthy m now now w of
                  (False, w1) \<Rightarrow> (None, w1)
                | (True, w1) \<Rightarrow> (Some \<lparr>rgRoute = c, rgRev = rev_of w key, rgEpoch = cacheEpoch w\<rparr>,
                                 w1\<lparr>guards := (guards w1)(key := guards w1 key + 1)\<rparr>))
          else (None, w))"

definition releaseGuardLocked :: "string \<Rightarrow> ('e, 'x) owner_mem_scheme \<Rightarrow> ('e, 'x) owner_mem_scheme" where
  "releaseGuardLocked key w = w\<lparr>guards := (guards w)(key := guards w key - 1)\<rparr>"

text \<open>The check returned by \<open>LocalReadGuard\<close>; \<open>released\<close> tells a repeated call.\<close>

definition read_guard_check ::
  "'y OManager_scheme \<Rightarrow> Scope \<Rightarrow> 'e read_guard \<Rightarrow> bool \<Rightarrow> time \<Rightarrow> ('e, 'x) owner_mem_scheme \<Rightarrow> bool \<times> ('e, 'x) owner_mem_scheme" where
  "read_guard_check m s g released now w =
     (let key = ScopeString s; c = rgRoute g;
          ok = (cacheEpoch w = rgEpoch g \<and> map_option rtOwner (map_of (routes w) key) = Some (rtOwner c)
                \<and> rev_of w key = rgRev g \<and> releasing w key = 0 \<and> localLease m (rtOwner c) \<and> route_fresh c now);
          (valid, w1) = (if ok then Healthy m now now w else (False, w))
      in (valid, if released then w1 else releaseGuardLocked key w1))"

record read_fence =
  rfRev :: nat
  rfEpoch :: nat

definition ReadFence ::
  "Scope \<Rightarrow> time \<Rightarrow> ('e, 'x) owner_mem_scheme \<Rightarrow> read_fence option \<times> ('e, 'x) owner_mem_scheme" where
  "ReadFence s now w =
     (let key = ScopeString s in
      if releasing w key > 0 then (None, w)
      else (Some \<lparr>rfRev = rev_of w key, rfEpoch = cacheEpoch w\<rparr>, w\<lparr>guards := (guards w)(key := guards w key + 1)\<rparr>))"

definition read_fence_check ::
  "Scope \<Rightarrow> read_fence \<Rightarrow> bool \<Rightarrow> time \<Rightarrow> ('e, 'x) owner_mem_scheme \<Rightarrow> bool \<times> ('e, 'x) owner_mem_scheme" where
  "read_fence_check s f released now w =
     (let key = ScopeString s in
      (cacheEpoch w = rfEpoch f \<and> releasing w key = 0 \<and> rev_of w key = rfRev f,
       if released then w else releaseGuardLocked key w))"

end
