(* ===== verification/HandlerLogic.thy ===== *)
theory HandlerLogic
  imports Bucket
begin

text \<open>
  A logic for handlers that run interleaved. A \<open>logic\<close> gives every thread a ghost value: which requests a
  thread with that value may send, how an answer changes the value, and which critical sections it may
  execute. \<open>wp L etag p Q g\<close> says that the handler \<open>p\<close>, started with ghost value \<open>g\<close>, obeys the logic whatever the
  bucket answers and whatever the other threads do to the memory, and ends in \<open>Q\<close>. A protocol proof
  shows \<open>wp\<close> for each handler and that the invariant survives what the logic allows.
\<close>

datatype ('v, 'e) request =
    RGet string | RCreate string 'v | RCAS string 'v 'e | RCDelete string 'e | RPut string 'v | RDelete string

datatype 'v outcome = Failed bucket_error | Done | Body 'v

record ('v, 'e, 'w, 'g) logic =
  may :: "'g \<Rightarrow> ('v, 'e) request \<Rightarrow> bool"
  post :: "'g \<Rightarrow> ('v, 'e) request \<Rightarrow> 'v outcome \<Rightarrow> 'g"
  section_ok :: "'g \<Rightarrow> time \<Rightarrow> 'w \<Rightarrow> 'w \<Rightarrow> 'g \<Rightarrow> bool"

primrec wp ::
  "('v, 'e, 'w, 'g) logic \<Rightarrow> ('v \<Rightarrow> 'e) \<Rightarrow> ('v, 'e, 'w, 'r) prog \<Rightarrow> ('r \<Rightarrow> 'g \<Rightarrow> bool) \<Rightarrow> 'g \<Rightarrow> bool" where
  "wp L etag (Return r) Q g = Q r g"
| "wp L etag (Get k c) Q g =
     (may L g (RGet k)
      \<and> (\<forall>err. wp L etag (c (Inl err)) Q (post L g (RGet k) (Failed err)))
      \<and> (\<forall>v. wp L etag (c (Inr (v, etag v))) Q (post L g (RGet k) (Body v))))"
| "wp L etag (Create k v c) Q g =
     (may L g (RCreate k v)
      \<and> (\<forall>err. wp L etag (c (Inl err)) Q (post L g (RCreate k v) (Failed err)))
      \<and> wp L etag (c (Inr (etag v))) Q (post L g (RCreate k v) Done))"
| "wp L etag (CAS k v e c) Q g =
     (may L g (RCAS k v e)
      \<and> (\<forall>err. wp L etag (c (Inl err)) Q (post L g (RCAS k v e) (Failed err)))
      \<and> wp L etag (c (Inr (etag v))) Q (post L g (RCAS k v e) Done))"
| "wp L etag (CDelete k e c) Q g =
     (may L g (RCDelete k e)
      \<and> (\<forall>err. wp L etag (c (Inl err)) Q (post L g (RCDelete k e) (Failed err)))
      \<and> wp L etag (c (Inr ())) Q (post L g (RCDelete k e) Done))"
| "wp L etag (Put k v c) Q g =
     (may L g (RPut k v)
      \<and> (\<forall>err. wp L etag (c (Inl err)) Q (post L g (RPut k v) (Failed err)))
      \<and> wp L etag (c (Inr (etag v))) Q (post L g (RPut k v) Done))"
| "wp L etag (Delete k c) Q g =
     (may L g (RDelete k)
      \<and> (\<forall>err. wp L etag (c (Inl err)) Q (post L g (RDelete k) (Failed err)))
      \<and> wp L etag (c (Inr ())) Q (post L g (RDelete k) Done))"
| "wp L etag (ListKeys p c) Q g = (\<forall>x. wp L etag (c x) Q g)"
| "wp L etag (Local u c) Q g = (\<forall>t w. \<exists>g'. section_ok L g t w (u t w) g' \<and> wp L etag (c t w) Q g')"

lemma wp_mono: "wp L etag p Q g \<Longrightarrow> (\<And>r g. Q r g \<Longrightarrow> Q' r g) \<Longrightarrow> wp L etag p Q' g"
proof (induction p arbitrary: g)
  case (Local u c)
  then show ?case by (simp, meson rangeI)
qed auto

lemma wp_Return [simp]: "wp L etag (Return r) Q = Q r"
  by (rule ext) simp

lemma wp_bind: "wp L etag (bind p f) Q g = wp L etag p (\<lambda>r. wp L etag (f r) Q) g"
proof (induction p arbitrary: g)
  case (Local u c)
  then show ?case by (simp add: Local.IH [OF rangeI rangeI])
qed simp_all

lemma wp_forget [simp]: "wp L etag (forget p) (\<lambda>_ _. True) g = wp L etag p (\<lambda>_ _. True) g"
  by (simp add: forget_def wp_bind)

lemma wp_attempt:
  "wp L etag (attempt p f) Q g =
     wp L etag p (\<lambda>r g. case r of Inl e \<Rightarrow> Q (Inl e) g | Inr x \<Rightarrow> wp L etag (f x) Q g) g"
proof -
  have "wp L etag (case r of Inl e \<Rightarrow> Return (Inl e) | Inr x \<Rightarrow> f x) Q =
      (\<lambda>g. case r of Inl e \<Rightarrow> Q (Inl e) g | Inr x \<Rightarrow> wp L etag (f x) Q g)" for r
    by (cases r) simp_all
  then show ?thesis by (simp add: attempt_def wp_bind)
qed

lemma wp_atomically:
  "wp L etag (atomically f) Q g = (\<forall>t w. \<exists>g'. section_ok L g t w (snd (f t w)) g' \<and> Q (fst (f t w)) g')"
  by (simp add: atomically_def)

lemma wp_change:
  "wp L etag (change f) Q g = (\<forall>t w. \<exists>g'. section_ok L g t w (f t w) g' \<and> Q () g')"
  by (simp add: change_def wp_atomically)

lemma wp_now_is:
  "wp L etag now_is Q g = (\<forall>t w. \<exists>g'. section_ok L g t w w g' \<and> Q t g')"
  by (simp add: now_is_def wp_atomically)

subsection \<open>What a request does\<close>

definition effect :: "('v \<Rightarrow> 'e) \<Rightarrow> 'v objects \<Rightarrow> ('v, 'e) request \<Rightarrow> 'v outcome \<Rightarrow> 'v objects \<Rightarrow> bool" where
  "effect etag B rq out B' \<longleftrightarrow>
     (case rq of
        RGet k \<Rightarrow> B' = B \<and> (case out of Body v \<Rightarrow> B k = Some v | Failed err \<Rightarrow> err = ErrNotFound \<longrightarrow> B k = None | Done \<Rightarrow> False)
      | RCreate k v \<Rightarrow> B' = B \<and> out \<noteq> Done \<or> B k = None \<and> B' = B(k \<mapsto> v)
      | RCAS k v e \<Rightarrow> B' = B \<and> out \<noteq> Done \<or> (\<exists>u. B k = Some u \<and> etag u = e) \<and> B' = B(k \<mapsto> v)
      | RCDelete k e \<Rightarrow> B' = B \<and> out \<noteq> Done \<or> (\<exists>u. B k = Some u \<and> etag u = e) \<and> B' = B(k := None)
      | RPut k v \<Rightarrow> B' = B \<and> out \<noteq> Done \<or> B' = B(k \<mapsto> v)
      | RDelete k \<Rightarrow> B' = B \<and> out \<noteq> Done \<or> B' = B(k := None))"

lemma wp_call:
  assumes "bucket_call etag B p B' p'" "wp L etag p Q g"
  shows "B' = B \<and> wp L etag p' Q g
    \<or> (\<exists>rq out. may L g rq \<and> effect etag B rq out B' \<and> wp L etag p' Q (post L g rq out))"
  using assms
proof (cases rule: bucket_call.cases)
  case (get k c)
  with assms(2) show ?thesis
    by (intro disjI2 exI [of _ "RGet k"] exI [of _ "case B k of None \<Rightarrow> Failed ErrNotFound | Some v \<Rightarrow> Body v"])
       (auto simp: effect_def bucket_get_def split: option.splits)
next
  case (get_fails err k c)
  with assms(2) show ?thesis by (intro disjI2 exI [of _ "RGet k"] exI [of _ "Failed err"]) (auto simp: effect_def)
next
  case (create k v x c)
  with assms(2) show ?thesis
    by (intro disjI2 exI [of _ "RCreate k v"] exI [of _ "case x of Inl err \<Rightarrow> Failed err | Inr _ \<Rightarrow> Done"])
       (auto simp: effect_def bucket_create_def split: option.splits)
next
  case (create_fails k v c err)
  with assms(2) show ?thesis by (intro disjI2 exI [of _ "RCreate k v"] exI [of _ "Failed err"]) (auto simp: effect_def)
next
  case (create_lost k v x c err)
  with assms(2) show ?thesis
    by (intro disjI2 exI [of _ "RCreate k v"] exI [of _ "Failed err"]) (auto simp: effect_def bucket_create_def split: option.splits)
next
  case (cas k v e x c)
  with assms(2) show ?thesis
    by (intro disjI2 exI [of _ "RCAS k v e"] exI [of _ "case x of Inl err \<Rightarrow> Failed err | Inr _ \<Rightarrow> Done"])
       (auto simp: effect_def bucket_cas_def split: option.splits if_splits)
next
  case (cas_fails k v e c err)
  with assms(2) show ?thesis by (intro disjI2 exI [of _ "RCAS k v e"] exI [of _ "Failed err"]) (auto simp: effect_def)
next
  case (cas_lost k v e x c err)
  with assms(2) show ?thesis
    by (intro disjI2 exI [of _ "RCAS k v e"] exI [of _ "Failed err"]) (auto simp: effect_def bucket_cas_def split: option.splits if_splits)
next
  case (cdelete k e x c)
  with assms(2) show ?thesis
    by (intro disjI2 exI [of _ "RCDelete k e"] exI [of _ "case x of Inl err \<Rightarrow> Failed err | Inr _ \<Rightarrow> Done"])
       (auto simp: effect_def bucket_cdelete_def split: option.splits if_splits)
next
  case (cdelete_fails k e c err)
  with assms(2) show ?thesis by (intro disjI2 exI [of _ "RCDelete k e"] exI [of _ "Failed err"]) (auto simp: effect_def)
next
  case (cdelete_lost k e x c err)
  with assms(2) show ?thesis
    by (intro disjI2 exI [of _ "RCDelete k e"] exI [of _ "Failed err"])
       (auto simp: effect_def bucket_cdelete_def split: option.splits if_splits)
next
  case (put k v c)
  with assms(2) show ?thesis by (intro disjI2 exI [of _ "RPut k v"] exI [of _ Done]) (auto simp: effect_def)
next
  case (put_fails k v c err)
  with assms(2) show ?thesis by (intro disjI2 exI [of _ "RPut k v"] exI [of _ "Failed err"]) (auto simp: effect_def)
next
  case (put_lost k v c err)
  with assms(2) show ?thesis by (intro disjI2 exI [of _ "RPut k v"] exI [of _ "Failed err"]) (auto simp: effect_def)
next
  case (delete k c)
  with assms(2) show ?thesis by (intro disjI2 exI [of _ "RDelete k"] exI [of _ Done]) (auto simp: effect_def)
next
  case (delete_fails k c err)
  with assms(2) show ?thesis by (intro disjI2 exI [of _ "RDelete k"] exI [of _ "Failed err"]) (auto simp: effect_def)
next
  case (delete_lost k c err)
  with assms(2) show ?thesis by (intro disjI2 exI [of _ "RDelete k"] exI [of _ "Failed err"]) (auto simp: effect_def)
qed auto

text \<open>The request leaves every object but its own alone.\<close>

fun key_of :: "('v, 'e) request \<Rightarrow> string" where
  "key_of (RGet k) = k"
| "key_of (RCreate k v) = k"
| "key_of (RCAS k v e) = k"
| "key_of (RCDelete k e) = k"
| "key_of (RPut k v) = k"
| "key_of (RDelete k) = k"

lemma effect_other: "effect etag B rq out B' \<Longrightarrow> k \<noteq> key_of rq \<Longrightarrow> B' k = B k"
  by (cases rq) (auto simp: effect_def)

end
