(* ===== verification/OwnerFleet.thy ===== *)
theory OwnerFleet
  imports Route HandlerLogic LeaseFleet
begin

text \<open>
  The processes of a fleet: each runs its lease manager and its owner manager over one bucket. \<open>owner_starts\<close>
  lists what a process may begin, with the conditions the program establishes before it does: a
  session claims cells only after its first lease was published, the time a caller passes in has been
  read from the clock, claims on behalf of other nodes are for Durable Object shards, and a session id is
  never used twice.
\<close>

subsection \<open>Handlers without a hand in ownership\<close>

definition protocol_key :: "string \<Rightarrow> bool" where
  "protocol_key k \<longleftrightarrow> HasPrefix k ''cells/'' \<and> (HasSuffix k ''/owner.json'' \<or> HasSuffix k ''/owner-gen'')"

text \<open>A change of the memory that gives no route, ends no flight and moves no release counter, and that keeps
  the revision of a scope with a lookup in flight from going back.\<close>

definition mem_quiet :: "('e, 'x) owner_mem_scheme \<Rightarrow> ('e, 'x) owner_mem_scheme \<Rightarrow> bool" where
  "mem_quiet w w' \<longleftrightarrow>
     routeFlights w' = routeFlights w \<and> releasing w' = releasing w
     \<and> (\<forall>key c'. map_of (routes w') key = Some c' \<longrightarrow>
          (\<exists>c. map_of (routes w) key = Some c \<and> rtOwner c' = rtOwner c \<and> rtLocal c' = rtLocal c))
     \<and> (\<forall>key. routeFlights w key \<noteq> None \<longrightarrow> rev_of w key \<le> rev_of w' key)"

primrec quiet :: "('v, 'e, ('e, 'x) owner_mem_scheme, 'r) prog \<Rightarrow> bool" where
  "quiet (Return r) = True"
| "quiet (Get k c) = (\<forall>x. quiet (c x))"
| "quiet (Create k v c) = (\<not> protocol_key k \<and> (\<forall>x. quiet (c x)))"
| "quiet (CAS k v e c) = (\<not> protocol_key k \<and> (\<forall>x. quiet (c x)))"
| "quiet (CDelete k e c) = (\<not> protocol_key k \<and> (\<forall>x. quiet (c x)))"
| "quiet (Put k v c) = (\<not> protocol_key k \<and> (\<forall>x. quiet (c x)))"
| "quiet (Delete k c) = (\<not> protocol_key k \<and> (\<forall>x. quiet (c x)))"
| "quiet (ListKeys p c) = (\<forall>x. quiet (c x))"
| "quiet (Local u c) = (\<forall>t w. mem_quiet w (u t w) \<and> quiet (c t w))"

lemma quiet_bind: "quiet p \<Longrightarrow> (\<And>r. quiet (f r)) \<Longrightarrow> quiet (bind p f)"
  by (induction p) auto

lemma mem_quiet_refl [simp]: "mem_quiet w w"
  by (simp add: mem_quiet_def)

lemma mem_quiet_trans:
  assumes a: "mem_quiet w w'" and b: "mem_quiet w' w''"
  shows "mem_quiet w w''"
  unfolding mem_quiet_def
proof (intro conjI allI impI)
  fix key c assume "map_of (routes w'') key = Some c"
  then obtain c1 where c1: "map_of (routes w') key = Some c1" "rtOwner c = rtOwner c1" "rtLocal c = rtLocal c1"
    using b unfolding mem_quiet_def by blast
  then obtain c0 where "map_of (routes w) key = Some c0" "rtOwner c1 = rtOwner c0" "rtLocal c1 = rtLocal c0"
    using a unfolding mem_quiet_def by blast
  with c1 show "\<exists>c0. map_of (routes w) key = Some c0 \<and> rtOwner c = rtOwner c0 \<and> rtLocal c = rtLocal c0" by auto
next
  fix key assume k: "routeFlights w key \<noteq> None"
  then have "rev_of w key \<le> rev_of w' key" using a unfolding mem_quiet_def by blast
  also have "\<dots> \<le> rev_of w'' key" using a b k unfolding mem_quiet_def by simp
  finally show "rev_of w key \<le> rev_of w'' key" .
qed (use a b in \<open>simp_all add: mem_quiet_def\<close>)

text \<open>Only the four fields matter.\<close>

lemma mem_quietI:
  "routeFlights w' = routeFlights w \<Longrightarrow> releasing w' = releasing w \<Longrightarrow> routes w' = routes w \<Longrightarrow> cacheRev w' = cacheRev w \<Longrightarrow>
   mem_quiet w w'"
  by (simp add: mem_quiet_def rev_of_def)

definition quiet_hooks :: "('v, 'e, ('e, 'x) owner_mem_scheme) hooks \<Rightarrow> bool" where
  "quiet_hooks H \<longleftrightarrow>
     (\<forall>f o'. BeforeTakeover H = Some f \<longrightarrow> quiet (f o') \<and> neutral (f o'))
     \<and> (\<forall>f s. Reset H = Some f \<longrightarrow> quiet (f s) \<and> neutral (f s))
     \<and> (\<forall>f s e. BeforeRelease H = Some f \<longrightarrow> quiet (f s e) \<and> neutral (f s e))
     \<and> (\<forall>f k. Touch H = Some f \<longrightarrow> quiet (f k) \<and> neutral (f k))"

subsection \<open>What a process begins\<close>

definition ident :: "'y LManager_scheme \<Rightarrow> string \<times> string" where
  "ident m = (LNodeID m, LSessionID m)"

inductive owner_starts ::
  "'v wire \<Rightarrow> ('v, 'e, 'e owner_mem, unit, OManager) starter" for W where
  boot: "(\<And>n. life S n = Up \<Longrightarrow> \<not> twins m n) \<Longrightarrow> (\<And>n. life S n \<noteq> Unborn \<Longrightarrow> ident m \<noteq> ident n) \<Longrightarrow> WithLease m \<Longrightarrow>
    owner_starts W S m Boot"
| publish: "owner_starts W S m (Run 0 (forget (Publish (wLease W) canceled m load)))"
| health: "owner_starts W S m (Run (Suc i) (Local (\<lambda>clk w. snd (Healthy m now clk w)) (\<lambda>_ _. Return ())))"
| refreshing: "owner_starts W S m (Run (Suc i) (forget (refresh (wLease W) canceled m)))"
| known: "owner_starts W S m (Run (Suc i) (forget (RunKnownRefresh n late (wLease W) m)))"
| live: "owner_starts W S m (Run (Suc i) (forget (Live W canceled m o' now)))"
| claim: "Validate s = Inr () \<Longrightarrow> publishedExpiry (memory S m) \<noteq> None \<Longrightarrow> now \<le> clock S \<Longrightarrow> quiet_hooks H \<Longrightarrow>
    owner_starts W S m (Run (Suc i) (forget (ClaimWithReset n W canceled H m s now)))"
| renew: "Validate s = Inr () \<Longrightarrow> quiet_hooks H \<Longrightarrow>
    owner_starts W S m (Run (Suc i) (forget (Renew W H m s epoch now)))"
| release: "Validate s = Inr () \<Longrightarrow> quiet_hooks H \<Longrightarrow>
    owner_starts W S m (Run (Suc i) (forget (release W H m s epoch skip)))"
| claim_as: "owner_starts W S m
    (Run (Suc i) (forget (ClaimAs W m (DOScope ns worker cls shard) node advertise role ttl now)))"
| renew_as: "owner_starts W S m
    (Run (Suc i) (forget (RenewAs W m (DOScope ns worker cls shard) node epoch ttl now)))"
| release_as: "owner_starts W S m
    (Run (Suc i) (forget (ReleaseAs W m (DOScope ns worker cls shard) node epoch)))"
| resolve: "owner_starts W S m (Run (Suc i) (forget (ResolveCached W m s ttl)))"
| route: "owner_starts W S m (Run (Suc i) (forget (ResolveRoute n W canceled m s)))"
| forward: "owner_starts W S m (Run (Suc i) (forget (ResolveForwardRoute n W canceled m s)))"
| live_route: "owner_starts W S m (Run (Suc i) (forget (LiveRoute W canceled m s o' now)))"
| invalidate: "owner_starts W S m (Run (Suc i) (Invalidate m s))"
| evict: "owner_starts W S m (Run (Suc i) (Forget s epoch))"
| guard: "owner_starts W S m (Run (Suc i) (forget (atomically (LocalReadGuard m s))))"
| guard_check: "owner_starts W S m (Run (Suc i) (forget (atomically (read_guard_check m s g released))))"
| fence: "owner_starts W S m (Run (Suc i) (forget (atomically (ReadFence s))))"
| fence_check: "owner_starts W S m (Run (Suc i) (forget (atomically (read_fence_check s f released))))"

subsection \<open>They keep off the lease\<close>

lemma trim_lease [simp]:
  "publishedExpiry (trimCachesLocked m t w) = publishedExpiry w"
  "publishedETag (trimCachesLocked m t w) = publishedETag w"
  "fenced (trimCachesLocked m t w) = fenced w"
proof -
  have i: "publishedExpiry (drop_idle t ks w) = publishedExpiry w \<and> publishedETag (drop_idle t ks w) = publishedETag w
      \<and> fenced (drop_idle t ks w) = fenced w" for t ks and w :: "('a, 'b) owner_mem_scheme"
    by (induction t ks w rule: drop_idle.induct) (simp_all add: dropRevLocked_def)
  have e: "publishedExpiry (drop_excess ks w) = publishedExpiry w \<and> publishedETag (drop_excess ks w) = publishedETag w
      \<and> fenced (drop_excess ks w) = fenced w" for ks and w :: "('a, 'b) owner_mem_scheme"
    by (induction ks w rule: drop_excess.induct) (simp_all add: dropRevLocked_def)
  show "publishedExpiry (trimCachesLocked m t w) = publishedExpiry w"
    "publishedETag (trimCachesLocked m t w) = publishedETag w" "fenced (trimCachesLocked m t w) = fenced w"
    by (simp_all add: trimCachesLocked_def Let_def i e)
qed

lemma invalidate_lease [simp]:
  "publishedExpiry (invalidateLocked m key t w) = publishedExpiry w"
  "publishedETag (invalidateLocked m key t w) = publishedETag w"
  "fenced (invalidateLocked m key t w) = fenced w"
  by (simp_all add: invalidateLocked_def)

lemma neutral_atomically [simp]:
  "neutral (atomically f) \<longleftrightarrow>
     (\<forall>t w. publishedExpiry (snd (f t w)) = publishedExpiry w \<and> publishedETag (snd (f t w)) = publishedETag w
        \<and> (fenced w \<longrightarrow> fenced (snd (f t w))))"
  by (simp add: atomically_def)

lemma neutral_change [simp]:
  "neutral (change f) \<longleftrightarrow>
     (\<forall>t w. publishedExpiry (f t w) = publishedExpiry w \<and> publishedETag (f t w) = publishedETag w
        \<and> (fenced w \<longrightarrow> fenced (f t w)))"
  by (simp add: change_def)

lemma neutral_now_is [simp]: "neutral now_is"
  by (simp add: now_is_def)

lemma neutral_attempt: "neutral p \<Longrightarrow> (\<And>x. neutral (f x)) \<Longrightarrow> neutral (attempt p f)"
  by (auto simp: attempt_def intro!: neutral_bind split: sum.split)

lemma not_lease_keys [simp]: "\<not> HasPrefix (OwnerKey s) ''nodes/''" "\<not> HasPrefix (genKey s) ''nodes/''"
  by (simp_all add: OwnerKey_def genKey_def ScopeKey_def)

lemma neutral_leaves [simp]:
  "neutral (Invalidate m s)" "neutral (Resolve W s)" "neutral (Forget s epoch)" "neutral (rememberOwned s epoch)"
  "neutral (forgetOwned s)" "neutral (unlockClaim key)"
  by (auto simp: Invalidate_def Resolve_def Forget_def rememberOwned_def forgetOwned_def unlockClaim_def
      intro!: neutral_bind split: option.splits)

lemma neutral_lease_call [simp]: "neutral p \<Longrightarrow> neutral (lease_call p)"
  by (auto simp: lease_call_def intro!: neutral_bind)

lemma neutral_Live [simp]: "neutral (Live W canceled m o' now)"
  by (auto simp: Live_def intro!: neutral_attempt split: prod.split)

lemma neutral_hook [simp]: "(\<And>p. h = Some p \<Longrightarrow> neutral p) \<Longrightarrow> neutral (hook h)"
  by (auto simp: hook_def intro!: neutral_bind split: option.split)

lemma neutral_bump [simp]: "neutral (bump n W s floor)"
  by (induction n) (auto simp: Let_def intro!: neutral_bind split: sum.split bucket_error.split option.split)

lemma neutral_lockClaim [simp]: "neutral (lockClaim n key)"
  by (induction n) (auto intro!: neutral_bind)

lemma neutral_touch [simp]:
  "(\<And>f k. toucher = Some f \<Longrightarrow> neutral (f k)) \<Longrightarrow> neutral (touchOwnerSegment toucher s now)"
  by (auto simp: touchOwnerSegment_def Let_def intro!: neutral_bind split: option.split)

lemma neutral_claimed [simp]: "neutral (claimed m s o')"
  by (simp add: claimed_def neutral_bind)

lemma quiet_hooksD:
  assumes "quiet_hooks H"
  shows "BeforeTakeover H = Some f \<Longrightarrow> quiet (f o') \<and> neutral (f o')" "Reset H = Some f' \<Longrightarrow> quiet (f' s) \<and> neutral (f' s)"
    "BeforeRelease H = Some f'' \<Longrightarrow> quiet (f'' s e) \<and> neutral (f'' s e)" "Touch H = Some f3 \<Longrightarrow> quiet (f3 k) \<and> neutral (f3 k)"
  using assms unfolding quiet_hooks_def by blast+

lemma neutral_claim [simp]:
  assumes "quiet_hooks H"
  shows "neutral (ClaimWithReset n W canceled H m s now)"
proof -
  note h = quiet_hooksD [OF assms]
  have "neutral (claim_unowned W H m s now)"
    using h by (auto simp: claim_unowned_def nextEpoch_def Let_def intro!: neutral_attempt neutral_hook split: sum.split)
  moreover have "neutral (claim_takeover W H m s now cur e)" for cur e
    using h by (auto simp: claim_takeover_def nextEpoch_def Let_def intro!: neutral_bind neutral_attempt neutral_hook split: sum.split)
  ultimately show ?thesis
    using h by (auto simp: ClaimWithReset_def claim_body_def liveFresh_def
        intro!: neutral_bind neutral_attempt neutral_touch split: sum.split owner_error.split)
qed

lemma neutral_renew [simp]: "quiet_hooks H \<Longrightarrow> neutral (Renew W H m s epoch now)"
  by (auto simp: Renew_def Let_def dest: quiet_hooksD intro!: neutral_bind neutral_attempt neutral_touch split: sum.split)

lemma neutral_release [simp]: "quiet_hooks H \<Longrightarrow> neutral (release W H m s epoch skip)"
  by (auto simp: release_def release_body_def release_enter_def release_leave_def quiet_hooksD(3)
      intro!: neutral_bind neutral_attempt neutral_hook split: sum.split bucket_error.split if_splits)

lemma neutral_as [simp]:
  "neutral (ClaimAs W m s node advertise role ttl now)" "neutral (RenewAs W m s node epoch ttl now)"
  "neutral (ReleaseAs W m s node epoch)"
  by (auto simp: ClaimAs_def RenewAs_def ReleaseAs_def nextEpoch_def Let_def intro!: neutral_bind neutral_attempt
      split: sum.split owner_error.split bucket_error.split)

lemma HealthyUntil_lease [simp]:
  "publishedExpiry (snd (HealthyUntil m t w)) = publishedExpiry w" "publishedETag (snd (HealthyUntil m t w)) = publishedETag w"
  "fenced w \<Longrightarrow> fenced (snd (HealthyUntil m t w))"
  by (simp_all add: HealthyUntil_def Let_def)

lemma neutral_resolve_cached [simp]: "neutral (ResolveCached W m s ttl)"
  by (auto simp: ResolveCached_def finishResolveLocked_def Let_def intro!: neutral_bind split: option.split sum.split)

text \<open>The health checks change nothing but the fence.\<close>

lemma Healthy_mem: "\<exists>b. snd (Healthy m now clk w) = w\<lparr>fenced := fenced w \<or> b\<rparr>"
proof -
  have "snd (Healthy m now clk w) = w \<or> snd (Healthy m now clk w) = w\<lparr>fenced := True\<rparr>"
    by (auto simp: Healthy_def HealthyUntil_def expiredLocked_def Let_def split: option.splits)
  then show ?thesis by (elim disjE) (rule exI [of _ False], simp, rule exI [of _ True], simp)
qed

lemma HealthyUntil_mem: "\<exists>b. snd (HealthyUntil m clk w) = w\<lparr>fenced := fenced w \<or> b\<rparr>"
proof -
  have "snd (HealthyUntil m clk w) = w \<or> snd (HealthyUntil m clk w) = w\<lparr>fenced := True\<rparr>"
    by (auto simp: HealthyUntil_def expiredLocked_def Let_def)
  then show ?thesis by (elim disjE) (rule exI [of _ False], simp, rule exI [of _ True], simp)
qed

lemma use_route_mem:
  "(\<exists>b. snd (use_route m key c t w) = w\<lparr>fenced := fenced w \<or> b\<rparr>)
   \<or> rtLocal c \<and> (\<exists>b u x. snd (use_route m key c t w) =
       w\<lparr>fenced := fenced w \<or> b, routes := AList.update key (c\<lparr>rtUntil := u, rtWall := x\<rparr>) (routes w)\<rparr>)"
proof -
  obtain b w1 where h: "Healthy m t t w = (b, w1)" by fastforce
  obtain u w2 where hu: "HealthyUntil m t w1 = (u, w2)" by fastforce
  obtain b1 where w1: "w1 = w\<lparr>fenced := fenced w \<or> b1\<rparr>"
    using Healthy_mem [where m = m and now = t and clk = t and w = w] h by auto
  obtain b3 where "w2 = w1\<lparr>fenced := fenced w1 \<or> b3\<rparr>"
    using HealthyUntil_mem [where m = m and clk = t and w = w1] hu by auto
  then have w2: "w2 = w\<lparr>fenced := fenced w \<or> (b1 \<or> b3)\<rparr>" using w1 by (simp add: disj_assoc)
  show ?thesis
  proof (cases "route_fresh c t \<and> rtLocal c \<and> localLease m (rtOwner c) \<and> b")
    case True
    then have "snd (use_route m key c t w) =
        w\<lparr>fenced := fenced w \<or> (b1 \<or> b3), routes := AList.update key (c\<lparr>rtUntil := time_of u, rtWall := UnixMilli (time_of u)\<rparr>) (routes w)\<rparr>"
      by (simp add: use_route_def h hu w2)
    with True show ?thesis by blast
  next
    case False
    then have "snd (use_route m key c t w) = w \<or> snd (use_route m key c t w) = w1"
      by (auto simp: use_route_def h split: bool.split)
    then have "snd (use_route m key c t w) = w\<lparr>fenced := fenced w \<or> False\<rparr>
        \<or> snd (use_route m key c t w) = w\<lparr>fenced := fenced w \<or> b1\<rparr>" using w1 by simp
    then show ?thesis by blast
  qed
qed

lemma use_route_lease [simp]:
  "publishedExpiry (snd (use_route m key c t w)) = publishedExpiry w" "publishedETag (snd (use_route m key c t w)) = publishedETag w"
  "fenced w \<Longrightarrow> fenced (snd (use_route m key c t w))"
  using use_route_mem [where m = m and key = key and c = c and t = t and w = w] by auto

lemma route_enter_lease [simp]:
  "publishedExpiry (snd (route_enter m key t w)) = publishedExpiry w" "publishedETag (snd (route_enter m key t w)) = publishedETag w"
  "fenced w \<Longrightarrow> fenced (snd (route_enter m key t w))"
proof -
  have "publishedExpiry (snd (route_enter m key t w)) = publishedExpiry w
    \<and> publishedETag (snd (route_enter m key t w)) = publishedETag w \<and> (fenced w \<longrightarrow> fenced (snd (route_enter m key t w)))"
  proof (cases "map_of (routes w) key")
    case (Some c)
    with use_route_lease [where m = m and key = key and c = c and t = t and w = w] show ?thesis
      by (cases "use_route m key c t w") (auto simp: route_enter_def Let_def split: option.split bool.split)
  qed (auto simp: route_enter_def Let_def split: option.split)
  then show "publishedExpiry (snd (route_enter m key t w)) = publishedExpiry w"
    "publishedETag (snd (route_enter m key t w)) = publishedETag w"
    "fenced w \<Longrightarrow> fenced (snd (route_enter m key t w))" by auto
qed

lemma route_finish_lease [simp]:
  "publishedExpiry (snd (route_finish m key f rv route ans again t w)) = publishedExpiry w"
  "publishedETag (snd (route_finish m key f rv route ans again t w)) = publishedETag w"
  "fenced (snd (route_finish m key f rv route ans again t w)) = fenced w"
  by (simp_all add: route_finish_def Let_def split: sum.split)

lemma neutral_route_lead [simp]: "neutral (route_lead W canceled m s f rv)"
  by (auto simp: route_lead_def route_evidence_def Let_def intro!: neutral_bind neutral_attempt split: sum.split option.split)

lemma neutral_route_loop [simp]: "neutral (route_loop n W canceled m s mode)"
  by (induction n arbitrary: mode) (auto intro!: neutral_bind split: option.split look.split)

lemma guard_lease [simp]:
  "publishedExpiry (snd (LocalReadGuard m s t w)) = publishedExpiry w" "publishedETag (snd (LocalReadGuard m s t w)) = publishedETag w"
  "fenced w \<Longrightarrow> fenced (snd (LocalReadGuard m s t w))"
proof -
  note h = Healthy_published [where m = m and now = t and clk = t and w = w]
  have "publishedExpiry (snd (LocalReadGuard m s t w)) = publishedExpiry w
    \<and> publishedETag (snd (LocalReadGuard m s t w)) = publishedETag w \<and> (fenced w \<longrightarrow> fenced (snd (LocalReadGuard m s t w)))"
    using h by (cases "Healthy m t t w") (auto simp: LocalReadGuard_def Let_def split: option.split bool.split)
  then show "publishedExpiry (snd (LocalReadGuard m s t w)) = publishedExpiry w"
    "publishedETag (snd (LocalReadGuard m s t w)) = publishedETag w"
    "fenced w \<Longrightarrow> fenced (snd (LocalReadGuard m s t w))" by auto
qed

lemma guard_check_lease [simp]:
  "publishedExpiry (snd (read_guard_check m s g b t w)) = publishedExpiry w"
  "publishedETag (snd (read_guard_check m s g b t w)) = publishedETag w"
  "fenced w \<Longrightarrow> fenced (snd (read_guard_check m s g b t w))"
proof -
  note h = Healthy_published [where m = m and now = t and clk = t and w = w]
  have "publishedExpiry (snd (read_guard_check m s g b t w)) = publishedExpiry w
    \<and> publishedETag (snd (read_guard_check m s g b t w)) = publishedETag w
    \<and> (fenced w \<longrightarrow> fenced (snd (read_guard_check m s g b t w)))"
    using h by (cases "Healthy m t t w") (auto simp: read_guard_check_def releaseGuardLocked_def Let_def)
  then show "publishedExpiry (snd (read_guard_check m s g b t w)) = publishedExpiry w"
    "publishedETag (snd (read_guard_check m s g b t w)) = publishedETag w"
    "fenced w \<Longrightarrow> fenced (snd (read_guard_check m s g b t w))" by auto
qed

lemma neutral_routes [simp]:
  "neutral (ResolveRoute n W canceled m s)" "neutral (ResolveForwardRoute n W canceled m s)"
  "neutral (LiveRoute W canceled m s o' now)" "neutral (atomically (LocalReadGuard m s))"
  "neutral (atomically (read_guard_check m s g b))" "neutral (atomically (ReadFence s))"
  "neutral (atomically (read_fence_check s f b))"
  by (auto simp: ResolveRoute_def ResolveForwardRoute_def LiveRoute_def ReadFence_def read_fence_check_def
      releaseGuardLocked_def Let_def intro!: neutral_bind split: option.split)

text \<open>So the lease protocol works in this fleet as it does alone.\<close>

interpretation cells: lease_fleet etag "wLease W" "owner_starts W" for etag W
  by unfold_locales
     (auto elim!: owner_starts.cases intro!: pub_safe_forget Publish_safe neutral_forget
      simp: ReadFence_def read_fence_check_def releaseGuardLocked_def Let_def)

end
