(* ===== verification/OwnerEpoch.thy ===== *)
theory OwnerEpoch
  imports OwnerFleet
begin

text \<open>
  Epochs are fencing tokens: whatever the interleaving of claims, renewals, releases, crashes and lost
  answers over the fleet, an epoch of a scope belongs to one session for good. A thread that has moved
  the generation counter holds a ticket, its ghost value, until it writes the owner record.
\<close>

subsection \<open>The logic of tickets\<close>

definition stem :: "string \<Rightarrow> string \<Rightarrow> string option" where
  "stem suf k = (if HasPrefix k ''cells/'' \<and> HasSuffix k suf then Some (take (length k - length suf) k) else None)"

abbreviation own_stem :: "string \<Rightarrow> string option" where
  "own_stem \<equiv> stem ''/owner.json''"

abbreviation gen_stem :: "string \<Rightarrow> string option" where
  "gen_stem \<equiv> stem ''/owner-gen''"

lemma stem_iff: "stem suf k = Some key \<longleftrightarrow> k = key @ suf \<and> HasPrefix k ''cells/''"
proof
  assume "stem suf k = Some key"
  then have h: "HasPrefix k ''cells/''" "HasSuffix k suf" "key = take (length k - length suf) k"
    by (simp_all add: stem_def split: if_splits)
  from h(2) obtain t where "k = t @ suf" by (auto simp: HasSuffix_iff)
  with h show "k = key @ suf \<and> HasPrefix k ''cells/''" by simp
qed (auto simp: stem_def HasSuffix_iff)

lemma stem_OwnerKey [simp]: "own_stem (OwnerKey s) = Some (ScopeKey s)" "gen_stem (OwnerKey s) = None"
  by (simp_all add: stem_def OwnerKey_def ScopeKey_def HasSuffix_def)

lemma stem_genKey [simp]: "gen_stem (genKey s) = Some (ScopeKey s)" "own_stem (genKey s) = None"
  by (simp_all add: stem_def genKey_def ScopeKey_def HasSuffix_def)

lemma stem_off: "\<not> protocol_key k \<Longrightarrow> own_stem k = None \<and> gen_stem k = None"
  by (auto simp: stem_def protocol_key_def)

definition writes_own :: "'v wire \<Rightarrow> (string \<times> u64) option \<Rightarrow> string \<Rightarrow> 'v \<Rightarrow> bool" where
  "writes_own W tk k v \<longleftrightarrow>
     (\<forall>key. own_stem k = Some key \<longrightarrow> (\<exists>o'. v = marshal (wOwner W) o' \<and> tk = Some (key, Epoch o')))"

definition renews :: "'v wire \<Rightarrow> ('v \<Rightarrow> 'e) \<Rightarrow> 'v \<Rightarrow> 'e \<Rightarrow> bool" where
  "renews W etag v e \<longleftrightarrow>
     (\<forall>u. etag u = e \<longrightarrow> (\<exists>o0 o'. unmarshal (wOwner W) u = Some o0 \<and> v = marshal (wOwner W) o'
        \<and> Node o' = Node o0 \<and> Session o' = Session o0 \<and> Epoch o' = Epoch o0))"

definition ticket_after :: "'v wire \<Rightarrow> (string \<times> u64) option \<Rightarrow> string \<Rightarrow> 'v \<Rightarrow> 'v outcome \<Rightarrow> (string \<times> u64) option" where
  "ticket_after W tk k v out =
     (if own_stem k \<noteq> None then None
      else case gen_stem k of
          None \<Rightarrow> tk
        | Some key \<Rightarrow> (case out of Done \<Rightarrow> map_option (Pair key) (gen_of W v) | _ \<Rightarrow> None))"

definition epoch_logic :: "'v wire \<Rightarrow> ('v \<Rightarrow> 'e) \<Rightarrow> ('v, 'e, 'w, (string \<times> u64) option) logic" where
  "epoch_logic W etag =
     \<lparr>may = (\<lambda>tk rq. case rq of
         RGet k \<Rightarrow> True
       | RCreate k v \<Rightarrow> writes_own W tk k v \<and> (gen_stem k \<noteq> None \<longrightarrow> (\<exists>n. v = gen_body W n))
       | RCAS k v e \<Rightarrow>
           (writes_own W tk k v \<or> renews W etag v e)
           \<and> (gen_stem k \<noteq> None \<longrightarrow> (\<exists>n. v = gen_body W n
                \<and> (\<forall>u. etag u = e \<longrightarrow> (\<exists>g. gen_of W u = Some g \<and> (g < n \<or> g = -1 \<or> n = 0)))))
       | RCDelete k e \<Rightarrow> gen_stem k = None
       | RPut k v \<Rightarrow> own_stem k = None \<and> gen_stem k = None
       | RDelete k \<Rightarrow> own_stem k = None \<and> gen_stem k = None),
      post = (\<lambda>tk rq out. case rq of
         RCreate k v \<Rightarrow> ticket_after W tk k v out | RCAS k v e \<Rightarrow> ticket_after W tk k v out | _ \<Rightarrow> tk),
      section_ok = (\<lambda>tk t w w' tk'. tk' = tk)\<rparr>"

lemma epoch_logic_simps [simp]:
  "may (epoch_logic W etag) tk (RGet k)"
  "may (epoch_logic W etag) tk (RCDelete k e) \<longleftrightarrow> gen_stem k = None"
  "may (epoch_logic W etag) tk (RPut k v) \<longleftrightarrow> own_stem k = None \<and> gen_stem k = None"
  "may (epoch_logic W etag) tk (RDelete k) \<longleftrightarrow> own_stem k = None \<and> gen_stem k = None"
  "post (epoch_logic W etag) tk (RGet k) out = tk"
  "post (epoch_logic W etag) tk (RCDelete k e) out = tk"
  "post (epoch_logic W etag) tk (RPut k v) out = tk"
  "post (epoch_logic W etag) tk (RDelete k) out = tk"
  "post (epoch_logic W etag) tk (RCreate k v) out = ticket_after W tk k v out"
  "post (epoch_logic W etag) tk (RCAS k v e) out = ticket_after W tk k v out"
  "section_ok (epoch_logic W etag) tk t w w' tk' \<longleftrightarrow> tk' = tk"
  by (simp_all add: epoch_logic_def)

lemma epoch_may_create:
  "may (epoch_logic W etag) tk (RCreate k v) \<longleftrightarrow>
     writes_own W tk k v \<and> (gen_stem k \<noteq> None \<longrightarrow> (\<exists>n. v = gen_body W n))"
  by (simp add: epoch_logic_def)

lemma epoch_may_cas:
  "may (epoch_logic W etag) tk (RCAS k v e) \<longleftrightarrow>
     (writes_own W tk k v \<or> renews W etag v e)
     \<and> (gen_stem k \<noteq> None \<longrightarrow> (\<exists>n. v = gen_body W n
          \<and> (\<forall>u. etag u = e \<longrightarrow> (\<exists>g. gen_of W u = Some g \<and> (g < n \<or> g = -1 \<or> n = 0)))))"
  by (simp add: epoch_logic_def)

subsection \<open>The handlers obey\<close>

text \<open>Handlers that write no protocol object.\<close>

primrec keeps_off :: "('v, 'e, 'w, 'r) prog \<Rightarrow> bool" where
  "keeps_off (Return r) = True"
| "keeps_off (Get k c) = (\<forall>x. keeps_off (c x))"
| "keeps_off (Create k v c) = (\<not> protocol_key k \<and> (\<forall>x. keeps_off (c x)))"
| "keeps_off (CAS k v e c) = (\<not> protocol_key k \<and> (\<forall>x. keeps_off (c x)))"
| "keeps_off (CDelete k e c) = (\<not> protocol_key k \<and> (\<forall>x. keeps_off (c x)))"
| "keeps_off (Put k v c) = (\<not> protocol_key k \<and> (\<forall>x. keeps_off (c x)))"
| "keeps_off (Delete k c) = (\<not> protocol_key k \<and> (\<forall>x. keeps_off (c x)))"
| "keeps_off (ListKeys p c) = (\<forall>x. keeps_off (c x))"
| "keeps_off (Local u c) = (\<forall>t w. keeps_off (c t w))"

lemma keeps_off_bind: "keeps_off p \<Longrightarrow> (\<And>r. keeps_off (f r)) \<Longrightarrow> keeps_off (bind p f)"
  by (induction p) auto

lemma quiet_keeps_off: "quiet p \<Longrightarrow> keeps_off p"
  by (induction p) auto

lemma keeps_off_wp: "keeps_off p \<Longrightarrow> (\<And>r. Q r tk) \<Longrightarrow> wp (epoch_logic W etag) etag p Q tk"
proof (induction p)
  case (Local u c)
  then show ?case by (simp add: Local.IH [OF rangeI rangeI])
qed (auto simp: epoch_may_create epoch_may_cas writes_own_def ticket_after_def dest: stem_off)

lemma keeps_off_sections [simp]: "keeps_off (atomically f)" "keeps_off (change u)" "keeps_off now_is"
  by (simp_all add: atomically_def change_def now_is_def)

lemma keeps_off_attempt: "keeps_off p \<Longrightarrow> (\<And>x. keeps_off (f x)) \<Longrightarrow> keeps_off (attempt p f)"
  by (auto simp: attempt_def intro!: keeps_off_bind split: sum.split)

lemma keeps_off_forget [simp]: "keeps_off p \<Longrightarrow> keeps_off (forget p)"
  by (simp add: forget_def keeps_off_bind)

lemma keeps_off_leaves [simp]:
  "keeps_off (Invalidate m s)" "keeps_off (Resolve W s)" "keeps_off (Forget s epoch)" "keeps_off (rememberOwned s epoch)"
  "keeps_off (forgetOwned s)" "keeps_off (unlockClaim key)" "keeps_off (claimed m s o')"
  by (simp_all add: Invalidate_def Resolve_def Forget_def rememberOwned_def forgetOwned_def unlockClaim_def claimed_def
      keeps_off_bind)

lemma keeps_off_lease [simp]:
  "keeps_off (NodeLeaseFresh J canceled node)" "keeps_off (NodeLeaseOf J canceled node)"
  "keeps_off p \<Longrightarrow> keeps_off (lease_call p)"
  by (auto simp: NodeLeaseFresh_def NodeLeaseOf_def LeaseGet_def lease_call_def keeps_off_bind split: option.split)

lemma lease_key_off [simp]: "\<not> protocol_key (LeaseKey n)"
  by (simp add: protocol_key_def LeaseKey_def)

lemma keeps_off_publish [simp]: "keeps_off (Publish J canceled m load)"
  by (auto simp: Publish_def Fenced_def publish_first_def publish_write_def publish_done_def Let_def
      intro!: keeps_off_bind split: option.split sum.split bucket_error.split)

lemma keeps_off_refresh [simp]: "keeps_off (refresh J canceled m)"
proof -
  have "keeps_off (sample_loop J ks :: ('v, 'e, 'x, _) handler)" for J :: "(NodeLease, 'v) codec" and ks
    by (induction ks) (auto intro!: keeps_off_bind)
  then show ?thesis by (auto simp: refresh_def Sample_def intro!: keeps_off_bind split: sum.split)
qed

lemma keeps_off_known [simp]: "keeps_off (RunKnownRefresh n late J m)"
proof -
  have "keeps_off (refresh_nodes J l ns :: ('v, 'e, 'x, _) handler)" for J :: "(NodeLease, 'v) codec" and l ns
    by (induction ns) (auto intro!: keeps_off_bind)
  then have "keeps_off (known_ticks n late J m :: ('v, 'e, 'x, _) handler)" for J :: "(NodeLease, 'v) codec" and n
    by (induction n) (auto simp: refreshKnown_def intro!: keeps_off_bind)
  then show ?thesis by (auto simp: RunKnownRefresh_def intro!: keeps_off_bind)
qed

lemma keeps_off_Live [simp]: "keeps_off (Live W canceled m o' now)"
  by (auto simp: Live_def intro!: keeps_off_attempt)

lemma keeps_off_hook: "(\<And>p. h = Some p \<Longrightarrow> keeps_off p) \<Longrightarrow> keeps_off (hook h)"
  by (auto simp: hook_def intro!: keeps_off_bind split: option.split)

lemma keeps_off_no_hook [simp]: "keeps_off (hook None)"
  by (simp add: hook_def)

lemma keeps_off_lockClaim [simp]: "keeps_off (lockClaim n key)"
  by (induction n) (auto intro!: keeps_off_bind)

lemma keeps_off_touch:
  "(\<And>f k. toucher = Some f \<Longrightarrow> keeps_off (f k)) \<Longrightarrow> keeps_off (touchOwnerSegment toucher s now)"
  by (auto simp: touchOwnerSegment_def intro!: keeps_off_bind split: option.split)

lemma keeps_off_resolve_cached [simp]: "keeps_off (ResolveCached W m s ttl)"
  by (auto simp: ResolveCached_def Let_def intro!: keeps_off_bind split: sum.split)

lemma keeps_off_route_lead [simp]: "keeps_off (route_lead W canceled m s f rv)"
  by (auto simp: route_lead_def route_evidence_def Let_def intro!: keeps_off_bind keeps_off_attempt split: sum.split)

lemma keeps_off_route_loop [simp]: "keeps_off (route_loop n W canceled m s mode)"
  by (induction n arbitrary: mode) (auto intro!: keeps_off_bind split: option.split look.split)

lemma keeps_off_routes [simp]:
  "keeps_off (ResolveRoute n W canceled m s)" "keeps_off (ResolveForwardRoute n W canceled m s)"
  "keeps_off (LiveRoute W canceled m s o' now)"
  by (auto simp: ResolveRoute_def ResolveForwardRoute_def LiveRoute_def intro!: keeps_off_bind split: option.split)

lemma gen_of_body [simp]: "lawful (wText W) \<Longrightarrow> gen_of W (gen_body W n) = Some n"
  by (simp add: gen_of_def gen_body_def)

lemma next_gen_up: "g < next_gen g floor \<or> g = -1 \<or> next_gen g floor = 0"
proof (cases "g = -1 \<or> floor = -1")
  case False
  have up: "x < x + 1" if "x \<noteq> -1" for x :: u64
    using that unatSuc [of x] by (auto simp: word_less_nat_alt eq_neg_iff_add_eq_0 add.commute)
  with False have "g < g + 1" "floor < floor + 1" by auto
  then show ?thesis unfolding next_gen_def Let_def by (auto simp: not_le)
next
  case True
  then show ?thesis by (auto simp: next_gen_def Let_def)
qed

lemma bump_wp:
  assumes laws: "inj etag" "lawful (wText W)"
    and Q: "\<And>n. Q (Inr n) (Some (ScopeKey s, n))" "\<And>e. Q (Inl e) None"
  shows "wp (epoch_logic W etag) etag (bump k W s floor) Q None"
proof (induction k)
  case (Suc k)
  have cas: "\<exists>n. gen_body W (next_gen g floor) = gen_body W n
      \<and> (\<forall>u. etag u = etag data \<longrightarrow> (\<exists>g. gen_of W u = Some g \<and> (g < n \<or> g = -1 \<or> n = 0)))"
    if "gen_of W data = Some g" for data g
    using that next_gen_up [of g floor] injD [OF laws(1)] by blast
  show ?case
    using Suc Q laws(2)
    by (auto simp: Let_def epoch_may_create epoch_may_cas writes_own_def ticket_after_def wp_bind wp_change cas
        split: bucket_error.split option.split)
qed (simp add: Q)

lemma MarshalOwner_body:
  obtains b where "MarshalOwner j o' = j b" "Node b = Node o'" "Session b = Session o'" "Epoch b = Epoch o'" "Liveness b = Liveness o'"
  by (rule that [of "if OwnerProto o' = [] then o'\<lparr>OwnerProto := ProtoVersion\<rparr> else o'"]) (simp_all add: MarshalOwner_def)

lemma own_write_may:
  assumes "tk = Some (ScopeKey s, Epoch o')"
  shows "may (epoch_logic W etag) tk (RCreate (OwnerKey s) (MarshalOwner (marshal (wOwner W)) o'))"
    "may (epoch_logic W etag) tk (RCAS (OwnerKey s) (MarshalOwner (marshal (wOwner W)) o') e)"
proof -
  obtain b where b: "MarshalOwner (marshal (wOwner W)) o' = marshal (wOwner W) b" "Epoch b = Epoch o'"
    by (rule MarshalOwner_body [of "marshal (wOwner W)" o'])
  then have "\<exists>b'. marshal (wOwner W) b = marshal (wOwner W) b' \<and> Epoch o' = Epoch b'" by metis
  then show "may (epoch_logic W etag) tk (RCreate (OwnerKey s) (MarshalOwner (marshal (wOwner W)) o'))"
    "may (epoch_logic W etag) tk (RCAS (OwnerKey s) (MarshalOwner (marshal (wOwner W)) o') e)"
    unfolding b(1) epoch_may_create epoch_may_cas writes_own_def assms by simp_all
qed

lemma renew_may:
  assumes "inj etag" "unmarshal (wOwner W) data = Some cur" "Node o' = Node cur" "Session o' = Session cur" "Epoch o' = Epoch cur"
  shows "may (epoch_logic W etag) tk (RCAS (OwnerKey s) (MarshalOwner (marshal (wOwner W)) o') (etag data))"
proof -
  obtain b where b: "MarshalOwner (marshal (wOwner W)) o' = marshal (wOwner W) b" "Node b = Node o'" "Session b = Session o'"
    "Epoch b = Epoch o'" by (rule MarshalOwner_body [of "marshal (wOwner W)" o'])
  have "unmarshal (wOwner W) u = Some cur" if "etag u = etag data" for u
    using that assms(1,2) by (simp add: inj_eq)
  then have "renews W etag (marshal (wOwner W) b) (etag data)"
    unfolding renews_def using b assms(3-5) by metis
  then show ?thesis unfolding b(1) epoch_may_cas by simp
qed

lemma hooks_off:
  assumes "quiet_hooks H"
  shows "keeps_off (hook (map_option (\<lambda>f. f s) (Reset H)))" "keeps_off (hook (map_option (\<lambda>f. f cur) (BeforeTakeover H)))"
    "keeps_off (hook (map_option (\<lambda>f. f s e) (BeforeRelease H)))"
    "keeps_off (touchOwnerSegment (Touch H) s now)"
proof -
  note q = quiet_keeps_off [OF conjunct1 [OF quiet_hooksD(1) [OF assms]]] quiet_keeps_off [OF conjunct1 [OF quiet_hooksD(2) [OF assms]]]
    quiet_keeps_off [OF conjunct1 [OF quiet_hooksD(3) [OF assms]]] quiet_keeps_off [OF conjunct1 [OF quiet_hooksD(4) [OF assms]]]
  show "keeps_off (hook (map_option (\<lambda>f. f s) (Reset H)))" by (rule keeps_off_hook) (auto intro: q(2))
  show "keeps_off (hook (map_option (\<lambda>f. f cur) (BeforeTakeover H)))" by (rule keeps_off_hook) (auto intro: q(1))
  show "keeps_off (hook (map_option (\<lambda>f. f s e) (BeforeRelease H)))"
    by (rule keeps_off_hook) (auto intro: q(3))
  show "keeps_off (touchOwnerSegment (Touch H) s now)" by (rule keeps_off_touch) (rule q(4))
qed

text \<open>A handler that starts with a harmless part.\<close>

lemma off_bind:
  assumes "keeps_off p" "\<And>r. wp (epoch_logic W etag) etag (f r) (\<lambda>_ _. True) tk"
  shows "wp (epoch_logic W etag) etag (bind p f) (\<lambda>_ _. True) tk"
  unfolding wp_bind by (rule keeps_off_wp [OF assms(1)]) (rule assms(2))

lemma off_attempt:
  assumes "keeps_off p" "\<And>r. wp (epoch_logic W etag) etag (f r) (\<lambda>_ _. True) tk"
  shows "wp (epoch_logic W etag) etag (attempt p f) (\<lambda>_ _. True) tk"
  unfolding wp_attempt by (rule keeps_off_wp [OF assms(1)]) (simp add: assms(2) split: sum.split)

lemma off_wp: "keeps_off p \<Longrightarrow> wp (epoch_logic W etag) etag p (\<lambda>_ _. True) tk"
  by (rule keeps_off_wp) simp_all

lemma nextEpoch_attempt:
  assumes "inj etag" "lawful (wText W)" "\<And>epoch. wp (epoch_logic W etag) etag (f epoch) (\<lambda>_ _. True) (Some (ScopeKey s, epoch))"
  shows "wp (epoch_logic W etag) etag (attempt (nextEpoch W s floor) f) (\<lambda>_ _. True) None"
  unfolding wp_attempt nextEpoch_def by (rule bump_wp [OF assms(1,2)]) (simp_all add: assms(3))

lemma claim_unowned_wp:
  assumes "inj etag" "lawful (wText W)" "quiet_hooks H"
  shows "wp (epoch_logic W etag) etag (claim_unowned W H m s now) (\<lambda>_ _. True) None"
  unfolding claim_unowned_def
  by (intro nextEpoch_attempt off_attempt assms hooks_off(1))
     (auto simp: Let_def newOwner_def intro!: own_write_may off_wp)

lemma claim_takeover_wp:
  assumes "inj etag" "lawful (wText W)" "quiet_hooks H"
  shows "wp (epoch_logic W etag) etag (claim_takeover W H m s now cur e) (\<lambda>_ _. True) None"
proof -
  have "wp (epoch_logic W etag) etag (attempt (hook (map_option (\<lambda>f. f s) (Reset H))) (\<lambda>_.
     attempt (nextEpoch W s (Epoch cur)) (\<lambda>epoch.
       let o' = newOwner m epoch now in
       CAS (OwnerKey s) (MarshalOwner (marshal (wOwner W)) o') e (\<lambda>c. case c of
           Inl x \<Rightarrow> bind (change (\<lambda>_ w. w\<lparr>takeoverFailed := takeoverFailed w + 1\<rparr>)) (\<lambda>_. Return (Inl (OwnerBucket x)))
         | Inr _ \<Rightarrow> bind (change (\<lambda>_ w. w\<lparr>takeoverSuccess := takeoverSuccess w + 1\<rparr>)) (\<lambda>_. claimed m s o'))))) (\<lambda>_ _. True) None"
    by (intro nextEpoch_attempt off_attempt assms hooks_off(1))
       (auto simp: Let_def newOwner_def intro!: own_write_may keeps_off_bind off_wp)
  then show ?thesis
    unfolding claim_takeover_def
    by (intro off_bind hooks_off(2) assms(3)) (auto split: sum.split intro!: off_bind)
qed

lemma Claim_wp:
  assumes "inj etag" "lawful (wText W)" "quiet_hooks H"
  shows "wp (epoch_logic W etag) etag (ClaimWithReset n W canceled H m s now) (\<lambda>_ _. True) None"
proof -
  let ?L = "epoch_logic W etag"
  have own: "wp ?L etag (bind (rememberOwned s (Epoch cur)) (\<lambda>_. bind (touchOwnerSegment (Touch H) s now) (\<lambda>_. Return (Inr cur))))
      (\<lambda>_ _. True) None" for cur
    by (intro off_bind hooks_off(4) [OF assms(3)]) simp_all
  have body: "wp ?L etag (claim_body W canceled H m s now) (\<lambda>_ _. True) None"
    unfolding claim_body_def Resolve_def
    by (auto intro!: own claim_unowned_wp claim_takeover_wp assms off_attempt off_bind
        simp: liveFresh_def split: bucket_error.split option.split)
  have "wp ?L etag (bind (claim_body W canceled H m s now) (\<lambda>r. bind (unlockClaim (ScopeString s)) (\<lambda>_. Return r))) (\<lambda>_ _. True) None"
    unfolding wp_bind by (rule wp_mono [OF body]) (auto intro!: keeps_off_wp)
  then show ?thesis
    unfolding ClaimWithReset_def by (intro off_attempt) simp_all
qed

lemma Renew_wp:
  assumes "inj etag" "quiet_hooks H"
  shows "wp (epoch_logic W etag) etag (Renew W H m s epoch now) (\<lambda>_ _. True) None"
proof -
  let ?L = "epoch_logic W etag"
  have kept: "wp ?L etag (bind (rememberOwned s (Epoch cur)) (\<lambda>_. bind (touchOwnerSegment (Touch H) s now) (\<lambda>_. Return (Inr cur))))
      (\<lambda>_ _. True) tk" for cur tk
    by (intro off_bind hooks_off(4) [OF assms(2)]) simp_all
  show ?thesis
    unfolding Renew_def Resolve_def
    by (auto simp: wp_attempt Let_def intro!: kept renew_may [OF assms(1)] off_bind hooks_off(4) [OF assms(2)] split: bucket_error.split option.split)
qed

lemma ClaimAs_wp:
  assumes "inj etag" "lawful (wText W)"
  shows "wp (epoch_logic W etag) etag (ClaimAs W m s node advertise role ttl now) (\<lambda>_ _. True) None"
  unfolding ClaimAs_def Resolve_def
  by (auto simp: Let_def ownerFor_def
      intro!: nextEpoch_attempt assms own_write_may off_bind split: bucket_error.split option.split)

lemma RenewAs_wp:
  assumes "inj etag"
  shows "wp (epoch_logic W etag) etag (RenewAs W m s node epoch ttl now) (\<lambda>_ _. True) None"
  unfolding RenewAs_def Resolve_def
  by (auto simp: wp_attempt Let_def intro!: renew_may assms split: bucket_error.split option.split)

lemma ReleaseAs_wp: "wp (epoch_logic W etag) etag (ReleaseAs W m s node epoch) (\<lambda>_ _. True) None"
  unfolding ReleaseAs_def Resolve_def
  by (auto simp: wp_attempt intro!: off_bind split: bucket_error.split option.split)

lemma release_wp:
  assumes "quiet_hooks H"
  shows "wp (epoch_logic W etag) etag (release W H m s epoch skip) (\<lambda>_ _. True) None"
proof -
  have "wp (epoch_logic W etag) etag (release_body W H m s epoch skip) (\<lambda>_ _. True) None"
    unfolding release_body_def
    by (intro off_attempt)
       (auto intro!: off_bind hooks_off(3) [OF assms] split: prod.split sum.split bucket_error.split)
  then have "wp (epoch_logic W etag) etag (bind (release_body W H m s epoch skip)
      (\<lambda>r. bind (change (release_leave m (ScopeString s))) (\<lambda>_. Return r))) (\<lambda>_ _. True) None"
    unfolding wp_bind by (rule wp_mono) (simp add: wp_change)
  then show ?thesis unfolding release_def by (rule off_bind [rotated]) simp
qed

lemma owner_starts_tickets:
  assumes "inj etag" "lawful (wText W)" "owner_starts W S m (Run i p)"
  shows "wp (epoch_logic W etag) etag p (\<lambda>_ _. True) None"
  using assms(3)
  by (cases rule: owner_starts.cases)
     (auto intro: Claim_wp [OF assms(1,2)] Renew_wp [OF assms(1)] release_wp ClaimAs_wp [OF assms(1,2)]
        RenewAs_wp [OF assms(1)] ReleaseAs_wp off_wp)

subsection \<open>The invariant\<close>

definition gen_at :: "'v wire \<Rightarrow> 'v objects \<Rightarrow> string \<Rightarrow> u64 option" where
  "gen_at W B key = (case B (key @ ''/owner-gen'') of None \<Rightarrow> None | Some v \<Rightarrow> gen_of W v)"

definition rec_at :: "'v wire \<Rightarrow> 'v objects \<Rightarrow> string \<Rightarrow> Owner option" where
  "rec_at W B key = (case B (key @ ''/owner.json'') of None \<Rightarrow> None | Some v \<Rightarrow> unmarshal (wOwner W) v)"

text \<open>For the scope with key \<open>key\<close> and the ghost values \<open>G\<close>: the record's epoch and the tickets are covered by the
  counter, no two threads hold the same ticket, none holds the record's epoch.\<close>

definition epoch_ok :: "'v wire \<Rightarrow> string \<Rightarrow> 'v objects \<Rightarrow> ('m \<Rightarrow> nat \<Rightarrow> (string \<times> u64) option) \<Rightarrow> bool" where
  "epoch_ok W key B G \<longleftrightarrow>
     (\<forall>r. rec_at W B key = Some r \<longrightarrow> (\<exists>g. gen_at W B key = Some g \<and> Epoch r \<le> g))
     \<and> (\<forall>m i n. G m i = Some (key, n) \<longrightarrow> (\<exists>g. gen_at W B key = Some g \<and> n \<le> g))
     \<and> (\<forall>m i m' i' n. G m i = Some (key, n) \<longrightarrow> G m' i' = Some (key, n) \<longrightarrow> m = m' \<and> i = i')
     \<and> (\<forall>m i r. rec_at W B key = Some r \<longrightarrow> G m i \<noteq> Some (key, Epoch r))"

lemma epoch_okD:
  assumes "epoch_ok W key B G"
  shows "rec_at W B key = Some r \<Longrightarrow> \<exists>g. gen_at W B key = Some g \<and> Epoch r \<le> g"
    and "G m i = Some (key, n) \<Longrightarrow> \<exists>g. gen_at W B key = Some g \<and> n \<le> g"
    and "G m i = Some (key, n) \<Longrightarrow> G m' i' = Some (key, n) \<Longrightarrow> m = m' \<and> i = i'"
    and "rec_at W B key = Some r \<Longrightarrow> G m i \<noteq> Some (key, Epoch r)"
proof -
  note a = assms [unfolded epoch_ok_def]
  show "rec_at W B key = Some r \<Longrightarrow> \<exists>g. gen_at W B key = Some g \<and> Epoch r \<le> g" using conjunct1 [OF a] by blast
  show "G m i = Some (key, n) \<Longrightarrow> \<exists>g. gen_at W B key = Some g \<and> n \<le> g" using conjunct1 [OF conjunct2 [OF a]] by blast
  show "G m i = Some (key, n) \<Longrightarrow> G m' i' = Some (key, n) \<Longrightarrow> m = m' \<and> i = i'"
    using conjunct1 [OF conjunct2 [OF conjunct2 [OF a]]] by blast
  show "rec_at W B key = Some r \<Longrightarrow> G m i \<noteq> Some (key, Epoch r)"
    using conjunct2 [OF conjunct2 [OF conjunct2 [OF a]]] by blast
qed

text \<open>Epoch \<open>n\<close> has been given to the session \<open>a\<close>.\<close>

definition given :: "'v wire \<Rightarrow> string \<Rightarrow> u64 \<Rightarrow> string \<times> string \<Rightarrow> 'v objects \<Rightarrow> ('m \<Rightarrow> nat \<Rightarrow> (string \<times> u64) option) \<Rightarrow> bool" where
  "given W key n a B G \<longleftrightarrow>
     (\<exists>g. gen_at W B key = Some g \<and> n \<le> g) \<and> (\<forall>m i. G m i \<noteq> Some (key, n))
     \<and> (\<forall>r. rec_at W B key = Some r \<longrightarrow> Epoch r = n \<longrightarrow> (Node r, Session r) = a)"

definition set_ghost :: "'m \<Rightarrow> nat \<Rightarrow> 'g \<Rightarrow> ('m \<Rightarrow> nat \<Rightarrow> 'g) \<Rightarrow> ('m \<Rightarrow> nat \<Rightarrow> 'g)" where
  "set_ghost m i g G = G(m := (G m)(i := g))"

lemma set_ghost_simps [simp]: "set_ghost m i g G m i = g" "(m', i') \<noteq> (m, i) \<Longrightarrow> set_ghost m i g G m' i' = G m' i'"
  by (auto simp: set_ghost_def)

lemma set_ghost_cases: "set_ghost m i g G m' i' = (if (m', i') = (m, i) then g else G m' i')"
  by auto

lemma set_ghost_same: "set_ghost m i (G m i) G = G"
  by (auto simp: set_ghost_def fun_eq_iff)

text \<open>Nothing changes for the scope: the ticket of the acting thread is kept, dropped, or becomes one for another
  scope.\<close>

lemma epoch_ok_drop:
  assumes "gen_at W B' key = gen_at W B key" "rec_at W B' key = rec_at W B key" "\<And>n. g = Some (key, n) \<Longrightarrow> G m i = Some (key, n)"
  shows "epoch_ok W key B G \<Longrightarrow> epoch_ok W key B' (set_ghost m i g G)"
    and "given W key n a B G \<Longrightarrow> given W key n a B' (set_ghost m i g G)"
  using assms unfolding epoch_ok_def given_def by (auto simp: set_ghost_cases split: if_splits)

text \<open>The record is written with the ticket.\<close>

lemma epoch_ok_write:
  assumes "epoch_ok W key B G" "gen_at W B' key = gen_at W B key" "rec_at W B' key = Some r" "G m i = Some (key, Epoch r)"
  shows "epoch_ok W key B' (set_ghost m i None G)"
    and "given W key n a B G \<Longrightarrow> given W key n a B' (set_ghost m i None G)"
  using assms unfolding epoch_ok_def given_def by (auto simp: set_ghost_cases split: if_splits)

text \<open>The record is rewritten by its owner, or removed.\<close>

lemma epoch_ok_renew:
  assumes "epoch_ok W key B G" "gen_at W B' key = gen_at W B key"
    and "\<And>r. rec_at W B' key = Some r \<Longrightarrow> \<exists>r0. rec_at W B key = Some r0 \<and> Epoch r = Epoch r0 \<and> Node r = Node r0 \<and> Session r = Session r0"
    and "\<And>n. g = Some (key, n) \<Longrightarrow> G m i = Some (key, n)"
  shows "epoch_ok W key B' (set_ghost m i g G)"
    and "given W key n a B G \<Longrightarrow> given W key n a B' (set_ghost m i g G)"
  using assms unfolding epoch_ok_def given_def by (fastforce simp: set_ghost_cases split: if_splits)+

text \<open>The counter moves up and the thread takes the ticket, or loses it with the answer.\<close>

lemma epoch_ok_bump:
  assumes "epoch_ok W key B G" "rec_at W B' key = rec_at W B key" "gen_at W B' key = Some n'"
    and "\<And>g. gen_at W B key = Some g \<Longrightarrow> g < n'" and "\<And>n. g = Some (key, n) \<Longrightarrow> n = n'"
  shows "epoch_ok W key B' (set_ghost m i g G)"
    and "given W key n a B G \<Longrightarrow> given W key n a B' (set_ghost m i g G)"
proof -
  have up: "x < n'" if "gen_at W B key = Some h" "x \<le> h" for x h
    using that(2) assms(4) [OF that(1)] by (rule le_less_trans)
  have tk: "x < n'" if own: "G m' i' = Some (key, x)" for m' i' x
  proof -
    obtain h where "gen_at W B key = Some h" "x \<le> h" using epoch_okD(2) [OF assms(1) own] by blast
    then show ?thesis by (rule up)
  qed
  have rc: "Epoch r < n'" if r: "rec_at W B key = Some r" for r
  proof -
    obtain h where "gen_at W B key = Some h" "Epoch r \<le> h" using epoch_okD(1) [OF assms(1) r] by blast
    then show ?thesis by (rule up)
  qed
  have ghost: "(m', i') = (m, i) \<and> x = n' \<or> (m', i') \<noteq> (m, i) \<and> G m' i' = Some (key, x) \<and> x < n'"
    if sg: "set_ghost m i g G m' i' = Some (key, x)" for m' i' x
  proof (cases "(m', i') = (m, i)")
    case True
    with sg have "g = Some (key, x)" by simp
    with True show ?thesis using assms(5) by blast
  next
    case False
    with sg have "G m' i' = Some (key, x)" by simp
    with False show ?thesis using tk by blast
  qed
  show "epoch_ok W key B' (set_ghost m i g G)"
    unfolding epoch_ok_def
  proof (intro conjI allI impI)
    fix r assume "rec_at W B' key = Some r"
    then show "\<exists>g. gen_at W B' key = Some g \<and> Epoch r \<le> g" using rc assms(2,3) less_imp_le by auto
  next
    fix m' i' x assume "set_ghost m i g G m' i' = Some (key, x)"
    from ghost [OF this] show "\<exists>g. gen_at W B' key = Some g \<and> x \<le> g" using assms(3) by auto
  next
    fix m' i' m'' i'' x
    assume "set_ghost m i g G m' i' = Some (key, x)" "set_ghost m i g G m'' i'' = Some (key, x)"
    note g1 = ghost [OF this(1)] and g2 = ghost [OF this(2)]
    have "(m', i') = (m'', i'')"
    proof (cases "x = n'")
      case True
      with g1 g2 show ?thesis by simp
    next
      case False
      with g1 g2 have "G m' i' = Some (key, x)" "G m'' i'' = Some (key, x)" by simp_all
      with epoch_okD(3) [OF assms(1)] show ?thesis by blast
    qed
    then show "m' = m''" "i' = i''" by simp_all
  next
    fix m' i' r assume r: "rec_at W B' key = Some r"
    show "set_ghost m i g G m' i' \<noteq> Some (key, Epoch r)"
    proof
      assume "set_ghost m i g G m' i' = Some (key, Epoch r)"
      from ghost [OF this] have "Epoch r = n' \<or> G m' i' = Some (key, Epoch r)" by blast
      moreover have "Epoch r \<noteq> n'" using rc [of r] r assms(2) by simp
      moreover have "G m' i' \<noteq> Some (key, Epoch r)" using epoch_okD(4) [OF assms(1)] r assms(2) by metis
      ultimately show False by blast
    qed
  qed
  show "given W key n a B' (set_ghost m i g G)" if gv: "given W key n a B G"
  proof -
    obtain h where "gen_at W B key = Some h" "n \<le> h" using gv unfolding given_def by blast
    then have n: "n < n'" by (rule up)
    have "set_ghost m i g G m' i' \<noteq> Some (key, n)" for m' i'
    proof
      assume "set_ghost m i g G m' i' = Some (key, n)"
      from ghost [OF this] n have "G m' i' = Some (key, n)" by auto
      with gv show False unfolding given_def by blast
    qed
    with n gv show ?thesis unfolding given_def assms(2,3) by (auto intro: less_imp_le)
  qed
qed

subsection \<open>Every request keeps it\<close>

lemma ticket_after_own: "own_stem k = Some key \<Longrightarrow> ticket_after W tk k v out = None"
  by (simp add: ticket_after_def)

lemma ticket_after_gen:
  assumes "lawful (wText W)" "gen_stem k = Some key" "own_stem k = None" "ticket_after W tk k (gen_body W n) out = Some (key', n')"
  shows "key' = key \<and> n' = n"
  using assms by (simp add: ticket_after_def split: outcome.splits)

lemma ticket_after_other:
  assumes "gen_stem k \<noteq> Some key" "ticket_after W tk k v out = Some (key, n)"
  shows "tk = Some (key, n)"
  using assms by (auto simp: ticket_after_def split: if_splits option.splits outcome.splits)

definition epoch_laws :: "'v wire \<Rightarrow> ('v \<Rightarrow> 'e) \<Rightarrow> string \<Rightarrow> bool" where
  "epoch_laws W etag key \<longleftrightarrow> inj etag \<and> lawful (wOwner W) \<and> lawful (wText W) \<and> HasPrefix key ''cells/''"

lemma key_stems:
  assumes "HasPrefix key ''cells/''"
  shows "own_stem (key @ ''/owner.json'') = Some key" "gen_stem (key @ ''/owner.json'') = None"
  "gen_stem (key @ ''/owner-gen'') = Some key" "own_stem (key @ ''/owner-gen'') = None"
proof -
  have "HasPrefix (key @ x) ''cells/''" for x using assms by (auto simp: HasPrefix_iff)
  then show "own_stem (key @ ''/owner.json'') = Some key" "gen_stem (key @ ''/owner.json'') = None"
    "gen_stem (key @ ''/owner-gen'') = Some key" "own_stem (key @ ''/owner-gen'') = None"
    by (simp_all add: stem_def HasSuffix_def)
qed

lemma effect_elsewhere:
  assumes "effect etag B rq out B'" "key_of rq \<noteq> key @ ''/owner.json''" "key_of rq \<noteq> key @ ''/owner-gen''" "epoch_ok W key B G"
    and g: "g = post (epoch_logic W etag) (G m i) rq out"
  shows "epoch_ok W key B' (set_ghost m i g G)"
    and "given W key n a B G \<Longrightarrow> given W key n a B' (set_ghost m i g G)"
proof -
  have "B' (key @ ''/owner.json'') = B (key @ ''/owner.json'')" "B' (key @ ''/owner-gen'') = B (key @ ''/owner-gen'')"
    using effect_other [OF assms(1)] assms(2,3) by auto
  then have same: "gen_at W B' key = gen_at W B key" "rec_at W B' key = rec_at W B key"
    by (simp_all add: gen_at_def rec_at_def)
  have "gen_stem (key_of rq) \<noteq> Some key" using assms(3) by (auto simp: stem_iff)
  then have "G m i = Some (key, n)" if "g = Some (key, n)" for n
    using that ticket_after_other by (cases rq) (auto simp: g)
  from epoch_ok_drop [where g = g and G = G and m = m and i = i, OF same this] assms(4)
  show "epoch_ok W key B' (set_ghost m i g G)"
    and "given W key n a B G \<Longrightarrow> given W key n a B' (set_ghost m i g G)"
    by blast+
qed

lemma effect_owner:
  assumes laws: "epoch_laws W etag key"
    and "effect etag B rq out B'" "key_of rq = key @ ''/owner.json''" "epoch_ok W key B G" "may (epoch_logic W etag) (G m i) rq"
    and g: "g = post (epoch_logic W etag) (G m i) rq out"
  shows "epoch_ok W key B' (set_ghost m i g G)
    \<and> (given W key n a B G \<longrightarrow> given W key n a B' (set_ghost m i g G))"
proof -
  have lawful_owner: "lawful (wOwner W)" and cell: "HasPrefix key ''cells/''" using laws by (simp_all add: epoch_laws_def)
  note stems = key_stems [OF cell]
  let ?k = "key @ ''/owner.json''"
  have "B' (key @ ''/owner-gen'') = B (key @ ''/owner-gen'')"
    by (rule effect_other [OF assms(2)]) (simp add: assms(3))
  then have gen: "gen_at W B' key = gen_at W B key" by (simp add: gen_at_def)
  note drop = epoch_ok_drop [where g = g and G = G and m = m and i = i]
  show ?thesis
  proof (cases "B' ?k = B ?k")
    case True
    then have rc: "rec_at W B' key = rec_at W B key" by (simp add: rec_at_def)
    have "G m i = Some (key, n)" if "g = Some (key, n)" for n
      using that assms(3) stems by (cases rq) (auto simp: g ticket_after_def)
    from drop [OF gen rc this] assms(4) show ?thesis by blast
  next
    case changed: False
    consider (fresh) v b where "B' ?k = Some v" "v = marshal (wOwner W) b" "G m i = Some (key, Epoch b)"
        "g = None"
      | (renew) v e u where "B' ?k = Some v" "B ?k = Some u" "etag u = e" "renews W etag v e"
        "g = None"
      | (remove) "B' ?k = None" "g = G m i"
    proof (cases rq)
      case (RCreate k v)
      with assms(2-) changed stems fresh show ?thesis
        by (auto simp: effect_def epoch_may_create writes_own_def ticket_after_def g)
    next
      case (RCAS k v e)
      with assms(2-) changed stems fresh renew show ?thesis
        by (auto simp: effect_def epoch_may_cas writes_own_def ticket_after_def g)
    next
      case (RCDelete k e)
      with assms(2-) changed remove show ?thesis by (auto simp: effect_def g)
    qed (use assms(2-) changed stems in \<open>auto simp: effect_def\<close>)
    then show ?thesis
    proof cases
      case fresh
      then have "rec_at W B' key = Some b" using lawful_owner by (simp add: rec_at_def)
      from epoch_ok_write [OF assms(4) gen this fresh(3)] fresh(4) show ?thesis by simp
    next
      case renew
      then obtain o0 b where "unmarshal (wOwner W) u = Some o0" "v = marshal (wOwner W) b"
        "Node b = Node o0 \<and> Session b = Session o0 \<and> Epoch b = Epoch o0"
        unfolding renews_def by blast
      then have r: "\<exists>r0. rec_at W B key = Some r0 \<and> Epoch r = Epoch r0 \<and> Node r = Node r0 \<and> Session r = Session r0"
        if "rec_at W B' key = Some r" for r
        using that renew(1,2) lawful_owner by (simp add: rec_at_def)
      show ?thesis
        using epoch_ok_renew [where g = None and m = m and i = i, OF assms(4) gen r] renew(5) by simp
    next
      case remove
      then have r: "\<exists>r0. rec_at W B key = Some r0 \<and> Epoch r = Epoch r0 \<and> Node r = Node r0 \<and> Session r = Session r0"
        if "rec_at W B' key = Some r" for r using that by (simp add: rec_at_def)
      show ?thesis
        using epoch_ok_renew [where g = "G m i" and m = m and i = i, OF assms(4) gen r] remove(2) by simp
    qed
  qed
qed

lemma effect_counter:
  assumes laws: "epoch_laws W etag key"
    and "effect etag B rq out B'" "key_of rq = key @ ''/owner-gen''" "epoch_ok W key B G" "may (epoch_logic W etag) (G m i) rq"
    and g: "g = post (epoch_logic W etag) (G m i) rq out"
    and room: "gen_at W B key \<noteq> Some (-1)" "gen_at W B' key \<noteq> Some 0"
  shows "epoch_ok W key B' (set_ghost m i g G)
    \<and> (given W key n a B G \<longrightarrow> given W key n a B' (set_ghost m i g G))"
proof -
  have lawful_text: "lawful (wText W)" and cell: "HasPrefix key ''cells/''" using laws by (simp_all add: epoch_laws_def)
  note stems = key_stems [OF cell]
  let ?k = "key @ ''/owner-gen''"
  have "B' (key @ ''/owner.json'') = B (key @ ''/owner.json'')"
    by (rule effect_other [OF assms(2)]) (simp add: assms(3))
  then have rc: "rec_at W B' key = rec_at W B key" by (simp add: rec_at_def)
  consider (same) "B' ?k = B ?k" "\<And>n. g = Some (key, n) \<Longrightarrow> G m i = Some (key, n)"
    | (moved) c v where "rq = RCreate ?k v \<or> rq = RCAS ?k v c" "B' ?k = Some v" "v \<in> range (gen_body W)"
        "\<And>g. gen_at W B key = Some g \<Longrightarrow> \<exists>n'. v = gen_body W n' \<and> g < n'"
  proof (cases rq)
    case (RGet k)
    with assms(2-) same show ?thesis by (auto simp: effect_def)
  next
    case (RCreate k v)
    with assms(2-) stems obtain n' where n': "v = gen_body W n'" by (auto simp: epoch_may_create)
    show ?thesis
    proof (cases "B ?k = None \<and> B' = B(?k \<mapsto> v)")
      case True
      with RCreate assms(3) n' show ?thesis by (intro moved [of v]) (auto simp: gen_at_def)
    next
      case False
      with RCreate assms(2-) have "B' = B" "out \<noteq> Done" by (auto simp: effect_def)
      with RCreate assms(3) stems show ?thesis by (intro same) (auto simp: g ticket_after_def split: outcome.splits)
    qed
  next
    case (RCAS k v e)
    with assms(2-) stems obtain n' where n': "v = gen_body W n'"
      "\<And>u. etag u = e \<Longrightarrow> \<exists>g. gen_of W u = Some g \<and> (g < n' \<or> g = -1 \<or> n' = 0)" by (auto simp: epoch_may_cas)
    show ?thesis
    proof (cases "\<exists>u. B ?k = Some u \<and> etag u = e \<and> B' = B(?k \<mapsto> v)")
      case True
      then obtain u where u: "B ?k = Some u" "etag u = e" "B' = B(?k \<mapsto> v)" by blast
      with room n' lawful_text have "g < n'" if "gen_at W B key = Some g" for g
        using that n'(2) [OF u(2)] by (auto simp: gen_at_def)
      with RCAS assms(3) u n'(1) show ?thesis by (intro moved [of v]) auto
    next
      case False
      with RCAS assms(2-) have "B' = B" "out \<noteq> Done" by (auto simp: effect_def)
      with RCAS assms(3) stems show ?thesis by (intro same) (auto simp: g ticket_after_def split: outcome.splits)
    qed
  qed (use assms(2-) stems in auto)
  then show ?thesis
  proof cases
    case same
    then have "gen_at W B' key = gen_at W B key" by (simp add: gen_at_def)
    from epoch_ok_drop [where g = g and G = G and m = m and i = i, OF this rc same(2)] assms(4) show ?thesis by blast
  next
    case moved
    from moved(3) obtain n' where n': "v = gen_body W n'" by blast
    then have g': "gen_at W B' key = Some n'" using moved(2) lawful_text by (simp add: gen_at_def)
    have up: "g < n'" if "gen_at W B key = Some g" for g
      using moved(4) [OF that] n' lawful_text by (metis gen_of_body option.inject)
    have tk: "x = n'" if "g = Some (key, x)" for x
      using that moved(1) n' ticket_after_gen [OF lawful_text stems(3,4)] by (auto simp: g)
    show ?thesis
      using epoch_ok_bump [where g = g and m = m and i = i, OF assms(4) rc g' up tk] by blast
  qed
qed

lemma effect_keeps:
  assumes laws: "epoch_laws W etag key" and "effect etag B rq out B'" "epoch_ok W key B G" "may (epoch_logic W etag) (G m i) rq"
    and g: "g = post (epoch_logic W etag) (G m i) rq out"
    and "gen_at W B key \<noteq> Some (-1)" "gen_at W B' key \<noteq> Some 0"
  shows "epoch_ok W key B' (set_ghost m i g G)
    \<and> (given W key n a B G \<longrightarrow> given W key n a B' (set_ghost m i g G))"
  using effect_owner [OF laws assms(2) _ assms(3,4) g] effect_counter [OF laws assms(2) _ assms(3,4) g assms(6,7)] effect_elsewhere [OF assms(2) _ _ assms(3) g]
  by blast

subsection \<open>Over the fleet\<close>

text \<open>Runs along which a condition holds in every state.\<close>

inductive reachable_while ::
  "(('v, 'e, 'w, 'r, 'm) system \<Rightarrow> bool) \<Rightarrow> ('v \<Rightarrow> 'e) \<Rightarrow> ('v, 'e, 'w, 'r, 'm) starter \<Rightarrow>
   ('v, 'e, 'w, 'r, 'm) system \<Rightarrow> ('v, 'e, 'w, 'r, 'm) system \<Rightarrow> bool" for \<phi> etag starts S where
  init: "\<phi> S \<Longrightarrow> reachable_while \<phi> etag starts S S"
| more: "reachable_while \<phi> etag starts S S' \<Longrightarrow> step etag starts a S' S'' \<Longrightarrow> \<phi> S'' \<Longrightarrow> reachable_while \<phi> etag starts S S''"

lemma reachable_while_end: "reachable_while \<phi> etag starts S S' \<Longrightarrow> \<phi> S'"
  by (induction rule: reachable_while.induct) auto

text \<open>The counter has not run over: it is neither at the last value nor back at zero.\<close>

definition counter_in_range :: "'v wire \<Rightarrow> string \<Rightarrow> ('v, 'e, 'w, 'r, 'm) system \<Rightarrow> bool" where
  "counter_in_range W key S \<longleftrightarrow> gen_at W (store S) key \<noteq> Some 0 \<and> gen_at W (store S) key \<noteq> Some (-1)"

definition ticket_thread :: "('v \<Rightarrow> 'e) \<Rightarrow> 'v wire \<Rightarrow> ('v, 'e, 'w, 'r) prog option \<Rightarrow> (string \<times> u64) option \<Rightarrow> bool" where
  "ticket_thread etag W q g \<longleftrightarrow>
     (case q of None \<Rightarrow> g = None | Some p \<Rightarrow> wp (epoch_logic W etag) etag p (\<lambda>_ _. True) g)"

lemma ticket_thread_simps [simp]:
  "ticket_thread etag W None g \<longleftrightarrow> g = None"
  "ticket_thread etag W (Some p) g \<longleftrightarrow> wp (epoch_logic W etag) etag p (\<lambda>_ _. True) g"
  by (simp_all add: ticket_thread_def)

definition tickets_ok ::
  "('v \<Rightarrow> 'e) \<Rightarrow> 'v wire \<Rightarrow> string \<Rightarrow> ('v, 'e, 'w, 'r, 'm) system \<Rightarrow> ('m \<Rightarrow> nat \<Rightarrow> (string \<times> u64) option) \<Rightarrow> bool" where
  "tickets_ok etag W key S G \<longleftrightarrow>
     epoch_ok W key (store S) G \<and> (\<forall>m i. ticket_thread etag W (threads S m i) (G m i))"

lemma tickets_okD:
  assumes "tickets_ok etag W key S G"
  shows "epoch_ok W key (store S) G"
    and "threads S m i = None \<Longrightarrow> G m i = None"
    and "threads S m i = Some p \<Longrightarrow> wp (epoch_logic W etag) etag p (\<lambda>_ _. True) (G m i)"
  using assms unfolding tickets_ok_def by (metis ticket_thread_simps)+

lemma tickets_set:
  assumes "tickets_ok etag W key S G" "epoch_ok W key B (set_ghost m i g G)"
    and "ticket_thread etag W q g"
    and "store S' = B" "threads S' = threads S"
  shows "tickets_ok etag W key (set_thread m i q S') (set_ghost m i g G)"
  using assms unfolding tickets_ok_def set_ghost_cases by (simp add: set_thread_def)

lemma tickets_same:
  assumes "tickets_ok etag W key S G" "ticket_thread etag W q (G m i)" "store S' = store S" "threads S' = threads S"
  shows "tickets_ok etag W key (set_thread m i q S') G"
  using assms unfolding tickets_ok_def by (simp add: set_thread_def)

locale ticket_fleet =
  fixes etag :: "'v \<Rightarrow> 'e" and W :: "'v wire" and starts :: "('v, 'e, 'w, 'r, 'm) starter"
  assumes starts_wp: "inj etag \<Longrightarrow> lawful (wText W) \<Longrightarrow> starts S m (Run i p) \<Longrightarrow>
    wp (epoch_logic W etag) etag p (\<lambda>_ _. True) None"
begin

lemma step_tickets:
  assumes "step etag starts x S S'" "epoch_laws W etag key" "tickets_ok etag W key S G"
    and "counter_in_range W key S" "counter_in_range W key S'"
  shows "\<exists>G'. tickets_ok etag W key S' G' \<and> (\<forall>n a. given W key n a (store S) G \<longrightarrow> given W key n a (store S') G')"
  using assms(1)
proof cases
  case (call m i p B' p')
  have p: "wp (epoch_logic W etag) etag p (\<lambda>_ _. True) (G m i)"
    using tickets_okD(3) [OF assms(3)] call(3) by blast
  have st: "store S' = B'" using call(2) by (simp add: set_thread_def)
  from wp_call [OF call(4) p] consider
      (quiet) "B' = store S" "wp (epoch_logic W etag) etag p' (\<lambda>_ _. True) (G m i)"
    | (acts) rq out where "may (epoch_logic W etag :: (_, _, 'w, _) logic) (G m i) rq" "effect etag (store S) rq out B'"
        "wp (epoch_logic W etag) etag p' (\<lambda>_ _. True) (post (epoch_logic W etag :: (_, _, 'w, _) logic) (G m i) rq out)"
    by blast
  then show ?thesis
  proof cases
    case quiet
    then have "tickets_ok etag W key S' G" unfolding call(2) by (intro tickets_same [OF assms(3)]) simp_all
    then show ?thesis using quiet st by auto
  next
    case acts
    have e: "epoch_ok W key (store S) G" by (rule tickets_okD(1) [OF assms(3)])
    have k: "epoch_ok W key B' (set_ghost m i (post (epoch_logic W etag :: (_, _, 'w, _) logic) (G m i) rq out) G)
      \<and> (given W key n a (store S) G \<longrightarrow>
         given W key n a B' (set_ghost m i (post (epoch_logic W etag :: (_, _, 'w, _) logic) (G m i) rq out) G))" for n a
      using assms(4,5) st by (intro effect_keeps [OF assms(2) acts(2) e acts(1) refl]) (simp_all add: counter_in_range_def)
    have "tickets_ok etag W key S' (set_ghost m i (post (epoch_logic W etag :: (_, _, 'w, _) logic) (G m i) rq out) G)"
      unfolding call(2) using k acts(3) by (intro tickets_set [OF assms(3)]) simp_all
    then show ?thesis using k st by blast
  qed
next
  case (local m i u c)
  have "wp (epoch_logic W etag) etag (c (clock S) (memory S m)) (\<lambda>_ _. True) (G m i)"
    using tickets_okD(3) [OF assms(3) local(3)] by simp
  then have "tickets_ok etag W key S' G" unfolding local(2) by (intro tickets_same [OF assms(3)]) simp_all
  then show ?thesis using local(2) by (auto simp: set_thread_def)
next
  case (start m i p)
  then have "G m i = None" using tickets_okD(2) [OF assms(3)] by blast
  moreover have "wp (epoch_logic W etag) etag p (\<lambda>_ _. True) None"
    using start(5) assms(2) by (intro starts_wp) (simp_all add: epoch_laws_def)
  ultimately have "tickets_ok etag W key S' G" unfolding start(2) by (intro tickets_same [OF assms(3)]) simp_all
  then show ?thesis using start(2) by (auto simp: set_thread_def)
next
  case (finish m i)
  have e: "epoch_ok W key (store S) G" by (rule tickets_okD(1) [OF assms(3)])
  note drop = epoch_ok_drop [where W = W and key = key and B = "store S" and B' = "store S" and G = G and m = m and i = i and g = None]
  have "tickets_ok etag W key S' (set_ghost m i None G)"
    unfolding finish(2) using drop(1) e by (intro tickets_set [OF assms(3)]) simp_all
  then show ?thesis using finish(2) drop(2) by (auto simp: set_thread_def)
next
  case (halt m)
  let ?G = "G(m := (\<lambda>_. None))"
  have "epoch_ok W key (store S) ?G"
    using assms(3) unfolding tickets_ok_def epoch_ok_def by (auto split: if_splits)
  then have "tickets_ok etag W key S' ?G" using assms(3) halt(2) unfolding tickets_ok_def by auto
  then show ?thesis using halt(2) by (intro exI [of _ ?G]) (auto simp: given_def)
qed (use assms(3) in \<open>auto simp: tickets_ok_def intro!: exI [of _ G]\<close>)

lemma run_tickets:
  assumes "reachable_while (counter_in_range W key) etag starts S S'" "epoch_laws W etag key" "tickets_ok etag W key S G"
  shows "\<exists>G'. tickets_ok etag W key S' G' \<and> (\<forall>n a. given W key n a (store S) G \<longrightarrow> given W key n a (store S') G')"
  using assms(1)
proof induction
  case (more S' x S'')
  then obtain G' where "tickets_ok etag W key S' G'" "\<And>n a. given W key n a (store S) G \<longrightarrow> given W key n a (store S') G'" by blast
  with step_tickets [OF more(2) assms(2) this(1) reachable_while_end [OF more(1)] more(3)] show ?case by blast
qed (use assms(3) in blast)

end

interpretation tickets: ticket_fleet etag W "owner_starts W" for etag W
  by unfold_locales (rule owner_starts_tickets)

subsection \<open>A fleet to run\<close>

text \<open>A thread that runs undisturbed from start to end, with the condition on the bucket checked at every point.\<close>

primrec run_all ::
  "('v objects \<Rightarrow> bool) \<Rightarrow> ('v \<Rightarrow> 'e) \<Rightarrow> time \<Rightarrow> ('v, 'e, 'w, 'r) prog \<Rightarrow> 'v objects \<Rightarrow> 'w \<Rightarrow> bool" where
  "run_all \<psi> etag now (Return r) B w = \<psi> B"
| "run_all \<psi> etag now (Get k c) B w = (\<psi> B \<and> run_all \<psi> etag now (c (bucket_get etag B k)) B w)"
| "run_all \<psi> etag now (Create k v c) B w =
     (\<psi> B \<and> (case bucket_create etag B k v of (x, B') \<Rightarrow> run_all \<psi> etag now (c x) B' w))"
| "run_all \<psi> etag now (CAS k v e c) B w =
     (\<psi> B \<and> (case bucket_cas etag B k v e of (x, B') \<Rightarrow> run_all \<psi> etag now (c x) B' w))"
| "run_all \<psi> etag now (CDelete k e c) B w =
     (\<psi> B \<and> (case bucket_cdelete etag B k e of (x, B') \<Rightarrow> run_all \<psi> etag now (c x) B' w))"
| "run_all \<psi> etag now (Put k v c) B w =
     (\<psi> B \<and> (case bucket_put etag B k v of (x, B') \<Rightarrow> run_all \<psi> etag now (c (Inr x)) B' w))"
| "run_all \<psi> etag now (Delete k c) B w = (\<psi> B \<and> run_all \<psi> etag now (c (Inr ())) (bucket_delete B k) w)"
| "run_all \<psi> etag now (ListKeys p c) B w = (\<psi> B \<and> run_all \<psi> etag now (c (Inr (bucket_list B p))) B w)"
| "run_all \<psi> etag now (Local u c) B w = (\<psi> B \<and> run_all \<psi> etag now (c now w) B (u now w))"

lemma reachable_while_trans:
  "reachable_while \<phi> etag starts S' S'' \<Longrightarrow> reachable_while \<phi> etag starts S S' \<Longrightarrow> reachable_while \<phi> etag starts S S''"
  by (induction rule: reachable_while.induct) (auto intro: reachable_while.more)

lemma step_while: "\<phi> S \<Longrightarrow> step etag starts x S S' \<Longrightarrow> \<phi> S' \<Longrightarrow> reachable_while \<phi> etag starts S S'"
  by (rule reachable_while.more [OF reachable_while.init])

lemma run_all_start: "run_all \<psi> etag now p B w \<Longrightarrow> \<psi> B"
  by (cases p) auto

lemma run_all_bind:
  "run_all \<psi> etag now (bind p f) B w \<longleftrightarrow>
     run_all \<psi> etag now p B w \<and> (case run etag now p B w of (r, B', w') \<Rightarrow> run_all \<psi> etag now (f r) B' w')"
proof (induction p arbitrary: B w)
  case (Local u c)
  then show ?case using Local.IH [OF rangeI rangeI] by simp
qed (auto split: prod.split dest: run_all_start)

lemma run_while_call:
  assumes "threads S m i = Some p" "bucket_call etag (store S) p B1 p1" "\<psi> (store S)"
    and "run etag (clock S) p1 B1 (memory S m) = (r, B', w')" "run_all \<psi> etag (clock S) p1 B1 (memory S m)"
    and IH: "\<And>S. threads S m i = Some p1 \<Longrightarrow> run etag (clock S) p1 (store S) (memory S m) = (r, B', w') \<Longrightarrow>
      run_all \<psi> etag (clock S) p1 (store S) (memory S m) \<Longrightarrow>
      reachable_while (\<lambda>S. \<psi> (store S)) etag starts S (after_run m i r B' w' S)"
  shows "reachable_while (\<lambda>S. \<psi> (store S)) etag starts S (after_run m i r B' w' S)"
proof -
  let ?S = "set_thread m i (Some p1) (S\<lparr>store := B1\<rparr>)"
  have "reachable_while (\<lambda>S. \<psi> (store S)) etag starts ?S (after_run m i r B' w' ?S)" using assms(4,5) by (intro IH) simp_all
  moreover have "after_run m i r B' w' ?S = after_run m i r B' w' S" by (simp add: after_run_def set_thread_def)
  moreover have "reachable_while (\<lambda>S. \<psi> (store S)) etag starts S ?S"
    using run_all_start [OF assms(5)] assms(3) by (intro step_while [OF _ step.call [OF assms(1,2)]]) simp_all
  ultimately show ?thesis by (auto intro: reachable_while_trans)
qed

lemma run_while:
  "threads S m i = Some p \<Longrightarrow> run etag (clock S) p (store S) (memory S m) = (r, B', w') \<Longrightarrow>
   run_all \<psi> etag (clock S) p (store S) (memory S m) \<Longrightarrow>
   reachable_while (\<lambda>S. \<psi> (store S)) etag starts S (after_run m i r B' w' S)"
proof (induction p arbitrary: S)
  case (Return x)
  then have "after_run m i r B' w' S = S" by (cases S) (auto simp: after_run_def set_thread_def fun_eq_iff)
  with Return show ?case by (auto intro: reachable_while.init)
next
  case (Local u c)
  let ?S = "set_thread m i (Some (c (clock S) (memory S m))) (S\<lparr>memory := (memory S)(m := u (clock S) (memory S m))\<rparr>)"
  have "reachable_while (\<lambda>S. \<psi> (store S)) etag starts ?S (after_run m i r B' w' ?S)"
    by (rule Local.IH [OF rangeI rangeI]) (use Local.prems in auto)
  moreover have "after_run m i r B' w' ?S = after_run m i r B' w' S" by (simp add: after_run_def set_thread_def)
  moreover have "reachable_while (\<lambda>S. \<psi> (store S)) etag starts S ?S"
    using Local.prems(3) by (intro step_while [OF _ step.local [OF Local.prems(1)]]) simp_all
  ultimately show ?case by (auto intro: reachable_while_trans)
next
  case (Get k c)
  then show ?case by (intro run_while_call [OF Get.prems(1) bucket_call.get _ _ _ Get.IH [OF rangeI]]) simp_all
next
  case (Create k v c)
  obtain x B1 where x: "bucket_create etag (store S) k v = (x, B1)" by fastforce
  with Create.prems show ?case
    by (intro run_while_call [OF Create.prems(1) bucket_call.create [OF x] _ _ _ Create.IH [OF rangeI]]) simp_all
next
  case (CAS k v e c)
  obtain x B1 where x: "bucket_cas etag (store S) k v e = (x, B1)" by fastforce
  with CAS.prems show ?case
    by (intro run_while_call [OF CAS.prems(1) bucket_call.cas [OF x] _ _ _ CAS.IH [OF rangeI]]) simp_all
next
  case (CDelete k e c)
  obtain x B1 where x: "bucket_cdelete etag (store S) k e = (x, B1)" by fastforce
  with CDelete.prems show ?case
    by (intro run_while_call [OF CDelete.prems(1) bucket_call.cdelete [OF x] _ _ _ CDelete.IH [OF rangeI]]) simp_all
next
  case (Put k v c)
  then show ?case
    by (intro run_while_call [OF Put.prems(1) bucket_call.put _ _ _ Put.IH [OF rangeI]])
       (simp_all add: bucket_put_def fun_upd_def)
next
  case (Delete k c)
  then show ?case
    by (intro run_while_call [OF Delete.prems(1) bucket_call.delete _ _ _ Delete.IH [OF rangeI]])
       (simp_all add: bucket_delete_def fun_upd_def)
next
  case (ListKeys p c)
  then show ?case by (intro run_while_call [OF ListKeys.prems(1) bucket_call.list _ _ _ ListKeys.IH [OF rangeI]]) simp_all
qed

text \<open>One manager, an empty bucket, and objects that are the records they hold.\<close>

datatype demo_object = DemoLease NodeLease | DemoOwner Owner | DemoText string

definition demo_wire :: "demo_object wire" where
  "demo_wire =
     \<lparr>wLease = \<lparr>marshal = DemoLease, unmarshal = (\<lambda>v. case v of DemoLease l \<Rightarrow> Some l | _ \<Rightarrow> None)\<rparr>,
      wOwner = \<lparr>marshal = DemoOwner, unmarshal = (\<lambda>v. case v of DemoOwner x \<Rightarrow> Some x | _ \<Rightarrow> None)\<rparr>,
      wText = \<lparr>marshal = DemoText, unmarshal = (\<lambda>v. case v of DemoText x \<Rightarrow> Some x | _ \<Rightarrow> None)\<rparr>\<rparr>"

lemma demo_wire_laws: "lawful (wLease demo_wire)" "lawful (wOwner demo_wire)" "lawful (wText demo_wire)"
  by (simp_all add: lawful_def demo_wire_def)

lemma demo_wire_simps [simp]:
  "marshal (wOwner demo_wire) = DemoOwner" "unmarshal (wOwner demo_wire) (DemoOwner x) = Some x"
  by (simp_all add: demo_wire_def)

definition demo_manager :: OManager where
  "demo_manager = \<lparr>LNodeID = ''a'', LSessionID = ''s1'', LAdvert = [], LPeerURL = [], LAZ = [], LTTL = 10000000000, LInstance = ''i1'',
     WithLease = True, Advertise = ''h:1'', AdminAdvertise = [], MRole = ''cell'', OwnerTTL = 10000000000, MapOrder = (\<lambda>_ ks. ks)\<rparr>"

definition demo_mem :: "'e owner_mem" where
  "demo_mem = \<lparr>publishedExpiry = None, fenced = False, publishedETag = None, cached = None, cachedAt = 0, refreshing = False,
     retryAt = 0, observed = Map.empty, knownRunning = False, ocache = [], cacheRev = [], cacheRevAt = Map.empty, cacheEpoch = 0,
     cachePending = (\<lambda>_. 0), guards = (\<lambda>_. 0), routes = [], routeFlights = Map.empty, flights = Map.empty, newFlight = 0,
     releasing = (\<lambda>_. 0), claims = (\<lambda>_. False), owned = [], lastTouch = Map.empty, epochBumps = 0, takeoverSuccess = 0,
     takeoverFailed = 0, takeoverBlocked = 0\<rparr>"

definition demo_fleet :: "(demo_object, demo_object, demo_object owner_mem, unit, OManager) system" where
  "demo_fleet = \<lparr>clock = 0, store = Map.empty, life = (\<lambda>_. Unborn), memory = (\<lambda>_. demo_mem), threads = (\<lambda>_ _. None)\<rparr>"

abbreviation demo_scope :: Scope where
  "demo_scope \<equiv> DOScope ''n'' ''w'' ''C'' 0"

definition demo_record :: "int \<Rightarrow> Owner" where
  "demo_record expiry = \<lparr>Node = ''n1'', Role = ''do'', Session = ''s1'', Epoch = 1, Expiry = expiry, Liveness = [],
     Address = ''h:2'', AdminAddress = [], OwnerProto = ProtoVersion\<rparr>"

abbreviation demo_counted :: "demo_object objects \<Rightarrow> bool" where
  "demo_counted B \<equiv> gen_at demo_wire B (ScopeKey demo_scope) \<notin> {Some 0, Some (-1)}"

abbreviation demo_bucket :: "int \<Rightarrow> demo_object objects" where
  "demo_bucket expiry \<equiv> [genKey demo_scope \<mapsto> gen_body demo_wire 1, OwnerKey demo_scope \<mapsto> DemoOwner (demo_record expiry)]"

lemma demo_keys [simp]: "genKey s \<noteq> OwnerKey s'" "OwnerKey s' \<noteq> genKey s"
proof -
  have "own_stem (genKey s) \<noteq> own_stem (OwnerKey s')" by simp
  then show "genKey s \<noteq> OwnerKey s'" "OwnerKey s' \<noteq> genKey s" by metis+
qed

lemma demo_gen_at: "gen_at W B (ScopeKey s) = (case B (genKey s) of None \<Rightarrow> None | Some v \<Rightarrow> gen_of W v)"
  by (simp add: gen_at_def genKey_def split: option.split)

lemma demo_rec_at: "rec_at W B (ScopeKey s) = (case B (OwnerKey s) of None \<Rightarrow> None | Some v \<Rightarrow> unmarshal (wOwner W) v)"
  by (simp add: rec_at_def OwnerKey_def split: option.split)

lemma demo_one: "gen_of demo_wire (gen_body demo_wire 1) = Some 1"
  by (simp add: demo_wire_laws gen_of_body)

lemma nextEpoch_fresh:
  assumes "B (genKey s) = None"
  shows "run etag now (nextEpoch W s 0) B w = (Inr 1, B(genKey s \<mapsto> gen_body W 1), w\<lparr>epochBumps := epochBumps w + 1\<rparr>)"
    and "run_all \<psi> etag now (nextEpoch W s 0) B w \<longleftrightarrow> \<psi> B \<and> \<psi> (B(genKey s \<mapsto> gen_body W 1))"
proof -
  have n: "bump 8 W s 0 = bump (Suc 7) W s 0" for W :: "'a wire" by simp
  show "run etag now (nextEpoch W s 0) B w = (Inr 1, B(genKey s \<mapsto> gen_body W 1), w\<lparr>epochBumps := epochBumps w + 1\<rparr>)"
    "run_all \<psi> etag now (nextEpoch W s 0) B w \<longleftrightarrow> \<psi> B \<and> \<psi> (B(genKey s \<mapsto> gen_body W 1))"
    using assms unfolding nextEpoch_def n bump.simps(2)
    by (auto simp: bucket_get_def bucket_create_def next_gen_def change_def atomically_def)
qed

lemma demo_claim_run:
  "\<exists>w. run id 0 (forget (ClaimAs demo_wire demo_manager demo_scope ''n1'' ''h:2'' ''do'' 0 0)) Map.empty w0 = ((), demo_bucket 10000, w)"
  "run_all demo_counted id 0 (forget (ClaimAs demo_wire demo_manager demo_scope ''n1'' ''h:2'' ''do'' 0 0)) Map.empty w0"
  by (simp_all add: forget_def ClaimAs_def Resolve_def attempt_def run_bind run_all_bind nextEpoch_fresh bucket_get_def bucket_create_def
      demo_gen_at demo_one Invalidate_def change_def Let_def ownerFor_def ttl_or_def demo_record_def atomically_def
      MarshalOwner_def ProtoVersion_def demo_manager_def UnixMilli_def)

lemma demo_renew_run:
  "\<exists>w. run id 0 (forget (RenewAs demo_wire demo_manager demo_scope ''n1'' 1 20000000000 0)) (demo_bucket 10000) w0 =
     ((), demo_bucket 20000, w)"
  "run_all demo_counted id 0 (forget (RenewAs demo_wire demo_manager demo_scope ''n1'' 1 20000000000 0)) (demo_bucket 10000) w0"
  by (auto simp add: forget_def RenewAs_def Resolve_def attempt_def run_bind run_all_bind bucket_get_def bucket_cas_def
      demo_gen_at demo_one Let_def ttl_or_def demo_record_def MarshalOwner_def ProtoVersion_def demo_manager_def UnixMilli_def)

lemma counter_in_range_alt: "counter_in_range W key = (\<lambda>S. gen_at W (store S) key \<notin> {Some 0, Some (-1)})"
  by (auto simp: counter_in_range_def)

abbreviation demo_reachable where
  "demo_reachable \<equiv> reachable_while (counter_in_range demo_wire (ScopeKey demo_scope)) id (owner_starts demo_wire)"

lemma demo_runs:
  "\<exists>S S'. demo_reachable demo_fleet S \<and> demo_reachable S S' \<and> store S = demo_bucket 10000 \<and> store S' = demo_bucket 20000"
proof -
  let ?m = demo_manager
  let ?claim = "forget (ClaimAs demo_wire ?m demo_scope ''n1'' ''h:2'' ''do'' 0 0) :: (_, _, demo_object owner_mem, _) prog"
  let ?renew = "forget (RenewAs demo_wire ?m demo_scope ''n1'' 1 20000000000 0) :: (_, _, demo_object owner_mem, _) prog"
  let ?S1 = "demo_fleet\<lparr>life := (life demo_fleet)(?m := Up)\<rparr>"
  let ?S2 = "set_thread ?m 1 (Some ?claim) ?S1"
  have e: "counter_in_range demo_wire (ScopeKey demo_scope) S" if "store S = Map.empty" for S :: "(demo_object, demo_object, demo_object owner_mem, unit, OManager) system"
    using that by (simp add: counter_in_range_def gen_at_def)
  have "demo_reachable demo_fleet ?S1"
    by (intro step_while [OF _ step.boot] owner_starts.boot e) (simp_all add: demo_fleet_def demo_manager_def)
  moreover have "demo_reachable ?S1 ?S2"
    unfolding One_nat_def
    by (intro step_while [OF _ step.start] owner_starts.claim_as e) (simp_all add: demo_fleet_def)
  ultimately have r2: "demo_reachable demo_fleet ?S2" by (rule reachable_while_trans [rotated])
  obtain w where w: "run id 0 ?claim Map.empty demo_mem = ((), demo_bucket 10000, w)" using demo_claim_run(1) by blast
  let ?S3 = "after_run ?m 1 () (demo_bucket 10000) w ?S2"
  have "demo_reachable ?S2 ?S3"
    unfolding counter_in_range_alt
    by (rule run_while [where etag = id and \<psi> = demo_counted and p = ?claim])
       (use w demo_claim_run(2) in \<open>simp_all add: demo_fleet_def\<close>)
  then have r3: "demo_reachable demo_fleet ?S3" using r2 by (rule reachable_while_trans)
  let ?S4 = "set_thread ?m 2 (Some ?renew) ?S3"
  have c: "counter_in_range demo_wire (ScopeKey demo_scope) S" if "store S = demo_bucket x" for S :: "(demo_object, demo_object, demo_object owner_mem, unit, OManager) system" and x
    using that by (simp add: counter_in_range_def demo_gen_at demo_one)
  have r4: "demo_reachable ?S3 ?S4"
    unfolding numeral_2_eq_2
    by (intro step_while [OF _ step.start] owner_starts.renew_as c) (simp_all add: demo_fleet_def after_run_def)
  obtain w' where w': "run id 0 ?renew (demo_bucket 10000) w = ((), demo_bucket 20000, w')" using demo_renew_run(1) by blast
  let ?S5 = "after_run ?m 2 () (demo_bucket 20000) w' ?S4"
  have "demo_reachable ?S4 ?S5"
    unfolding counter_in_range_alt
    by (rule run_while [where etag = id and \<psi> = demo_counted and p = ?renew])
       (use w' demo_renew_run(2) in \<open>simp_all add: demo_fleet_def after_run_def\<close>)
  then have "demo_reachable ?S3 ?S5" using r4 by (rule reachable_while_trans)
  with r3 show ?thesis by (intro exI [of _ ?S3] exI [of _ ?S5]) (simp add: after_run_def)
qed

subsection \<open>Properties\<close>

text \<open>C37: Whatever the interleaving of claims, renewals, releases, crashes, failed calls and lost answers of the fleet, as long
  as the generation counter of a scope does not run over, two owner records of the scope with the same epoch, read from
  the bucket at any two times, name the same node and session: an epoch is never reused.\<close>

theorem epoch_identifies_owner:
  assumes "inj etag" "lawful (wOwner W)" "lawful (wText W)" "idle S\<^sub>0"
    and start: "\<And>r. rec_at W (store S\<^sub>0) (ScopeKey s) = Some r \<Longrightarrow> \<exists>g. gen_at W (store S\<^sub>0) (ScopeKey s) = Some g \<and> Epoch r \<le> g"
    and run: "reachable_while (counter_in_range W (ScopeKey s)) etag (owner_starts W) S\<^sub>0 S"
      "reachable_while (counter_in_range W (ScopeKey s)) etag (owner_starts W) S S'"
    and recs: "rec_at W (store S) (ScopeKey s) = Some r" "rec_at W (store S') (ScopeKey s) = Some r'" "Epoch r = Epoch r'"
  shows "Node r = Node r' \<and> Session r = Session r'"
proof -
  let ?k = "ScopeKey s"
  have laws: "epoch_laws W etag ?k" using assms(1-3) by (simp add: epoch_laws_def ScopeKey_def)
  have "tickets_ok etag W ?k S\<^sub>0 (\<lambda>_ _. None)"
    using assms(4) start by (simp add: tickets_ok_def epoch_ok_def idle_def)
  from tickets.run_tickets [OF run(1) laws this] obtain G where G: "tickets_ok etag W ?k S G" by blast
  have "given W ?k (Epoch r) (Node r, Session r) (store S) G"
    using epoch_okD [OF tickets_okD(1) [OF G]] recs(1) unfolding given_def by fastforce
  with tickets.run_tickets [OF run(2) laws G] obtain G'
    where "tickets_ok etag W ?k S' G'" "given W ?k (Epoch r) (Node r, Session r) (store S') G'" by blast
  with recs(2,3) show ?thesis by (simp add: given_def)
qed

theorem epoch_identifies_owner_witness:
  "\<exists>S S' r r'. demo_reachable demo_fleet S \<and> demo_reachable S S'
     \<and> rec_at demo_wire (store S) (ScopeKey demo_scope) = Some r \<and> rec_at demo_wire (store S') (ScopeKey demo_scope) = Some r'
     \<and> r \<noteq> r' \<and> Epoch r = Epoch r' \<and> Node r = Node r' \<and> Session r = Session r'"
proof -
  obtain S S' where S: "demo_reachable demo_fleet S" "demo_reachable S S'" "store S = demo_bucket 10000" "store S' = demo_bucket 20000"
    using demo_runs by blast
  let ?r = "demo_record 10000" and ?r' = "demo_record 20000"
  have r: "rec_at demo_wire (store S) (ScopeKey demo_scope) = Some ?r" "rec_at demo_wire (store S') (ScopeKey demo_scope) = Some ?r'"
    by (simp_all add: demo_rec_at S)
  have "Node ?r = Node ?r' \<and> Session ?r = Session ?r'"
    by (rule epoch_identifies_owner [OF _ demo_wire_laws(2,3) _ _ S(1,2) r])
       (simp_all add: demo_fleet_def idle_def demo_rec_at demo_record_def)
  with S(1,2) r show ?thesis by (intro exI [of _ S] exI [of _ S'] exI [of _ ?r] exI [of _ ?r']) (simp add: demo_record_def)
qed

end
