(* ===== verification/OwnerGuard.thy ===== *)
theory OwnerGuard
  imports OwnerEpoch
begin

text \<open>
  What the handlers of the owner manager do to one scope, as a logic with ghost values: what a thread has learned from
  the bucket about other sessions, whether it is inside a release, and which lookup it leads. A claim replaces
  another session's record only after it has read that the session has no live lease, a release deletes the record
  only while the scope is marked as being released, and a route is kept only if nothing was invalidated since its
  lookup began. \<open>LocalRead\<close> puts the handlers together.
\<close>

subsection \<open>The logic of one scope\<close>

text \<open>All statements are about one scope, named by its string \<open>ks\<close>.\<close>

definition own_key :: "string \<Rightarrow> string" where
  "own_key ks = ''cells/'' @ ks @ ''/owner.json''"

lemma OwnerKey_own [simp]: "OwnerKey s = own_key ks \<longleftrightarrow> ScopeString s = ks"
  by (simp add: OwnerKey_def own_key_def ScopeKey_def)

lemma own_key_protocol [simp]: "protocol_key (own_key ks)"
  by (simp add: own_key_def protocol_key_def HasSuffix_def)

lemma own_key_other [simp]: "genKey s \<noteq> own_key ks" "LeaseKey n \<noteq> own_key ks" "own_key ks \<noteq> LeaseKey n"
proof -
  have "\<not> HasPrefix (LeaseKey n) ''cells/''" by (simp add: LeaseKey_def)
  moreover have "HasPrefix (own_key ks) ''cells/''" by (simp add: own_key_def)
  ultimately show "LeaseKey n \<noteq> own_key ks" "own_key ks \<noteq> LeaseKey n" by metis+
  have "own_stem (own_key ks) \<noteq> None" by (simp add: stem_def own_key_def HasSuffix_def)
  then show "genKey s \<noteq> own_key ks" using stem_genKey(2) [of s] by metis
qed

definition owner_ident :: "Owner \<Rightarrow> string \<times> string" where
  "owner_ident r = (Node r, Session r)"

text \<open>What a thread knows: a time that has passed, sessions that have published a lease, sessions whose lease has
  lapsed, whether it is inside a release of the scope, and the lookup it leads: its revision and the
  record it has read.\<close>

record guard_ghost =
  gNow :: time
  gPub :: "(string \<times> string) set"
  gLap :: "(string \<times> string) set"
  gRel :: bool
  gFl :: "(nat \<times> Owner option) option"

text \<open>A read of the lease of a node that shows session \<open>X\<close> without a live lease.\<close>

definition no_lease :: "'v wire \<Rightarrow> time \<Rightarrow> 'v outcome \<Rightarrow> string \<times> string \<Rightarrow> bool" where
  "no_lease W now out X \<longleftrightarrow>
     (case out of
        Failed err \<Rightarrow> err = ErrNotFound
      | Body v \<Rightarrow> \<not> (\<exists>l. unmarshal (wLease W) v = Some l \<and> NLSession l = snd X \<and> LeaseLive l now)
      | Done \<Rightarrow> False)"

definition learn :: "'v wire \<Rightarrow> string \<Rightarrow> guard_ghost \<Rightarrow> string \<Rightarrow> 'v outcome \<Rightarrow> guard_ghost" where
  "learn W ks g k out =
     (if k = own_key ks
      then (case out of
              Body v \<Rightarrow>
                (case unmarshal (wOwner W) v of
                   None \<Rightarrow> g
                 | Some r \<Rightarrow> g\<lparr>gPub := insert (owner_ident r) (gPub g), gFl := map_option (\<lambda>(rv, _). (rv, Some r)) (gFl g)\<rparr>)
            | _ \<Rightarrow> g)
      else g\<lparr>gLap := gLap g \<union> {X \<in> gPub g. k = LeaseKey (fst X) \<and> no_lease W (gNow g) out X}\<rparr>)"

text \<open>The record a claim writes: the session's own, once the session has published a lease.\<close>

definition own_write :: "'v wire \<Rightarrow> 'y LManager_scheme \<Rightarrow> guard_ghost \<Rightarrow> 'v \<Rightarrow> bool" where
  "own_write W m g v \<longleftrightarrow>
     ident m \<in> gPub g \<and> (\<exists>r. v = marshal (wOwner W) r \<and> owner_ident r = ident m \<and> Liveness r = node_lease)"

definition takes_over :: "'v wire \<Rightarrow> guard_ghost \<Rightarrow> 'v \<Rightarrow> bool" where
  "takes_over W g u \<longleftrightarrow> (\<exists>r. unmarshal (wOwner W) u = Some r \<and> (Liveness r = node_lease \<longrightarrow> owner_ident r \<in> gLap g))"

definition same_owner :: "'v wire \<Rightarrow> 'v \<Rightarrow> 'v \<Rightarrow> bool" where
  "same_owner W u v \<longleftrightarrow>
     (\<exists>r0 r. unmarshal (wOwner W) u = Some r0 \<and> v = marshal (wOwner W) r \<and> owner_ident r = owner_ident r0
        \<and> Epoch r = Epoch r0 \<and> Liveness r = Liveness r0)"

definition owned_by :: "'v wire \<Rightarrow> 'y LManager_scheme \<Rightarrow> 'v \<Rightarrow> bool" where
  "owned_by W m u \<longleftrightarrow> (\<exists>r. unmarshal (wOwner W) u = Some r \<and> owner_ident r = ident m)"

text \<open>The memory of a manager, as far as it concerns the scope: nothing happens, a lookup starts, it ends, the
  scope is invalidated for a release.\<close>

definition routes_from :: "string \<Rightarrow> ('e, 'x) owner_mem_scheme \<Rightarrow> ('e, 'x) owner_mem_scheme \<Rightarrow> bool" where
  "routes_from ks w w' \<longleftrightarrow>
     (\<forall>c'. map_of (routes w') ks = Some c' \<longrightarrow>
        (\<exists>c. map_of (routes w) ks = Some c \<and> rtOwner c' = rtOwner c \<and> rtLocal c' = rtLocal c))"

definition mem_still :: "string \<Rightarrow> ('e, 'x) owner_mem_scheme \<Rightarrow> ('e, 'x) owner_mem_scheme \<Rightarrow> bool" where
  "mem_still ks w w' \<longleftrightarrow>
     routeFlights w' ks = routeFlights w ks \<and> releasing w' ks = releasing w ks \<and> routes_from ks w w'
     \<and> (routeFlights w ks \<noteq> None \<longrightarrow> rev_of w ks \<le> rev_of w' ks)"

definition flight_start :: "string \<Rightarrow> nat \<Rightarrow> ('e, 'x) owner_mem_scheme \<Rightarrow> ('e, 'x) owner_mem_scheme \<Rightarrow> bool" where
  "flight_start ks rv w w' \<longleftrightarrow>
     routeFlights w ks = None \<and> routeFlights w' ks \<noteq> None \<and> rev_of w' ks = rv \<and> releasing w' ks = releasing w ks
     \<and> routes_from ks w w'"

definition flight_end ::
  "string \<Rightarrow> 'y LManager_scheme \<Rightarrow> nat \<Rightarrow> Owner option \<Rightarrow> ('e, 'x) owner_mem_scheme \<Rightarrow> ('e, 'x) owner_mem_scheme \<Rightarrow> bool" where
  "flight_end ks m rv ro w w' \<longleftrightarrow>
     rev_of w' ks = rev_of w ks \<and> releasing w' ks = releasing w ks
     \<and> (\<forall>c'. map_of (routes w') ks = Some c' \<longrightarrow>
          (\<exists>c. map_of (routes w) ks = Some c \<and> rtOwner c' = rtOwner c \<and> rtLocal c' = rtLocal c)
          \<or> rev_of w ks = rv \<and> ro = Some (rtOwner c'))"

definition moves_on :: "string \<Rightarrow> ('e, 'x) owner_mem_scheme \<Rightarrow> ('e, 'x) owner_mem_scheme \<Rightarrow> bool" where
  "moves_on ks w w' \<longleftrightarrow>
     map_of (routes w') ks = None \<and> routeFlights w' ks = routeFlights w ks
     \<and> (routeFlights w ks \<noteq> None \<longrightarrow> rev_of w ks < rev_of w' ks)"

definition guard_section ::
  "string \<Rightarrow> 'y LManager_scheme \<Rightarrow> guard_ghost \<Rightarrow> ('e, 'x) owner_mem_scheme \<Rightarrow> ('e, 'x) owner_mem_scheme \<Rightarrow> guard_ghost \<Rightarrow> bool" where
  "guard_section ks m g w w' g' \<longleftrightarrow>
     mem_still ks w w' \<and> g' = g
     \<or> gFl g = None \<and> (\<exists>rv. flight_start ks rv w w' \<and> g' = g\<lparr>gFl := Some (rv, None)\<rparr>)
     \<or> (\<exists>rv ro. gFl g = Some (rv, ro) \<and> flight_end ks m rv ro w w' \<and> g' = g\<lparr>gFl := None\<rparr>)
     \<or> \<not> gRel g \<and> moves_on ks w w' \<and> releasing w' ks = releasing w ks + 1 \<and> g' = g\<lparr>gRel := True\<rparr>
     \<or> gRel g \<and> moves_on ks w w' \<and> releasing w' ks = releasing w ks - 1 \<and> g' = g\<lparr>gRel := False\<rparr>"

lemma guard_sectionI:
  "mem_still ks w w' \<Longrightarrow> guard_section ks m g w w' g"
  "gFl g = None \<Longrightarrow> flight_start ks rv w w' \<Longrightarrow> guard_section ks m g w w' (g\<lparr>gFl := Some (rv, None)\<rparr>)"
  "gFl g = Some (rv, ro) \<Longrightarrow> flight_end ks m rv ro w w' \<Longrightarrow> guard_section ks m g w w' (g\<lparr>gFl := None\<rparr>)"
  "\<not> gRel g \<Longrightarrow> moves_on ks w w' \<Longrightarrow> releasing w' ks = releasing w ks + 1 \<Longrightarrow> guard_section ks m g w w' (g\<lparr>gRel := True\<rparr>)"
  "gRel g \<Longrightarrow> moves_on ks w w' \<Longrightarrow> releasing w' ks = releasing w ks - 1 \<Longrightarrow> guard_section ks m g w w' (g\<lparr>gRel := False\<rparr>)"
  unfolding guard_section_def by blast+

definition guard_logic ::
  "'v wire \<Rightarrow> ('v \<Rightarrow> 'e) \<Rightarrow> 'y LManager_scheme \<Rightarrow> string \<Rightarrow> ('v, 'e, ('e, 'x) owner_mem_scheme, guard_ghost) logic" where
  "guard_logic W etag m ks =
     \<lparr>may = (\<lambda>g rq. key_of rq = own_key ks \<longrightarrow> (case rq of
         RGet k \<Rightarrow> True
       | RCreate k v \<Rightarrow> own_write W m g v
       | RCAS k v e \<Rightarrow> (\<forall>u. etag u = e \<longrightarrow> own_write W m g v \<and> takes_over W g u \<or> same_owner W u v)
       | RCDelete k e \<Rightarrow> gRel g \<and> (\<forall>u. etag u = e \<longrightarrow> owned_by W m u)
       | RPut k v \<Rightarrow> False
       | RDelete k \<Rightarrow> False)),
      post = (\<lambda>g rq out. case rq of RGet k \<Rightarrow> learn W ks g k out | _ \<Rightarrow> g),
      section_ok = (\<lambda>g t w w' g'. guard_section ks m g w w' g')\<rparr>"

lemma guard_logic_simps [simp]:
  "may (guard_logic W etag m ks) g (RGet k)"
  "may (guard_logic W etag m ks) g (RCreate k v) \<longleftrightarrow> (k = own_key ks \<longrightarrow> own_write W m g v)"
  "may (guard_logic W etag m ks) g (RCAS k v e) \<longleftrightarrow>
     (k = own_key ks \<longrightarrow> (\<forall>u. etag u = e \<longrightarrow> own_write W m g v \<and> takes_over W g u \<or> same_owner W u v))"
  "may (guard_logic W etag m ks) g (RCDelete k e) \<longleftrightarrow> (k = own_key ks \<longrightarrow> gRel g \<and> (\<forall>u. etag u = e \<longrightarrow> owned_by W m u))"
  "may (guard_logic W etag m ks) g (RPut k v) \<longleftrightarrow> k \<noteq> own_key ks"
  "may (guard_logic W etag m ks) g (RDelete k) \<longleftrightarrow> k \<noteq> own_key ks"
  "post (guard_logic W etag m ks) g (RGet k) out = learn W ks g k out"
  "post (guard_logic W etag m ks) g (RCreate k v) out = g"
  "post (guard_logic W etag m ks) g (RCAS k v e) out = g"
  "post (guard_logic W etag m ks) g (RCDelete k e) out = g"
  "post (guard_logic W etag m ks) g (RPut k v) out = g"
  "post (guard_logic W etag m ks) g (RDelete k) out = g"
  "section_ok (guard_logic W etag m ks) g t w w' g' \<longleftrightarrow> guard_section ks m g w w' g'"
  by (simp_all add: guard_logic_def)

subsection \<open>Handlers that leave the scope alone\<close>

text \<open>\<open>still b ks p\<close>: the handler does not write the record of the scope, and reads it only if \<open>b\<close>.\<close>

primrec still :: "bool \<Rightarrow> string \<Rightarrow> ('v, 'e, ('e, 'x) owner_mem_scheme, 'r) prog \<Rightarrow> bool" where
  "still b ks (Return r) = True"
| "still b ks (Get k c) = ((b \<or> k \<noteq> own_key ks) \<and> (\<forall>x. still b ks (c x)))"
| "still b ks (Create k v c) = (k \<noteq> own_key ks \<and> (\<forall>x. still b ks (c x)))"
| "still b ks (CAS k v e c) = (k \<noteq> own_key ks \<and> (\<forall>x. still b ks (c x)))"
| "still b ks (CDelete k e c) = (k \<noteq> own_key ks \<and> (\<forall>x. still b ks (c x)))"
| "still b ks (Put k v c) = (k \<noteq> own_key ks \<and> (\<forall>x. still b ks (c x)))"
| "still b ks (Delete k c) = (k \<noteq> own_key ks \<and> (\<forall>x. still b ks (c x)))"
| "still b ks (ListKeys p c) = (\<forall>x. still b ks (c x))"
| "still b ks (Local u c) = (\<forall>t w. mem_still ks w (u t w) \<and> still b ks (c t w))"

lemma still_bind: "still b ks p \<Longrightarrow> (\<And>r. still b ks (f r)) \<Longrightarrow> still b ks (bind p f)"
  by (induction p) auto

lemma still_attempt: "still b ks p \<Longrightarrow> (\<And>x. still b ks (f x)) \<Longrightarrow> still b ks (attempt p f)"
  by (auto simp: attempt_def intro!: still_bind split: sum.split)

lemma still_forget [simp]: "still b ks p \<Longrightarrow> still b ks (forget p)"
  by (simp add: forget_def still_bind)

lemma still_weaken: "still False ks p \<Longrightarrow> still b ks p"
  by (induction p) auto

lemma mem_still_refl [simp]: "mem_still ks w w"
  by (simp add: mem_still_def routes_from_def)

lemma mem_quiet_still: "mem_quiet w w' \<Longrightarrow> mem_still ks w w'"
  unfolding mem_quiet_def mem_still_def routes_from_def by auto

lemma mem_stillI:
  "routeFlights w' = routeFlights w \<Longrightarrow> releasing w' = releasing w \<Longrightarrow> routes w' = routes w \<Longrightarrow> cacheRev w' = cacheRev w \<Longrightarrow>
   mem_still ks w w'"
  by (simp add: mem_quietI mem_quiet_still)

lemma quiet_still: "quiet p \<Longrightarrow> still True ks p"
  by (induction p) (auto intro: mem_quiet_still)

lemma still_sections [simp]:
  "still b ks (atomically f) \<longleftrightarrow> (\<forall>t w. mem_still ks w (snd (f t w)))"
  "still b ks (change u) \<longleftrightarrow> (\<forall>t w. mem_still ks w (u t w))"
  "still b ks now_is"
  by (simp_all add: atomically_def change_def now_is_def)

definition grows :: "guard_ghost \<Rightarrow> guard_ghost \<Rightarrow> bool" where
  "grows g g' \<longleftrightarrow> gNow g' = gNow g \<and> gRel g' = gRel g \<and> gFl g' = gFl g \<and> gPub g \<subseteq> gPub g' \<and> gLap g \<subseteq> gLap g'"

lemma grows_refl [simp]: "grows g g"
  by (simp add: grows_def)

lemma grows_trans: "grows g g' \<Longrightarrow> grows g' g'' \<Longrightarrow> grows g g''"
  by (auto simp: grows_def)

lemma grows_fl: "grows g g' \<Longrightarrow> gFl g' = gFl g"
  by (simp add: grows_def)

lemma learn_grows: "k \<noteq> own_key ks \<or> gFl g = None \<Longrightarrow> grows g (learn W ks g k out)"
  by (auto simp: learn_def grows_def split: outcome.split option.split)

lemma still_wp:
  "still b ks p \<Longrightarrow> (b \<Longrightarrow> gFl g = None) \<Longrightarrow> (\<And>r g'. grows g g' \<Longrightarrow> Q r g') \<Longrightarrow> wp (guard_logic W etag m ks) etag p Q g"
proof (induction p arbitrary: g)
  case (Get k c)
  have l: "grows g (learn W ks g k out)" for out using Get.prems(1,2) by (intro learn_grows) auto
  have "wp (guard_logic W etag m ks) etag (c x) Q (learn W ks g k out)" for x out
  proof (rule Get.IH [OF rangeI])
    show "still b ks (c x)" using Get.prems(1) by simp
    show "b \<Longrightarrow> gFl (learn W ks g k out) = None" using l [of out] Get.prems(2) by (simp add: grows_def)
    show "grows (learn W ks g k out) g' \<Longrightarrow> Q r g'" for r g' using l Get.prems(3) grows_trans by blast
  qed
  then show ?case by simp
next
  case (Local u c)
  have "wp (guard_logic W etag m ks) etag (c t w) Q g" for t w
    using Local.prems by (intro Local.IH [OF rangeI rangeI]) auto
  then show ?case using Local.prems(1) by (auto simp: guard_section_def)
qed (auto simp del: still.simps(1))

text \<open>What the critical sections of the owner manager do to the scope.\<close>

lemma rev_of_delete: "key \<noteq> k \<Longrightarrow> rev_of (dropRevLocked key w) k = rev_of w k"
  by (simp add: rev_of_def dropRevLocked_def)

lemma trim_mem:
  "routes (trimCachesLocked m t w) = routes w \<and> routeFlights (trimCachesLocked m t w) = routeFlights w
   \<and> releasing (trimCachesLocked m t w) = releasing w
   \<and> (routeFlights w ks \<noteq> None \<longrightarrow> rev_of (trimCachesLocked m t w) ks = rev_of w ks)"
proof -
  let ?same = "\<lambda>w w'. routes w' = routes w \<and> routeFlights w' = routeFlights w \<and> releasing w' = releasing w
    \<and> (routeFlights w ks \<noteq> None \<longrightarrow> rev_of w' ks = rev_of w ks)"
  have drop: "?same w (if \<not> cacheKeyActiveLocked w k \<and> b then dropRevLocked k w else w)" for k b and w :: "('a, 'b) owner_mem_scheme"
    by (cases "k = ks") (auto simp: cacheKeyActiveLocked_def rev_of_delete, simp_all add: dropRevLocked_def)
  have idle: "?same w (drop_idle t ks' w)" for t ks' and w :: "('a, 'b) owner_mem_scheme"
  proof (induction ks' arbitrary: w)
    case (Cons k ks')
    show ?case
      using Cons.IH [of "if \<not> cacheKeyActiveLocked w k \<and> idle_for t (cacheRevAt w k) then dropRevLocked k w else w"]
        drop [of w k "idle_for t (cacheRevAt w k)"] by (simp only: drop_idle.simps) presburger
  qed simp
  have excess: "?same w (drop_excess ks' w)" for ks' and w :: "('a, 'b) owner_mem_scheme"
  proof (induction ks' arbitrary: w)
    case (Cons k ks')
    show ?case
      using Cons.IH [of "if \<not> cacheKeyActiveLocked w k then dropRevLocked k w else w"] drop [of w k True]
      by (simp only: drop_excess.simps simp_thms split: if_split) presburger
  qed simp
  show ?thesis
    unfolding trimCachesLocked_def Let_def using idle excess by (simp add: rev_of_def)
qed

lemma trim_still [simp]: "mem_still ks w (trimCachesLocked m t w)"
  using trim_mem [where m = m and t = t and w = w and ks = ks] by (auto simp: mem_still_def routes_from_def)

lemma invalidate_mem:
  fixes w :: "('e, 'x) owner_mem_scheme"
  defines "w' \<equiv> \<lambda>m key t. invalidateLocked m key t w"
  shows "routeFlights (w' m key t) = routeFlights w" "releasing (w' m key t) = releasing w"
    "map_of (routes (w' m key t)) ks = (if ks = key then None else map_of (routes w) ks)"
    "routeFlights w ks \<noteq> None \<Longrightarrow> rev_of (w' m key t) ks = (if ks = key then rev_of w ks + 1 else rev_of w ks)"
proof -
  let ?w = "w\<lparr>ocache := AList.delete key (ocache w), routes := AList.delete key (routes w),
    cacheRev := AList.update key (rev_of w key + 1) (cacheRev w), cacheRevAt := (cacheRevAt w)(key \<mapsto> t)\<rparr>"
  note tr = trim_mem [where m = m and t = t and w = ?w and ks = ks]
  have r: "rev_of ?w ks = (if ks = key then rev_of w ks + 1 else rev_of w ks)" by (simp add: rev_of_def update_conv')
  show "routeFlights (w' m key t) = routeFlights w" "releasing (w' m key t) = releasing w"
    "map_of (routes (w' m key t)) ks = (if ks = key then None else map_of (routes w) ks)"
    "routeFlights w ks \<noteq> None \<Longrightarrow> rev_of (w' m key t) ks = (if ks = key then rev_of w ks + 1 else rev_of w ks)"
    using tr r unfolding w'_def invalidateLocked_def by (simp_all add: delete_conv')
qed

lemma invalidate_still [simp]: "mem_still ks w (invalidateLocked m key t w)"
  by (auto simp: mem_still_def routes_from_def invalidate_mem split: if_splits)

lemma rev_of_updates [simp]:
  "rev_of (w\<lparr>releasing := x\<rparr>) k = rev_of w k" "rev_of (w\<lparr>ocache := c\<rparr>) k = rev_of w k" "rev_of (w\<lparr>routes := rs\<rparr>) k = rev_of w k"
  "rev_of (w\<lparr>fenced := b\<rparr>) k = rev_of w k" "rev_of (w\<lparr>flights := fs\<rparr>) k = rev_of w k" "rev_of (w\<lparr>newFlight := n\<rparr>) k = rev_of w k"
  "rev_of (w\<lparr>routeFlights := rf\<rparr>) k = rev_of w k" "rev_of (w\<lparr>guards := gs\<rparr>) k = rev_of w k"
  by (simp_all add: rev_of_def)

lemma release_moves:
  "moves_on ks w (release_enter m ks t w)" "releasing (release_enter m ks t w) ks = releasing w ks + 1"
  "moves_on ks w (release_leave m ks t w)" "releasing (release_leave m ks t w) ks = releasing w ks - 1"
  "key \<noteq> ks \<Longrightarrow> mem_still ks w (release_enter m key t w)" "key \<noteq> ks \<Longrightarrow> mem_still ks w (release_leave m key t w)"
  by (auto simp: release_enter_def release_leave_def moves_on_def mem_still_def routes_from_def invalidate_mem)

lemma healthy_still [simp]:
  "mem_still ks w (snd (Healthy m now clk w))" "mem_still ks w (snd (HealthyUntil m clk w))"
  "mem_still ks w (expiredLocked t w)"
proof -
  obtain b b' where "snd (Healthy m now clk w) = w\<lparr>fenced := fenced w \<or> b\<rparr>" "snd (HealthyUntil m clk w) = w\<lparr>fenced := fenced w \<or> b'\<rparr>"
    using Healthy_mem HealthyUntil_mem by metis
  then show "mem_still ks w (snd (Healthy m now clk w))" "mem_still ks w (snd (HealthyUntil m clk w))"
    by (simp_all add: mem_stillI)
  show "mem_still ks w (expiredLocked t w)" by (rule mem_stillI) (simp_all add: expiredLocked_def)
qed

lemma known_read_still [simp]: "mem_still ks w (applyKnownRead node r started now w)"
  by (rule mem_stillI) (auto simp: applyKnownRead_def Let_def split: option.splits)

lemma merge_still [simp]: "mem_still ks w (mergeSampleLocked m sample started now w)"
  by (rule mem_stillI) (simp_all add: mergeSampleLocked_def Let_def split: prod.split)

lemma still_leaves [simp]:
  "still b ks (Invalidate m s)" "still b ks (Forget s epoch)" "still b ks (rememberOwned s epoch)" "still b ks (forgetOwned s)"
  "still b ks (unlockClaim key)" "still True ks (Resolve W s)" "still b ks (lockClaim n key)"
proof -
  show "still b ks (Invalidate m s)" "still b ks (Forget s epoch)" "still b ks (rememberOwned s epoch)" "still b ks (forgetOwned s)"
    "still b ks (unlockClaim key)" "still True ks (Resolve W s)"
    by (auto simp: Invalidate_def Forget_def rememberOwned_def forgetOwned_def unlockClaim_def Resolve_def
        intro!: still_bind mem_stillI split: option.split)
  show "still b ks (lockClaim n key)" by (induction n) (auto intro!: still_bind mem_stillI)
qed

lemma still_claimed [simp]: "still b ks (claimed m s o')"
  by (simp add: claimed_def still_bind)

lemma still_lease [simp]:
  "still b ks (NodeLeaseFresh J canceled node)" "still b ks (NodeLeaseOf J canceled node)" "still b ks p \<Longrightarrow> still b ks (lease_call p)"
  by (auto simp: NodeLeaseFresh_def NodeLeaseOf_def LeaseGet_def lease_call_def still_bind split: option.split)

lemma still_bump [simp]: "still b ks (bump n W s floor)"
  by (induction n) (auto simp: Let_def intro!: still_bind mem_stillI split: sum.split bucket_error.split option.split)

lemma still_publish [simp]: "still b ks (Publish J canceled m load)"
  by (auto simp: Publish_def Fenced_def publish_first_def publish_write_def publish_done_def Let_def
      intro!: still_bind mem_stillI split: option.split sum.split bucket_error.split) (simp_all add: expiredLocked_def)

lemma still_refresh [simp]: "still True ks (refresh J canceled m)"
proof -
  have l: "still True ks (sample_loop J keys :: ('v, 'e, ('e, 'x) owner_mem_ext, _) handler)" for J :: "(NodeLease, 'v) codec" and keys
    by (induction keys) (auto intro!: still_bind)
  have "mem_still ks w (mergeSampleLocked m sample started now (w\<lparr>refreshing := False\<rparr>)\<lparr>cachedAt := now\<rparr>)"
    for sample started now and w :: "('e, 'x) owner_mem_scheme"
    by (rule mem_stillI) (simp_all add: mergeSampleLocked_def Let_def split: prod.split)
  moreover have "mem_still ks w (w\<lparr>refreshing := False, retryAt := now\<rparr>)" for now and w :: "('e, 'x) owner_mem_scheme"
    by (rule mem_stillI) simp_all
  ultimately show ?thesis
    using l by (auto simp: refresh_def Sample_def intro!: still_bind split: sum.split)
qed

lemma still_known [simp]: "still b ks (RunKnownRefresh n late J m)"
proof -
  have "still b ks (refresh_nodes J l ns :: ('v, 'e, ('e, 'x) owner_mem_ext, _) handler)" for J :: "(NodeLease, 'v) codec" and l ns
    by (induction ns) (auto intro!: still_bind)
  then have "still b ks (known_ticks n late J m :: ('v, 'e, ('e, 'x) owner_mem_ext, _) handler)" for J :: "(NodeLease, 'v) codec" and n
    by (induction n) (auto simp: refreshKnown_def intro!: still_bind)
  then show ?thesis by (auto simp: RunKnownRefresh_def intro!: still_bind mem_stillI)
qed

lemma still_Live [simp]: "still b ks (Live W canceled m o' now)"
  by (auto simp: Live_def intro!: still_attempt)

lemma still_hooks:
  assumes "quiet_hooks H"
  shows "still True ks (hook (map_option (\<lambda>f. f s) (Reset H)))" "still True ks (hook (map_option (\<lambda>f. f cur) (BeforeTakeover H)))"
    "still True ks (hook (map_option (\<lambda>f. f s e) (BeforeRelease H)))" "still True ks (hook None)"
    "still True ks (touchOwnerSegment (Touch H) s now)"
proof -
  have hk: "still True ks (hook h)" if "\<And>p. h = Some p \<Longrightarrow> quiet p" for h
    using that by (auto simp: hook_def intro!: still_bind [OF quiet_still] split: option.split)
  note q = quiet_hooksD [OF assms]
  show "still True ks (hook (map_option (\<lambda>f. f s) (Reset H)))" "still True ks (hook (map_option (\<lambda>f. f cur) (BeforeTakeover H)))"
    "still True ks (hook (map_option (\<lambda>f. f s e) (BeforeRelease H)))" "still True ks (hook None)"
    by (intro hk; use q in auto)+
  show "still True ks (touchOwnerSegment (Touch H) s now)"
    using quiet_still [OF conjunct1 [OF q(4)]] by (auto simp: touchOwnerSegment_def Let_def intro!: still_bind mem_stillI split: option.split dest: quiet_still)
qed

lemma still_resolve_cached [simp]: "still True ks (ResolveCached W m s ttl)"
proof -
  have f: "mem_still ks w (finishResolveLocked key w)" for key and w :: "('e, 'x) owner_mem_scheme"
    by (rule mem_stillI) (simp_all add: finishResolveLocked_def)
  have "mem_still ks w (trimCachesLocked m t (finishResolveLocked key (w\<lparr>ocache := x\<rparr>)))" for t key x and w :: "('e, 'x) owner_mem_scheme"
    using trim_mem [where m = m and t = t and w = "finishResolveLocked key (w\<lparr>ocache := x\<rparr>)" and ks = ks]
    by (simp add: mem_still_def routes_from_def finishResolveLocked_def rev_of_def)
  moreover have "mem_still ks w (trimCachesLocked m t (finishResolveLocked key w))" for t key and w :: "('e, 'x) owner_mem_scheme"
    using trim_mem [where m = m and t = t and w = "finishResolveLocked key w" and ks = ks]
    by (simp add: mem_still_def routes_from_def finishResolveLocked_def rev_of_def)
  moreover have "mem_still ks w (w\<lparr>cachePending := x\<rparr>)" for x and w :: "('e, 'x) owner_mem_scheme"
    by (rule mem_stillI) simp_all
  ultimately show ?thesis
    using f by (auto simp: ResolveCached_def Let_def intro!: still_bind split: option.split sum.split)
qed

subsection \<open>The handlers obey\<close>

lemma wp_Local_still:
  "(\<And>t w. mem_still ks w (u t w)) \<Longrightarrow> (\<And>t w. wp (guard_logic W etag m ks) etag (c t w) Q g) \<Longrightarrow>
   wp (guard_logic W etag m ks) etag (Local u c) Q g"
  by (auto simp: guard_section_def)

lemma still_bind_wp:
  assumes "still b ks p" "b \<Longrightarrow> gFl g = None" "\<And>r g'. grows g g' \<Longrightarrow> wp (guard_logic W etag m ks) etag (f r) Q g'"
  shows "wp (guard_logic W etag m ks) etag (bind p f) Q g"
  unfolding wp_bind using assms by (rule still_wp)

lemma still_attempt_wp:
  assumes "still b ks p" "b \<Longrightarrow> gFl g = None" "\<And>x g'. grows g g' \<Longrightarrow> wp (guard_logic W etag m ks) etag (f x) Q g'"
    and "\<And>e g'. grows g g' \<Longrightarrow> Q (Inl e) g'"
  shows "wp (guard_logic W etag m ks) etag (attempt p f) Q g"
  unfolding wp_attempt using assms by (intro still_wp [OF assms(1,2)]) (auto split: sum.split)

text \<open>A point read that does not confirm a session shows that its lease has lapsed.\<close>

lemma fresh_read_wp:
  assumes "gNow g = now" "X \<in> gPub g"
    and "\<And>r g'. grows g g' \<Longrightarrow>
      (\<And>l. r = Inr l \<Longrightarrow> \<not> (case l of None \<Rightarrow> False | Some l \<Rightarrow> LeaseLive l now \<and> NLSession l = snd X) \<Longrightarrow> X \<in> gLap g') \<Longrightarrow> Q r g'"
  shows "wp (guard_logic W etag m ks) etag (NodeLeaseFresh (wLease W) canceled (fst X)) Q g"
proof -
  let ?g = "\<lambda>out. learn W ks g (LeaseKey (fst X)) out"
  have l: "grows g (?g out)" for out by (rule learn_grows) simp
  have lap: "X \<in> gLap (?g out)" if "no_lease W now out X" for out
    using that assms(1,2) by (auto simp: learn_def)
  have q: "Q r (?g out)"
    if "r = (case y of Inl (LeaseBucket ErrNotFound) \<Rightarrow> Inr None | Inl e \<Rightarrow> Inl e | Inr l \<Rightarrow> Inr (Some l))"
      "y = (case x of Inl e \<Rightarrow> Inl (LeaseBucket e)
         | Inr d \<Rightarrow> (case unmarshal (wLease W) d of None \<Rightarrow> Inl ErrLeaseDecode | Some l \<Rightarrow> Inr l))"
      "out = (case x of Inl e \<Rightarrow> Failed e | Inr d \<Rightarrow> Body d)" for r x y out
  proof (rule assms(3) [OF l])
    fix k
    assume "r = Inr k" "\<not> (case k of None \<Rightarrow> False | Some l \<Rightarrow> LeaseLive l now \<and> NLSession l = snd X)"
    then have "no_lease W now out X"
      using that by (auto simp: no_lease_def split: sum.splits option.splits bucket_error.splits lease_error.splits)
    then show "X \<in> gLap (?g out)" by (rule lap)
  qed
  let ?res = "\<lambda>y. case y of Inl (LeaseBucket ErrNotFound) \<Rightarrow> Inr None | Inl e \<Rightarrow> Inl e | Inr l \<Rightarrow> Inr (Some l)"
  have "wp (guard_logic W etag m ks) etag
      (Local (\<lambda>now w. if canceled then w else applyKnownRead (fst X) y t now w) (\<lambda>_ _. Return (?res y))) Q (?g out)"
    if "y = (case x of Inl e \<Rightarrow> Inl (LeaseBucket e)
         | Inr d \<Rightarrow> (case unmarshal (wLease W) d of None \<Rightarrow> Inl ErrLeaseDecode | Some l \<Rightarrow> Inr l))"
      "out = (case x of Inl e \<Rightarrow> Failed e | Inr d \<Rightarrow> Body d)" for x y out t
    by (rule wp_Local_still) (simp_all only: wp_Return q [OF refl that] if_split mem_still_refl known_read_still simp_thms)
  note e = this [OF refl refl, of "Inl _", unfolded sum.case] this [OF refl refl, of "Inr _", unfolded sum.case]
  show ?thesis
    unfolding NodeLeaseFresh_def LeaseGet_def bind.simps
    by (rule wp_Local_still) (simp_all only: mem_still_refl wp.simps(2) guard_logic_simps sum.case prod.case e simp_thms)
qed

text \<open>The liveness check of a takeover.\<close>

lemma Live_wp:
  assumes "WithLease m" "gNow g = now" "owner_ident r \<in> gPub g" "owner_ident r \<noteq> ident m"
    and Q: "\<And>x g'. grows g g' \<Longrightarrow> (x = Inr False \<Longrightarrow> Liveness r = node_lease \<Longrightarrow> owner_ident r \<in> gLap g') \<Longrightarrow> Q x g'"
  shows "wp (guard_logic W etag m ks) etag (Live W canceled m r now) Q g"
proof (cases "Liveness r = node_lease")
  case True
  have other: "\<not> (Node r = LNodeID m \<and> Session r = LSessionID m)" using assms(4) by (simp add: owner_ident_def ident_def)
  have fresh: "wp (guard_logic W etag m ks) etag
      (attempt (lease_call (NodeLeaseFresh (wLease W) canceled (Node r))) (\<lambda>l. Return (Inr (live_as l r now)))) Q g1"
    if g1: "grows g g1" for g1
    unfolding wp_attempt lease_call_def wp_bind
  proof (rule fresh_read_wp [where X = "owner_ident r", unfolded owner_ident_def fst_conv snd_conv])
    show "gNow g1 = now" "(Node r, Session r) \<in> gPub g1" using assms(2,3) g1 by (auto simp: grows_def owner_ident_def)
    fix y :: "lease_error + NodeLease option" and g2 assume g2: "grows g1 g2"
      and "\<And>l. y = Inr l \<Longrightarrow> \<not> (case l of None \<Rightarrow> False | Some l \<Rightarrow> LeaseLive l now \<and> NLSession l = Session r) \<Longrightarrow>
        (Node r, Session r) \<in> gLap g2"
    with grows_trans [OF g1 g2] show "wp (guard_logic W etag m ks) etag (Return (map_sum OwnerLease id y))
        (\<lambda>y g. case y of Inl e \<Rightarrow> Q (Inl e) g | Inr l \<Rightarrow> wp (guard_logic W etag m ks) etag (Return (Inr (live_as l r now))) Q g) g2"
      by (cases y) (auto simp: live_as_def owner_ident_def intro!: Q)
  qed
  have "wp (guard_logic W etag m ks) etag (attempt (lease_call (NodeLeaseOf (wLease W) canceled (Node r))) (\<lambda>l.
      if live_as l r now then Return (Inr True)
      else attempt (lease_call (NodeLeaseFresh (wLease W) canceled (Node r))) (\<lambda>l. Return (Inr (live_as l r now))))) Q g"
    by (rule still_attempt_wp [where b = False]) (auto intro: fresh Q)
  with True other assms(1) show ?thesis by (auto simp: Live_def)
qed (auto simp: Live_def intro: Q)

text \<open>Handlers of another scope.\<close>

lemma mem_still_counters [simp]:
  "mem_still ks w (w\<lparr>takeoverFailed := a\<rparr>)" "mem_still ks w (w\<lparr>takeoverSuccess := a\<rparr>)" "mem_still ks w (w\<lparr>takeoverBlocked := a\<rparr>)"
  by (rule mem_stillI, simp_all)+

lemma still_other:
  assumes "ScopeString s \<noteq> ks" "quiet_hooks H"
  shows "still True ks (ClaimWithReset n W canceled H m s now)" "still True ks (Renew W H m s epoch now)"
    "still True ks (release W H m s epoch skip)"
proof -
  note h = still_hooks [OF assms(2)]
  have "still True ks (claim_unowned W H m s now)"
    using assms h by (auto simp: claim_unowned_def nextEpoch_def Let_def intro!: still_attempt split: sum.split)
  moreover have "still True ks (claim_takeover W H m s now cur e)" for cur e
    using assms h by (auto simp: claim_takeover_def nextEpoch_def Let_def intro!: still_bind still_attempt split: sum.split)
  ultimately show "still True ks (ClaimWithReset n W canceled H m s now)"
    using h by (auto simp: ClaimWithReset_def claim_body_def liveFresh_def intro!: still_bind still_attempt split: sum.split owner_error.split)
  show "still True ks (Renew W H m s epoch now)"
    using assms h by (auto simp: Renew_def Let_def intro!: still_bind still_attempt split: sum.split)
  have "still True ks (release_body W H m s epoch skip)"
    using assms h by (auto simp: release_body_def intro!: still_bind still_attempt split: sum.split bucket_error.split)
  then show "still True ks (release W H m s epoch skip)"
    using assms(1) by (auto simp: release_def release_moves intro!: still_bind)
qed

lemma still_as:
  assumes "ScopeString s \<noteq> ks"
  shows "still True ks (ClaimAs W m s node advertise role ttl now)" "still True ks (RenewAs W m s node epoch ttl now)"
    "still True ks (ReleaseAs W m s node epoch)"
  using assms
  by (auto simp: ClaimAs_def RenewAs_def ReleaseAs_def nextEpoch_def Let_def intro!: still_bind still_attempt
      split: sum.split owner_error.split bucket_error.split)

lemma other_wp: "still True ks p \<Longrightarrow> gFl g = None \<Longrightarrow> wp (guard_logic W etag m ks) etag p (\<lambda>_ _. True) g"
  by (rule still_wp) simp_all

text \<open>Reading the record of the scope.\<close>

lemma Resolve_wp:
  assumes "ScopeString s = ks" "gFl g = None"
    and "\<And>data r g'. unmarshal (wOwner W) data = Some r \<Longrightarrow> grows g g' \<Longrightarrow> owner_ident r \<in> gPub g' \<Longrightarrow> Q (Inr (r, etag data)) g'"
    and "\<And>e g'. grows g g' \<Longrightarrow> Q (Inl e) g'"
  shows "wp (guard_logic W etag m ks) etag (Resolve W s) Q g"
proof -
  have l: "grows g (learn W ks g (OwnerKey s) out)" for out using assms(2) by (intro learn_grows) simp
  have p: "owner_ident r \<in> gPub (learn W ks g (OwnerKey s) (Body data))" if "unmarshal (wOwner W) data = Some r" for data r
    using that assms(1) by (simp add: learn_def)
  show ?thesis
    unfolding Resolve_def
    by (auto intro!: assms(3,4) l p split: bucket_error.split option.split)
qed

lemma own_write_new:
  "ident m \<in> gPub g \<Longrightarrow> own_write W m g (MarshalOwner (marshal (wOwner W)) (newOwner m epoch now))"
  by (rule MarshalOwner_body [of "marshal (wOwner W)" "newOwner m epoch now"])
     (auto simp: own_write_def newOwner_def owner_ident_def ident_def)

lemma same_owner_rewrite:
  assumes "unmarshal (wOwner W) u = Some r0" "owner_ident r = owner_ident r0" "Epoch r = Epoch r0" "Liveness r = Liveness r0"
  shows "same_owner W u (MarshalOwner (marshal (wOwner W)) r)"
proof -
  obtain b where b: "MarshalOwner (marshal (wOwner W)) r = marshal (wOwner W) b" "Node b = Node r" "Session b = Session r"
    "Epoch b = Epoch r" "Liveness b = Liveness r" by (rule MarshalOwner_body [of "marshal (wOwner W)" r])
  then have "owner_ident b = owner_ident r0" "Epoch b = Epoch r0" "Liveness b = Liveness r0"
    using assms(2-4) by (simp_all add: owner_ident_def)
  with assms(1) b(1) show ?thesis unfolding same_owner_def by metis
qed

lemma still_tail:
  "still b ks p \<Longrightarrow> gFl g = None \<Longrightarrow> grows g g1 \<Longrightarrow> wp (guard_logic W etag m ks) etag p (\<lambda>_. grows g) g1"
  by (rule still_wp [where b = b]) (auto simp: grows_def)

lemma change_tail:
  "(\<And>t w. mem_still ks w (u t w)) \<Longrightarrow> grows g g1 \<Longrightarrow>
   wp (guard_logic W etag m ks) etag (bind (change u) (\<lambda>_. Return x)) (\<lambda>_. grows g) g1"
  by (auto simp: wp_bind wp_change guard_section_def)

lemma claim_unowned_guard:
  assumes "quiet_hooks H" "ident m \<in> gPub g" "gFl g = None" "grows g g1"
  shows "wp (guard_logic W etag m ks) etag (claim_unowned W H m s now) (\<lambda>_. grows g) g1"
  unfolding claim_unowned_def nextEpoch_def
proof (intro still_attempt_wp [where b = True] still_bump still_hooks(1) [OF assms(1)])
  fix epoch u g2 g3 assume g: "grows g1 g2" "grows g2 g3"
  then have g3: "grows g g3" using assms(4) grows_trans by blast
  then have "own_write W m g3 (MarshalOwner (marshal (wOwner W)) (newOwner m epoch now))"
    using assms(2) by (intro own_write_new) (auto simp: grows_def)
  then show "wp (guard_logic W etag m ks) etag
     (let o' = newOwner m epoch now in
       Create (OwnerKey s) (MarshalOwner (marshal (wOwner W)) o') (\<lambda>c. case c of
           Inl e \<Rightarrow> Return (Inl (OwnerBucket e))
         | Inr _ \<Rightarrow> claimed m s o')) (\<lambda>_. grows g) g3"
    using g3 by (auto simp: Let_def intro: still_tail [where b = False, OF _ assms(3)])
qed (use assms(3,4) in \<open>auto simp: grows_def\<close>)

lemma claim_takeover_guard:
  assumes "inj etag" "quiet_hooks H" "ident m \<in> gPub g" "gFl g = None" "grows g g1"
    and "unmarshal (wOwner W) data = Some cur" "Liveness cur = node_lease \<Longrightarrow> owner_ident cur \<in> gLap g1"
  shows "wp (guard_logic W etag m ks) etag (claim_takeover W H m s now cur (etag data)) (\<lambda>_. grows g) g1"
proof -
  let ?L = "guard_logic W etag m ks"
  have cas: "wp ?L etag
     (let o' = newOwner m epoch now in
       CAS (OwnerKey s) (MarshalOwner (marshal (wOwner W)) o') (etag data) (\<lambda>c. case c of
           Inl x \<Rightarrow> bind (change (\<lambda>_ w. w\<lparr>takeoverFailed := takeoverFailed w + 1\<rparr>)) (\<lambda>_. Return (Inl (OwnerBucket x)))
         | Inr _ \<Rightarrow> bind (change (\<lambda>_ w. w\<lparr>takeoverSuccess := takeoverSuccess w + 1\<rparr>)) (\<lambda>_. claimed m s o'))) (\<lambda>_. grows g) g2"
    if g2: "grows g g2" "grows g1 g2" for g2 epoch
  proof -
    have "own_write W m g2 (MarshalOwner (marshal (wOwner W)) (newOwner m epoch now))"
      using assms(3) g2 by (intro own_write_new) (auto simp: grows_def)
    moreover have "takes_over W g2 u" if "etag u = etag data" for u
      using that assms(1,6,7) g2(2) by (auto simp: takes_over_def inj_eq grows_def)
    ultimately show ?thesis
      using g2(1) by (auto simp: Let_def intro!: still_tail [where b = False, OF _ assms(4)] still_bind)
  qed
  show ?thesis
    unfolding claim_takeover_def nextEpoch_def
  proof (intro still_bind_wp [where b = True] still_hooks(2) [OF assms(2)])
    fix x g2 assume g2: "grows g1 g2"
    show "wp ?L etag (case x of
         Inl x \<Rightarrow> bind (change (\<lambda>_ w. w\<lparr>takeoverFailed := takeoverFailed w + 1\<rparr>)) (\<lambda>_. Return (Inl x))
       | Inr _ \<Rightarrow> attempt (hook (map_option (\<lambda>f. f s) (Reset H))) (\<lambda>_.
           attempt (bump 8 W s (Epoch cur)) (\<lambda>epoch.
             let o' = newOwner m epoch now in
             CAS (OwnerKey s) (MarshalOwner (marshal (wOwner W)) o') (etag data) (\<lambda>c. case c of
                 Inl x \<Rightarrow> bind (change (\<lambda>_ w. w\<lparr>takeoverFailed := takeoverFailed w + 1\<rparr>)) (\<lambda>_. Return (Inl (OwnerBucket x)))
               | Inr _ \<Rightarrow> bind (change (\<lambda>_ w. w\<lparr>takeoverSuccess := takeoverSuccess w + 1\<rparr>)) (\<lambda>_. claimed m s o'))))) (\<lambda>_. grows g) g2"
    proof (cases x)
      case (Inr u)
      have "wp ?L etag (attempt (hook (map_option (\<lambda>f. f s) (Reset H))) (\<lambda>_. attempt (bump 8 W s (Epoch cur)) f)) (\<lambda>_. grows g) g2"
        if k: "\<And>epoch g3. grows g g3 \<Longrightarrow> grows g1 g3 \<Longrightarrow> wp ?L etag (f epoch) (\<lambda>_. grows g) g3" for f
      proof -
        have after: "grows g g3 \<and> grows g1 g3 \<and> gFl g3 = None" if "grows g2 g3" for g3
        proof -
          have g3: "grows g1 g3" using g2 that by (rule grows_trans)
          from grows_trans [OF assms(5) g3] g3 grows_fl [OF grows_trans [OF assms(5) g3]] assms(4) show ?thesis by simp
        qed
        have nx: "wp ?L etag (attempt (bump 8 W s (Epoch cur)) f) (\<lambda>_. grows g) g3" if "grows g2 g3" for g3
          by (rule still_attempt_wp [where b = False]) (use after grows_trans [OF that] in \<open>auto intro: k\<close>)
        show ?thesis
          by (rule still_attempt_wp [where b = True, OF still_hooks(1) [OF assms(2)]]) (use after [OF grows_refl] after nx in auto)
      qed
      from this [OF cas] show ?thesis unfolding Inr sum.case .
    next
      case (Inl e)
      then show ?thesis by (auto intro: change_tail grows_trans [OF assms(5) g2])
    qed
  qed (use assms(4,5) in \<open>auto simp: grows_def\<close>)
qed

lemma claim_body_guard:
  assumes "inj etag" "quiet_hooks H" "WithLease m" "ScopeString s = ks" "gNow g = now" "ident m \<in> gPub g" "gFl g = None"
  shows "wp (guard_logic W etag m ks) etag (claim_body W canceled H m s now) (\<lambda>_. grows g) g"
  unfolding claim_body_def wp_bind
proof (rule Resolve_wp [OF assms(4,7)])
  fix e g1 assume "grows g g1"
  then show "wp (guard_logic W etag m ks) etag (case Inl e of
         Inl ErrUnowned \<Rightarrow> claim_unowned W H m s now
       | Inl x \<Rightarrow> Return (Inl x)
       | Inr (cur, e) \<Rightarrow>
           if Node cur = LNodeID m \<and> Session cur = LSessionID m
           then bind (rememberOwned s (Epoch cur)) (\<lambda>_. bind (touchOwnerSegment (Touch H) s now) (\<lambda>_. Return (Inr cur)))
           else attempt (liveFresh W canceled m cur now) (\<lambda>live.
             if live then bind (change (\<lambda>_ w. w\<lparr>takeoverBlocked := takeoverBlocked w + 1\<rparr>)) (\<lambda>_. Return (Inl (ErrOwnerLive cur)))
             else claim_takeover W H m s now cur e)) (\<lambda>_. grows g) g1"
    by (auto intro: claim_unowned_guard [OF assms(2,6,7)] split: owner_error.split)
next
  fix data cur g1
  assume d: "unmarshal (wOwner W) data = Some cur" "grows g g1" "owner_ident cur \<in> gPub g1"
  let ?L = "guard_logic W etag m ks"
  have "wp ?L etag (bind (rememberOwned s (Epoch cur)) (\<lambda>_. bind (touchOwnerSegment (Touch H) s now) (\<lambda>_. Return (Inr cur)))) (\<lambda>_. grows g) g1"
    using still_hooks(5) [OF assms(2)] by (intro still_tail [where b = True, OF _ assms(7) d(2)] still_bind) simp_all
  moreover have "wp ?L etag (attempt (liveFresh W canceled m cur now) (\<lambda>live.
             if live then bind (change (\<lambda>_ w. w\<lparr>takeoverBlocked := takeoverBlocked w + 1\<rparr>)) (\<lambda>_. Return (Inl (ErrOwnerLive cur)))
             else claim_takeover W H m s now cur (etag data))) (\<lambda>_. grows g) g1"
    if other: "owner_ident cur \<noteq> ident m"
    unfolding wp_attempt liveFresh_def
  proof (rule Live_wp [OF assms(3) _ d(3) other])
    show "gNow g1 = now" using d(2) assms(5) by (simp add: grows_def)
    fix x :: "owner_error + bool" and g2
    assume g2: "grows g1 g2" "x = Inr False \<Longrightarrow> Liveness cur = node_lease \<Longrightarrow> owner_ident cur \<in> gLap g2"
    note g = grows_trans [OF d(2) g2(1)]
    show "case x of Inl e \<Rightarrow> grows g g2
       | Inr live \<Rightarrow> wp ?L etag (if live
             then bind (change (\<lambda>_ w. w\<lparr>takeoverBlocked := takeoverBlocked w + 1\<rparr>)) (\<lambda>_. Return (Inl (ErrOwnerLive cur)))
             else claim_takeover W H m s now cur (etag data)) (\<lambda>_. grows g) g2"
    proof (cases x)
      case (Inr live)
      with g2(2) show ?thesis
        by (cases live)
           (auto intro: claim_takeover_guard [OF assms(1,2,6,7) g d(1)] change_tail g)
    qed (use g in simp)
  qed
  ultimately show "wp ?L etag (case Inr (cur, etag data) of
         Inl ErrUnowned \<Rightarrow> claim_unowned W H m s now
       | Inl x \<Rightarrow> Return (Inl x)
       | Inr (cur, e) \<Rightarrow>
           if Node cur = LNodeID m \<and> Session cur = LSessionID m
           then bind (rememberOwned s (Epoch cur)) (\<lambda>_. bind (touchOwnerSegment (Touch H) s now) (\<lambda>_. Return (Inr cur)))
           else attempt (liveFresh W canceled m cur now) (\<lambda>live.
             if live then bind (change (\<lambda>_ w. w\<lparr>takeoverBlocked := takeoverBlocked w + 1\<rparr>)) (\<lambda>_. Return (Inl (ErrOwnerLive cur)))
             else claim_takeover W H m s now cur e)) (\<lambda>_. grows g) g1"
    by (auto simp: owner_ident_def ident_def)
qed

lemma Claim_guard:
  assumes "inj etag" "quiet_hooks H" "WithLease m" "gNow g = now" "ident m \<in> gPub g" "gFl g = None"
  shows "wp (guard_logic W etag m ks) etag (ClaimWithReset n W canceled H m s now) (\<lambda>_ _. True) g"
proof (cases "ScopeString s = ks")
  case True
  have "wp (guard_logic W etag m ks) etag (bind (claim_body W canceled H m s now) (\<lambda>r. bind (unlockClaim (ScopeString s)) (\<lambda>_. Return r)))
      (\<lambda>_ _. True) g1" if g1: "grows g g1" for g1
    unfolding wp_bind
  proof (rule wp_mono [OF claim_body_guard [OF assms(1-3) True]])
    show "gNow g1 = now" "ident m \<in> gPub g1" "gFl g1 = None" using assms g1 by (auto simp: grows_def)
    fix r g2
    show "wp (guard_logic W etag m ks) etag (unlockClaim (ScopeString s)) (\<lambda>ra. wp (guard_logic W etag m ks) etag (Return r) (\<lambda>_ _. True)) g2"
      by (rule still_wp [where b = False]) simp_all
  qed
  then show ?thesis
    unfolding ClaimWithReset_def by (intro still_attempt_wp [where b = False]) simp_all
qed (use assms in \<open>auto intro: other_wp still_other\<close>)

lemma Renew_guard:
  assumes "inj etag" "quiet_hooks H" "gFl g = None"
  shows "wp (guard_logic W etag m ks) etag (Renew W H m s epoch now) (\<lambda>_ _. True) g"
proof (cases "ScopeString s = ks")
  case True
  let ?L = "guard_logic W etag m ks"
  have kept: "wp ?L etag (bind (rememberOwned s e) (\<lambda>_. bind (touchOwnerSegment (Touch H) s now) (\<lambda>_. Return x))) (\<lambda>_ _. True) g1"
    if "grows g g1" for e x g1
    using still_hooks(5) [OF assms(2)] grows_fl [OF that] assms(3) by (intro other_wp still_bind) simp_all
  have keep: "wp ?L etag (bind (rememberOwned s e) (\<lambda>_. Return x)) (\<lambda>_ _. True) g1" if "grows g g1" for e x g1
    using grows_fl [OF that] assms(3) by (intro other_wp still_bind) simp_all
  have inv: "wp ?L etag (bind (Invalidate m s) (\<lambda>_. Return x)) (\<lambda>_ _. True) g1" if "grows g g1" for x g1
    using grows_fl [OF that] assms(3) by (intro other_wp still_bind) simp_all
  have same: "same_owner W u (MarshalOwner (marshal (wOwner W)) r)"
    if "unmarshal (wOwner W) data = Some r0" "etag u = etag data" "Node r = Node r0" "Session r = Session r0" "Epoch r = Epoch r0" "Liveness r = Liveness r0"
    for u data r r0
    using that assms(1) by (intro same_owner_rewrite [of W u r0 r]) (simp_all add: inj_eq owner_ident_def)
  show ?thesis
    unfolding Renew_def wp_attempt
    by (rule Resolve_wp [OF True assms(3)]) (auto simp: Let_def intro!: kept keep inv same)
qed (use assms in \<open>auto intro: other_wp still_other\<close>)

lemma release_guard:
  assumes "inj etag" "quiet_hooks H" "gFl g = None" "\<not> gRel g"
  shows "wp (guard_logic W etag m ks) etag (release W H m s epoch skip) (\<lambda>_ _. True) g"
proof (cases "ScopeString s = ks")
  case True
  let ?L = "guard_logic W etag m ks" and ?g = "g\<lparr>gRel := True\<rparr>"
  have fl: "gFl ?g = None" using assms(3) by simp
  have tail: "wp ?L etag (bind (Invalidate m s) (\<lambda>_. Return x)) (\<lambda>_. grows ?g) g1" if "grows ?g g1" for x g1
    using that fl by (intro still_tail [where b = False] still_bind) simp_all
  have last: "wp ?L etag (bind (Invalidate m s) (\<lambda>_. bind (forgetOwned s) (\<lambda>_. Return x))) (\<lambda>_. grows ?g) g1" if "grows ?g g1" for x g1
    using that fl by (intro still_tail [where b = False] still_bind) simp_all
  have del: "wp ?L etag (CDelete (OwnerKey s) (etag data) (\<lambda>c. case c of
                   Inl ErrPrecondition \<Rightarrow> Return (Inl ErrEpochMismatch)
                 | Inl x \<Rightarrow> Return (Inl (OwnerBucket x))
                 | Inr _ \<Rightarrow> bind (Invalidate m s) (\<lambda>_. bind (forgetOwned s) (\<lambda>_. Return (Inr ()))))) (\<lambda>_. grows ?g) g1"
    if "grows ?g g1" "unmarshal (wOwner W) data = Some cur" "Node cur = LNodeID m" "Session cur = LSessionID m" for g1 data cur
  proof -
    have "owned_by W m u" if "etag u = etag data" for u
      using that assms(1) \<open>unmarshal (wOwner W) data = Some cur\<close> \<open>Node cur = LNodeID m\<close> \<open>Session cur = LSessionID m\<close>
      by (auto simp: owned_by_def inj_eq owner_ident_def ident_def)
    moreover have "gRel g1" using that(1) by (simp add: grows_def)
    ultimately show ?thesis using last that(1) by (auto split: bucket_error.split)
  qed
  have hk: "still True ks (hook (if skip then None else map_option (\<lambda>f. f s epoch) (BeforeRelease H)))"
    using still_hooks(3) [OF assms(2)] by (simp add: hook_def)
  have hooked: "wp ?L etag (bind (hook (if skip then None else map_option (\<lambda>f. f s epoch) (BeforeRelease H))) (\<lambda>r. case r of
             Inl x \<Rightarrow> bind (Invalidate m s) (\<lambda>_. Return (Inl x))
           | Inr _ \<Rightarrow> CDelete (OwnerKey s) (etag data) (\<lambda>c. case c of
                   Inl ErrPrecondition \<Rightarrow> Return (Inl ErrEpochMismatch)
                 | Inl x \<Rightarrow> Return (Inl (OwnerBucket x))
                 | Inr _ \<Rightarrow> bind (Invalidate m s) (\<lambda>_. bind (forgetOwned s) (\<lambda>_. Return (Inr ())))))) (\<lambda>_. grows ?g) g1"
    if g1: "grows ?g g1" "unmarshal (wOwner W) data = Some cur" "Node cur = LNodeID m" "Session cur = LSessionID m" for g1 data cur
  proof (rule still_bind_wp [OF hk])
    show "gFl g1 = None" using grows_fl [OF g1(1)] fl by simp
    fix r :: "owner_error + unit" and g2 assume "grows g1 g2"
    then have "grows ?g g2" by (rule grows_trans [OF g1(1)])
    then show "wp ?L etag (case r of
             Inl x \<Rightarrow> bind (Invalidate m s) (\<lambda>_. Return (Inl x))
           | Inr _ \<Rightarrow> CDelete (OwnerKey s) (etag data) (\<lambda>c. case c of
                   Inl ErrPrecondition \<Rightarrow> Return (Inl ErrEpochMismatch)
                 | Inl x \<Rightarrow> Return (Inl (OwnerBucket x))
                 | Inr _ \<Rightarrow> bind (Invalidate m s) (\<lambda>_. bind (forgetOwned s) (\<lambda>_. Return (Inr ()))))) (\<lambda>_. grows ?g) g2"
      using tail del [OF _ g1(2-4)] by (cases r) (simp_all only: sum.case)
  qed
  have body: "wp ?L etag (release_body W H m s epoch skip) (\<lambda>_. grows ?g) ?g"
    unfolding release_body_def wp_attempt
  proof (rule Resolve_wp [OF True fl])
    fix data cur g1 assume c: "unmarshal (wOwner W) data = Some cur" "grows ?g g1"
    let ?other = "Node cur \<noteq> LNodeID m \<or> Session cur \<noteq> LSessionID m \<or> Epoch cur \<noteq> epoch"
    show "case Inr (cur, etag data) of
        Inl e \<Rightarrow> grows ?g g1
      | Inr x \<Rightarrow> wp ?L etag (case x of (cur, e) \<Rightarrow>
         if Node cur \<noteq> LNodeID m \<or> Session cur \<noteq> LSessionID m \<or> Epoch cur \<noteq> epoch
         then bind (Invalidate m s) (\<lambda>_. Return (Inl ErrEpochMismatch))
         else
           bind (hook (if skip then None else map_option (\<lambda>f. f s epoch) (BeforeRelease H))) (\<lambda>r. case r of
               Inl x \<Rightarrow> bind (Invalidate m s) (\<lambda>_. Return (Inl x))
             | Inr _ \<Rightarrow>
                 CDelete (OwnerKey s) e (\<lambda>c. case c of
                     Inl ErrPrecondition \<Rightarrow> Return (Inl ErrEpochMismatch)
                   | Inl x \<Rightarrow> Return (Inl (OwnerBucket x))
                   | Inr _ \<Rightarrow> bind (Invalidate m s) (\<lambda>_. bind (forgetOwned s) (\<lambda>_. Return (Inr ())))))) (\<lambda>_. grows ?g) g1"
    proof (cases ?other)
      case True
      show ?thesis unfolding sum.case prod.case if_P [OF True] by (rule tail [OF c(2)])
    next
      case False
      then show ?thesis unfolding sum.case prod.case if_not_P [OF False] by (intro hooked [OF c(2,1)]) simp_all
    qed
  qed simp
  have leave: "wp ?L etag (change (release_leave m (ScopeString s))) (\<lambda>_ _. True) g1" if "grows ?g g1" for g1
  proof -
    have "gRel g1" using that by (simp add: grows_def)
    from guard_sectionI(5) [OF this release_moves(3,4)] show ?thesis
      unfolding wp_change guard_logic_simps True by blast
  qed
  have "wp ?L etag (bind (release_body W H m s epoch skip) (\<lambda>r. bind (change (release_leave m (ScopeString s))) (\<lambda>_. Return r))) (\<lambda>_ _. True) ?g"
    unfolding wp_bind by (rule wp_mono [OF body]) (use leave in simp)
  then show ?thesis
    unfolding release_def wp_bind [where p = "change _"] wp_change guard_logic_simps True
    using guard_sectionI(4) [OF assms(4) release_moves(1,2)] by blast
qed (use assms in \<open>auto intro: other_wp still_other\<close>)

subsection \<open>Routes\<close>

lemma use_route_still [simp]:
  assumes "map_of (routes w) key = Some c"
  shows "mem_still ks w (snd (use_route m key c t w))"
proof -
  have "mem_still ks w (w\<lparr>fenced := b\<rparr>)" for b by (rule mem_stillI) simp_all
  moreover have "mem_still ks w (w\<lparr>fenced := b, routes := AList.update key (c\<lparr>rtUntil := u, rtWall := x\<rparr>) (routes w)\<rparr>)" for b u x
    using assms by (auto simp: mem_still_def routes_from_def update_conv' rev_of_def)
  ultimately show ?thesis using use_route_mem [where m = m and key = key and c = c and t = t and w = w] by auto
qed

lemma route_enter_cases:
  assumes "route_enter m key t w = (look, w')"
  obtains (hit) o' e where "look = Hit o' e" "mem_still ks w w'"
  | (wait) f where "look = Wait f" "mem_still ks w w'"
  | (lead) f rv where "look = Lead f rv" "key = ks" "flight_start ks rv w w'"
  | (other) f rv where "look = Lead f rv" "key \<noteq> ks" "mem_still ks w w'"
proof -
  let ?fly = "\<lambda>w. case routeFlights w key of
            Some f \<Rightarrow> (Wait f, w)
          | None \<Rightarrow> (Lead (newFlight w) (rev_of w key),
              w\<lparr>routeFlights := (routeFlights w)(key \<mapsto> newFlight w),
                flights := (flights w)(newFlight w \<mapsto> \<lparr>flRev = rev_of w key, flAnswer = None\<rparr>),
                newFlight := newFlight w + 1\<rparr>)"
  have fly: thesis if w1: "mem_still ks w w1" and f: "?fly w1 = (look, w')" for w1
  proof (cases "routeFlights w1 key")
    case (Some n)
    with f w1 show ?thesis by (auto intro: wait)
  next
    case None
    show ?thesis
    proof (cases "key = ks")
      case True
      with None f w1 have "flight_start ks (rev_of w1 ks) w w'"
        by (auto simp: flight_start_def mem_still_def routes_from_def)
      with None f True show ?thesis by (auto intro: lead)
    next
      case False
      with None f w1 have "mem_still ks w w'" by (auto simp: mem_still_def routes_from_def)
      with None f False show ?thesis by (auto intro: other)
    qed
  qed
  show thesis
  proof (cases "map_of (routes w) key")
    case None
    with assms have "?fly w = (look, w')" by (simp add: route_enter_def Let_def)
    then show thesis by (rule fly [OF mem_still_refl])
  next
    case (Some c)
    obtain b w1 where u: "use_route m key c t w = (b, w1)" by fastforce
    with use_route_still [OF Some, where ks = ks and m = m and t = t] have w1: "mem_still ks w w1" by simp
    show thesis
    proof (cases b)
      case True
      with assms Some u have "look = Hit (rtOwner c) (rtTag c)" "w' = w1" by (simp_all add: route_enter_def Let_def)
      with w1 show thesis by (auto intro: hit)
    next
      case False
      have "mem_still ks w (w1\<lparr>routes := AList.delete key (routes w1)\<rparr>)"
        using w1 by (auto simp: mem_still_def routes_from_def delete_conv')
      moreover have "?fly (w1\<lparr>routes := AList.delete key (routes w1)\<rparr>) = (look, w')"
        using assms Some u False by (simp add: route_enter_def Let_def)
      ultimately show thesis by (rule fly)
    qed
  qed
qed

lemma add_route_cases:
  "map_of (add_route m key c t rs) k = Some c' \<Longrightarrow> k = key \<and> c' = c \<or> k \<noteq> key \<and> map_of rs k = Some c'"
  by (auto simp: add_route_def update_conv' delete_conv' split: if_splits list.splits)

lemma route_finish_other:
  "key \<noteq> ks \<Longrightarrow> mem_still ks w (snd (route_finish m key f rv route ans again t w))"
  by (auto simp: route_finish_def Let_def mem_still_def routes_from_def dest: add_route_cases split: sum.split)

lemma route_finish_end:
  assumes "\<And>c. route = Inr c \<Longrightarrow> ro = Some (rtOwner c)"
  shows "flight_end ks m rv ro w (snd (route_finish m' ks f rv route ans again t w))"
  using assms
  by (auto simp: route_finish_def Let_def flight_end_def dest!: add_route_cases split: sum.split)

lemma local_ident: "localLease m r \<Longrightarrow> owner_ident r = ident m"
  by (simp add: localLease_def owner_ident_def ident_def)

lemma evidence_wp:
  assumes "\<And>x g'. grows g g' \<Longrightarrow> (\<And>c. x = Inr c \<Longrightarrow> rtOwner c = r \<and> (rtLocal c \<longrightarrow> localLease m r)) \<Longrightarrow> Q x g'"
  shows "wp (guard_logic W etag m ks) etag (route_evidence W canceled m lu iss r e) Q g"
proof -
  let ?L = "guard_logic W etag m ks" and ?c = "\<lparr>rtOwner = r, rtTag = e, rtUntil = zeroTime, rtWall = 0, rtLocal = False\<rparr>"
  let ?good = "\<lambda>l. NLNode l = Node r \<and> NLSession l = Session r"
  let ?add = "\<lambda>now x. case x of Some l \<Rightarrow> if ?good l
      then ?c\<lparr>rtWall := NLExpiry l, rtUntil := iss + (NLExpiry l - UnixMilli now) * 1000000\<rparr> else ?c | None \<Rightarrow> ?c"
  have add: "wp ?L etag (bind now_is (\<lambda>now. Return (Inr (?add now x)))) Q g1" if "grows g g1" for x g1
    using that by (auto simp: wp_bind wp_now_is split: option.split intro!: exI [of _ g1] guard_sectionI(1) assms)
  have fresh: "wp ?L etag (attempt (lease_call (NodeLeaseFresh (wLease W) canceled (Node r))) (\<lambda>x. bind now_is (\<lambda>now. Return (Inr (?add now x))))) Q g1"
    if "grows g g1" for g1
    by (rule still_attempt_wp [where b = False]) (use that in \<open>auto intro: grows_trans add assms\<close>)
  have "wp ?L etag (attempt (lease_call (NodeLeaseOf (wLease W) canceled (Node r))) (\<lambda>x. bind now_is (\<lambda>now.
      if (case x of None \<Rightarrow> True | Some l \<Rightarrow> \<not> ?good l \<or> \<not> LeaseLive l now)
      then attempt (lease_call (NodeLeaseFresh (wLease W) canceled (Node r))) (\<lambda>x. bind now_is (\<lambda>now. Return (Inr (?add now x))))
      else bind now_is (\<lambda>now. Return (Inr (?add now x)))))) Q g"
  proof (rule still_attempt_wp [where b = False])
    fix x g1 assume g1: "grows g g1"
    show "wp ?L etag (bind now_is (\<lambda>now.
      if (case x of None \<Rightarrow> True | Some l \<Rightarrow> \<not> ?good l \<or> \<not> LeaseLive l now)
      then attempt (lease_call (NodeLeaseFresh (wLease W) canceled (Node r))) (\<lambda>x. bind now_is (\<lambda>now. Return (Inr (?add now x))))
      else bind now_is (\<lambda>now. Return (Inr (?add now x))))) Q g1"
    proof (rule still_bind_wp [where b = False])
      fix now g2 assume "grows g1 g2"
      from fresh [OF grows_trans [OF g1 this]] add [OF grows_trans [OF g1 this]]
      show "wp ?L etag (if (case x of None \<Rightarrow> True | Some l \<Rightarrow> \<not> ?good l \<or> \<not> LeaseLive l now)
          then attempt (lease_call (NodeLeaseFresh (wLease W) canceled (Node r))) (\<lambda>x. bind now_is (\<lambda>now. Return (Inr (?add now x))))
          else bind now_is (\<lambda>now. Return (Inr (?add now x)))) Q g2"
        by (rule if_split [THEN iffD2, OF conjI, OF impI impI])
    qed simp_all
  qed (auto intro: assms)
  then show ?thesis
    by (auto simp: route_evidence_def Let_def intro!: assms)
qed

lemma flight_read_wp:
  assumes "ScopeString s = ks" "gFl g = Some (rv, None)"
    and "\<And>r e g'. gFl g' = Some (rv, Some r) \<Longrightarrow> Q (Inr (r, e)) g'" "\<And>e g' ro. gFl g' = Some (rv, ro) \<Longrightarrow> Q (Inl e) g'"
  shows "wp (guard_logic W etag m ks) etag (Resolve W s) Q g"
proof -
  have k: "OwnerKey s = own_key ks" using assms(1) by simp
  have "gFl (learn W ks g (OwnerKey s) (Failed err)) = Some (rv, None)" for err using assms(2) k by (simp add: learn_def)
  moreover have "gFl (learn W ks g (OwnerKey s) (Body v)) = Some (rv, unmarshal (wOwner W) v)" for v
    using assms(2) k by (simp add: learn_def split: option.split)
  ultimately show ?thesis
    unfolding Resolve_def by (auto intro!: assms(3,4) split: bucket_error.split option.split)
qed

lemma route_lead_guard:
  fixes W :: "'v wire" and etag :: "'v \<Rightarrow> 'e"
  assumes "ScopeString s = ks" "gFl g = Some (rv, None)"
  shows "wp (guard_logic W etag m ks) etag (route_lead W canceled m s f rv :: ('v, 'e, 'x, _) oprog) (\<lambda>_ g. gFl g = None) g"
proof -
  let ?L = "guard_logic W etag m ks :: (_, _, ('e, 'x) owner_mem_scheme, _) logic" and ?Q = "\<lambda>_ g. gFl g = None"
  let ?finish = "\<lambda>route again. let ans = (case route of Inl x \<Rightarrow> Inl x | Inr c \<Rightarrow> Inr (rtOwner c, rtTag c)) in
     bind (atomically (route_finish m (ScopeString s) f rv route ans again)) (\<lambda>current.
       Return (if \<not> current \<or> again then None else Some ans))"
  let ?again = "\<lambda>lu route. case route of Inl _ \<Rightarrow> Return False
       | Inr c \<Rightarrow> if rtLocal c then atomically (\<lambda>now w. if \<not> now < lu then Healthy m now now w else (False, w)) else Return False"
  have fin: "wp ?L etag (?finish route again) ?Q g1"
    if "gFl g1 = Some (rv, ro)" "\<And>c. route = Inr c \<Longrightarrow> ro = Some (rtOwner c)"
    for route again g1 ro
  proof -
    have "guard_section ks m g1 w (snd (route_finish m (ScopeString s) f rv route ans again t w)) (g1\<lparr>gFl := None\<rparr>)" for t w ans
      unfolding assms(1) by (rule guard_sectionI(3) [OF that(1) route_finish_end]) (rule that(2))
    then show ?thesis unfolding Let_def wp_bind wp_atomically guard_logic_simps wp_Return by fastforce
  qed
  have rest: "wp ?L etag (bind (?again lu route) (?finish route)) ?Q g1"
    if "gFl g1 = Some (rv, ro)" "\<And>c. route = Inr c \<Longrightarrow> ro = Some (rtOwner c)"
    for route lu g1 ro
  proof (rule still_bind_wp [where b = False])
    show "still False ks (?again lu route)" by (auto split: sum.split)
    fix again g2 assume "grows g1 g2"
    then have "gFl g2 = Some (rv, ro)" using grows_fl that(1) by fastforce
    then show "wp ?L etag (?finish route again) ?Q g2" by (rule fin) (rule that(2))
  qed simp
  have ev: "wp ?L etag (bind (route_evidence W canceled m lu issued r e) (\<lambda>route. bind (?again lu route) (?finish route))) ?Q g2"
    if "gFl g2 = Some (rv, Some r)" for lu issued r e g2
    unfolding wp_bind [where p = "route_evidence _ _ _ _ _ _ _"]
    using that by (intro evidence_wp rest) (auto dest: grows_fl intro: local_ident)
  have read: "wp ?L etag (bind (Resolve W s) (\<lambda>r. bind (case r of Inl x \<Rightarrow> Return (Inl x)
      | Inr (o', e) \<Rightarrow> route_evidence W canceled m lu issued o' e) (\<lambda>route. bind (?again lu route) (?finish route)))) ?Q g2"
    if "gFl g2 = Some (rv, None)" for lu issued g2
    unfolding wp_bind [where p = "Resolve _ _"]
  proof (rule flight_read_wp [OF assms(1) that])
    fix r e and g' :: guard_ghost assume "gFl g' = Some (rv, Some r)"
    then show "wp ?L etag (bind (case Inr (r, e) of Inl x \<Rightarrow> Return (Inl x)
      | Inr (o', e) \<Rightarrow> route_evidence W canceled m lu issued o' e) (\<lambda>route. bind (?again lu route) (?finish route))) ?Q g'"
      unfolding sum.case prod.case by (rule ev)
  next
    fix e ro and g' :: guard_ghost assume "gFl g' = Some (rv, ro)"
    then show "wp ?L etag (bind (case Inl e of Inl x \<Rightarrow> Return (Inl x)
      | Inr (o', e) \<Rightarrow> route_evidence W canceled m lu issued o' e) (\<lambda>route. bind (?again lu route) (?finish route))) ?Q g'"
      using rest [of g' ro "Inl e" lu] by (simp only: sum.case bind.simps sum.distinct simp_thms)
  qed
  show ?thesis
    unfolding route_lead_def
  proof (rule still_bind_wp [where b = False])
    fix lu g1 assume g1: "grows g g1"
    show "wp ?L etag (bind now_is (\<lambda>issued. bind (Resolve W s) (\<lambda>r. bind (case r of Inl x \<Rightarrow> Return (Inl x)
      | Inr (o', e) \<Rightarrow> route_evidence W canceled m lu issued o' e) (\<lambda>route. bind (?again lu route) (?finish route))))) ?Q g1"
    proof (rule still_bind_wp [where b = False])
      fix issued g2 assume "grows g1 g2"
      then have "gFl g2 = Some (rv, None)" using grows_fl g1 assms(2) by fastforce
      then show "wp ?L etag (bind (Resolve W s) (\<lambda>r. bind (case r of Inl x \<Rightarrow> Return (Inl x)
        | Inr (o', e) \<Rightarrow> route_evidence W canceled m lu issued o' e) (\<lambda>route. bind (?again lu route) (?finish route)))) ?Q g2"
        by (rule read)
    qed simp_all
  qed (simp_all add: snd_map_prod)
qed

lemma route_lead_other: "ScopeString s \<noteq> ks \<Longrightarrow> still True ks (route_lead W canceled m s f rv)"
  by (auto simp: route_lead_def route_evidence_def Let_def route_finish_other snd_map_prod
      intro!: still_bind still_attempt split: sum.split option.split)

lemma route_loop_guard:
  fixes W :: "'v wire" and etag :: "'v \<Rightarrow> 'e"
  shows "gFl g = None \<Longrightarrow> wp (guard_logic W etag m ks) etag (route_loop n W canceled m s mode :: ('v, 'e, 'x, _) ohandler) (\<lambda>_ g. gFl g = None) g"
proof (induction n arbitrary: mode g)
  case (Suc n)
  let ?L = "guard_logic W etag m ks :: (_, _, ('e, 'x) owner_mem_scheme, _) logic" and ?Q = "\<lambda>_ g. gFl g = None"
  have lead: "wp ?L etag (route_lead W canceled m s f rv) ?Q g1"
    if "if ScopeString s = ks then gFl g1 = Some (rv, None) else gFl g1 = None" for f rv g1
  proof (cases "ScopeString s = ks")
    case False
    then show ?thesis
      using that by (intro still_wp [OF route_lead_other [OF False]]) (auto dest: grows_fl)
  qed (use that in \<open>simp add: route_lead_guard\<close>)
  have go: "wp ?L etag (bind (route_lead W canceled m s f rv) (\<lambda>r. case r of
                  None \<Rightarrow> route_loop n W canceled m s None | Some ans \<Rightarrow> Return ans)) ?Q g1"
    if "if ScopeString s = ks then gFl g1 = Some (rv, None) else gFl g1 = None" for f rv g1
    unfolding wp_bind by (rule wp_mono [OF lead [OF that]]) (auto intro: Suc.IH split: option.split)
  show ?case
  proof (cases mode)
    case None
    have "\<exists>g'. guard_section ks m g w (snd (route_enter m (ScopeString s) t w)) g'
        \<and> wp ?L etag (case fst (route_enter m (ScopeString s) t w) of
              Hit o' e \<Rightarrow> Return (Inr (o', e))
            | Wait f \<Rightarrow> route_loop n W canceled m s (Some f)
            | Lead f rv \<Rightarrow> bind (route_lead W canceled m s f rv) (\<lambda>r. case r of
                  None \<Rightarrow> route_loop n W canceled m s None
                | Some ans \<Rightarrow> Return ans)) ?Q g'" for t and w :: "('e, 'x) owner_mem_scheme"
    proof -
      obtain look w' where e: "route_enter m (ScopeString s) t w = (look, w')" by fastforce
      from e show ?thesis
      proof (cases rule: route_enter_cases [where ks = ks])
        case (lead f rv)
        then show ?thesis
          using guard_sectionI(2) [OF Suc.prems lead(3), of m] go [of "g\<lparr>gFl := Some (rv, None)\<rparr>" rv f]
          by (intro exI [of _ "g\<lparr>gFl := Some (rv, None)\<rparr>"]) (simp add: e [unfolded lead(2)])
      qed (use Suc guard_sectionI(1) go in \<open>auto simp: e intro!: exI [of _ g]\<close>)
    qed
    then show ?thesis
      unfolding None route_loop.simps option.case wp_bind [where p = "atomically _"] wp_atomically guard_logic_simps by blast
  next
    case (Some f)
    have "wp ?L etag (case x of
              None \<Rightarrow> route_loop n W canceled m s (Some f)
            | Some None \<Rightarrow> route_loop n W canceled m s None
            | Some (Some ans) \<Rightarrow> Return ans) ?Q g" for x
      using Suc by (auto split: option.split)
    with Some show ?thesis
      by (auto simp: wp_bind [where p = "atomically _"] wp_atomically simp del: bind.simps intro!: exI [of _ g] guard_sectionI(1))
  qed
qed simp

lemma routes_guard:
  assumes "gFl g = None"
  shows "wp (guard_logic W etag m ks) etag (ResolveRoute n W canceled m s) (\<lambda>_ _. True) g"
    and "wp (guard_logic W etag m ks) etag (ResolveForwardRoute n W canceled m s) (\<lambda>_ _. True) g"
    and "wp (guard_logic W etag m ks) etag (LiveRoute W canceled m s r now) (\<lambda>_ _. True) g"
proof -
  show r: "wp (guard_logic W etag m ks) etag (ResolveRoute n W canceled m s) (\<lambda>_ _. True) g"
    unfolding ResolveRoute_def by (rule wp_mono [OF route_loop_guard [OF assms]]) simp
  then show "wp (guard_logic W etag m ks) etag (ResolveForwardRoute n W canceled m s) (\<lambda>_ _. True) g"
    by (auto simp: ResolveForwardRoute_def wp_bind [where p = "atomically _"] wp_atomically simp del: bind.simps
        intro!: exI [of _ g] guard_sectionI(1) split: option.split)
  show "wp (guard_logic W etag m ks) etag (LiveRoute W canceled m s r now) (\<lambda>_ _. True) g"
    using assms by (intro other_wp) (auto simp: LiveRoute_def intro!: still_bind)
qed

lemma guard_memory:
  "mem_still ks w (snd (LocalReadGuard m s t w))" "mem_still ks w (snd (read_guard_check m s gd b t w))"
  "mem_still ks w (snd (ReadFence s t w))" "mem_still ks w (snd (read_fence_check s f b t w))"
proof -
  obtain x w1 where h: "Healthy m t t w = (x, w1)" by fastforce
  with Healthy_mem [where m = m and now = t and clk = t and w = w] obtain b' where w1: "w1 = w\<lparr>fenced := b'\<rparr>" by auto
  then show "mem_still ks w (snd (LocalReadGuard m s t w))"
    by (auto simp: LocalReadGuard_def Let_def h intro!: mem_stillI split: option.split bool.split)
  show "mem_still ks w (snd (read_guard_check m s gd b t w))"
    using w1 by (auto simp: read_guard_check_def releaseGuardLocked_def Let_def h intro!: mem_stillI)
  show "mem_still ks w (snd (ReadFence s t w))" "mem_still ks w (snd (read_fence_check s f b t w))"
    by (auto simp: ReadFence_def read_fence_check_def releaseGuardLocked_def Let_def intro!: mem_stillI)
qed

subsection \<open>What a process begins\<close>

text \<open>A scope outside the Durable Object class, which other nodes claim for.\<close>

definition tracked :: "string \<Rightarrow> bool" where
  "tracked ks \<longleftrightarrow> (\<exists>s. Validate s = Inr () \<and> Class s \<noteq> ''__do__'' \<and> ks = ScopeString s)"

lemma split_on_join: "split_on sep (w @ sep # s) = split_on sep w @ split_on sep s"
  by (induction w) (auto split: list.split)

lemma DOScope_other:
  assumes "tracked ks"
  shows "ScopeString (DOScope ns worker cls shard) \<noteq> ks"
proof
  assume eq: "ScopeString (DOScope ns worker cls shard) = ks"
  from assms obtain s where s: "Validate s = Inr ()" "Class s \<noteq> ''__do__''" "ks = ScopeString s" by (auto simp: tracked_def)
  let ?id = "ScopeID (DOScope ns worker cls shard)"
  have "split_on (CHR ''/'') (ns @ CHR ''/'' # (''__do__'' @ CHR ''/'' # ?id)) =
      split_on (CHR ''/'') ns @ [''__do__''] @ split_on (CHR ''/'') ?id"
    by (subst split_on_join, subst split_on_append) simp_all
  moreover have "ks = ns @ CHR ''/'' # (''__do__'' @ CHR ''/'' # ?id)" using eq by (simp add: ScopeString_def DOScope_def)
  ultimately have "split_on (CHR ''/'') ns @ [''__do__''] @ split_on (CHR ''/'') ?id = [Namespace s, Class s, ScopeID s]"
    using ScopeString_split [OF s(1)] s(3) by simp
  with s(2) show False
    using split_on_nonempty [of "CHR ''/''" ns] split_on_nonempty [of "CHR ''/''" ?id]
    by (auto simp: append_eq_Cons_conv Cons_eq_append_conv)
qed

definition first_ghost :: "time \<Rightarrow> (string \<times> string) set \<Rightarrow> guard_ghost" where
  "first_ghost now pub = \<lparr>gNow = now, gPub = pub, gLap = {}, gRel = False, gFl = None\<rparr>"

lemma first_ghost_simps [simp]:
  "gNow (first_ghost now pub) = now" "gPub (first_ghost now pub) = pub" "gLap (first_ghost now pub) = {}"
  "\<not> gRel (first_ghost now pub)" "gFl (first_ghost now pub) = None"
  by (simp_all add: first_ghost_def)

lemma owner_starts_guard:
  assumes "inj etag" "tracked ks" "WithLease m" "owner_starts W S m (Run i p)"
  shows "\<exists>now pub. wp (guard_logic W etag m ks) etag p (\<lambda>_ _. True) (first_ghost now pub) \<and> now \<le> clock S
    \<and> pub \<subseteq> (if publishedExpiry (memory S m) = None then {} else {ident m})"
proof -
  let ?L = "guard_logic W etag m ks" and ?g = "first_ghost (clock S) {}"
  have base: ?thesis if "wp ?L etag p (\<lambda>_ _. True) ?g"
    using that by (intro exI [of _ "clock S"] exI [of _ "{}"]) simp
  note still = other_wp [where g = ?g and W = W and etag = etag and m = m, OF _ first_ghost_simps(5)]
  note as = still_as [OF DOScope_other [OF assms(2)]]
  show ?thesis
    using assms(4)
  proof cases
    case (claim s now H n canceled j)
    have "wp ?L etag p (\<lambda>_ _. True) (first_ghost now {ident m})"
      unfolding claim(2) wp_forget by (rule wp_mono [OF Claim_guard [OF assms(1) claim(6) assms(3)]]) simp_all
    then show ?thesis using claim by (intro exI [of _ now] exI [of _ "{ident m}"]) simp
  next
    case renew
    then show ?thesis by (intro base) (simp add: wp_forget Renew_guard [OF assms(1)])
  next
    case release
    then show ?thesis by (intro base) (simp add: wp_forget release_guard [OF assms(1)])
  next
    case route
    then show ?thesis by (intro base) (simp add: wp_forget routes_guard)
  next
    case forward
    then show ?thesis by (intro base) (simp add: wp_forget routes_guard)
  next
    case live_route
    then show ?thesis by (intro base) (simp add: wp_forget routes_guard)
  qed (intro base still, simp add: as guard_memory; fail)+
qed

end
