(* ===== verification/LocalRead.thy ===== *)
theory LocalRead
  imports OwnerGuard
begin

text \<open>
  The fleet under the logic of \<open>OwnerGuard\<close>: an invariant over what every thread knows, every route claims and the
  bucket records, kept by every step, and from it the safety of local reads. It uses that a published lease is
  shown in the bucket until it lapses (\<open>lease_inv\<close>), so that a takeover, which has read that there is no live lease,
  takes only from a session that can no longer pass its guard.
\<close>

subsection \<open>What stays so\<close>

text \<open>A published lease stays published, a fence stays up.\<close>

context lease_fleet
begin

lemma local_kept:
  assumes "lease_inv etag J S" "threads S m i = Some (Local u c)"
  shows "publishedExpiry (memory S m) \<noteq> None \<Longrightarrow> publishedExpiry (u (clock S) (memory S m)) \<noteq> None"
    and "fenced (memory S m) \<Longrightarrow> fenced (u (clock S) (memory S m))"
proof -
  let ?w = "memory S m" and ?w' = "u (clock S) (memory S m)"
  have up: "life S m = Up" using lease_invD(1) [OF assms(1)] assms(2) by force
  have "(publishedExpiry ?w \<noteq> None \<longrightarrow> publishedExpiry ?w' \<noteq> None) \<and> (fenced ?w \<longrightarrow> fenced ?w')"
  proof (cases i)
    case 0
    from lease_invD(6) [OF assms(1) up] assms(2) 0 obtain pend where
      ps: "pub_safe J etag m (Local u c) (clock S) (publishedExpiry ?w) (publishedETag ?w) pend"
      unfolding mgr_ok_def by blast
    show ?thesis
      using ps [unfolded pub_safe.simps, rule_format, OF order_refl refl refl lease_invD(4) [OF assms(1)]] by auto
  next
    case (Suc j)
    with lease_invD(5) [OF assms(1)] assms(2) have "neutral (Local u c)" by blast
    then show ?thesis by simp
  qed
  then show "publishedExpiry ?w \<noteq> None \<Longrightarrow> publishedExpiry ?w' \<noteq> None" "fenced ?w \<Longrightarrow> fenced ?w'" by blast+
qed

lemma step_kept:
  assumes "step etag starts a S S'" "lease_inv etag J S"
  shows "publishedExpiry (memory S m) \<noteq> None \<Longrightarrow> publishedExpiry (memory S' m) \<noteq> None"
    and "fenced (memory S m) \<Longrightarrow> fenced (memory S' m)" and "life S m = Dead \<Longrightarrow> life S' m = Dead"
    and "clock S \<le> clock S'"
  using assms by (induction rule: step.induct) (auto dest: local_kept split: if_splits)

end

text \<open>A session has lapsed once its process is gone, or it is fenced, or the deadline of its lease has passed.\<close>

definition lapsed :: "('v, 'e, ('e, 'x) lease_mem_scheme, 'r, 'm) system \<Rightarrow> 'm \<Rightarrow> bool" where
  "lapsed S m \<longleftrightarrow> life S m = Dead \<or> fenced (memory S m)
     \<or> (\<exists>e. publishedExpiry (memory S m) = Some e \<and> UnixMilli e \<le> UnixMilli (clock S))"

definition published_id ::
  "('v, 'e, ('e, 'x) lease_mem_scheme, 'r, 'y LManager_scheme) system \<Rightarrow> string \<times> string \<Rightarrow> bool" where
  "published_id S X \<longleftrightarrow> (\<exists>a. ident a = X \<and> publishedExpiry (memory S a) \<noteq> None)"

definition lapsed_id ::
  "('v, 'e, ('e, 'x) lease_mem_scheme, 'r, 'y LManager_scheme) system \<Rightarrow> string \<times> string \<Rightarrow> bool" where
  "lapsed_id S X \<longleftrightarrow> (\<exists>a. ident a = X \<and> publishedExpiry (memory S a) \<noteq> None \<and> lapsed S a)"

context lease_fleet
begin

lemma lapsed_kept:
  assumes "step etag starts a S S'" "lease_inv etag J S" "lapsed S m"
  shows "lapsed S' m"
  using assms(3) unfolding lapsed_def
proof (elim disjE exE conjE)
  fix e assume e: "publishedExpiry (memory S m) = Some e" "UnixMilli e \<le> UnixMilli (clock S)"
  then have "life S m \<noteq> Unborn" using lease_invD(2) [OF assms(2), of m] by auto
  then show "life S' m = Dead \<or> fenced (memory S' m)
      \<or> (\<exists>e. publishedExpiry (memory S' m) = Some e \<and> UnixMilli e \<le> UnixMilli (clock S'))"
    using lapsed_step [OF assms(1,2) _ e] by blast
qed (use step_kept [OF assms(1,2)] in blast)+

lemma ids_kept:
  assumes "step etag starts a S S'" "lease_inv etag J S"
  shows "published_id S X \<Longrightarrow> published_id S' X" "lapsed_id S X \<Longrightarrow> lapsed_id S' X"
  using step_kept(1) [OF assms] lapsed_kept [OF assms] unfolding published_id_def lapsed_id_def by blast+

text \<open>A read of the bucket that shows no live lease of a session proves it lapsed.\<close>

lemma no_lease_lapsed:
  assumes "lease_inv etag J S" "published_id S X" "t \<le> clock S" "lawful J" "wLease W = J"
    and "effect etag (store S) (RGet (LeaseKey (fst X))) out B'" "no_lease W t out X"
  shows "lapsed_id S X"
proof -
  from assms(2) obtain a e where a: "ident a = X" "publishedExpiry (memory S a) = Some e" unfolding published_id_def by blast
  have "lapsed S a"
  proof (rule ccontr)
    assume n: "\<not> lapsed S a"
    with a lease_invD(2) [OF assms(1), of a] have up: "life S a = Up" by (cases "life S a") (auto simp: lapsed_def)
    from n a have "UnixMilli (clock S) < UnixMilli e" "\<not> fenced (memory S a)" by (auto simp: lapsed_def)
    with lease_invD(6) [OF assms(1) up] a have "shown J S a (UnixMilli e)" unfolding mgr_ok_def by blast
    then obtain l where l: "store S (LeaseKey (LNodeID a)) = Some (marshal J l)" "own_lease a l" "UnixMilli e \<le> NLExpiry l"
      by (auto simp: shown_def)
    have "LeaseLive l t" using l(3) UnixMilli_mono [OF assms(3)] \<open>UnixMilli (clock S) < UnixMilli e\<close> by (simp add: Lease.LeaseLive_def)
    moreover have "fst X = LNodeID a" "snd X = LSessionID a" using a(1) by (auto simp: ident_def)
    ultimately show False
      using assms(4-7) l(1,2) by (auto simp: effect_def no_lease_def own_lease_def lawful_def split: outcome.splits)
  qed
  with a show ?thesis unfolding lapsed_id_def by blast
qed

end

subsection \<open>The invariant of the fleet\<close>

text \<open>Ownership of the scope at epoch \<open>e\<close>, as a route of manager \<open>m\<close> claims it.\<close>

definition record_at :: "'v wire \<Rightarrow> string \<Rightarrow> 'v objects \<Rightarrow> Owner option" where
  "record_at W ks B = (case B (own_key ks) of None \<Rightarrow> None | Some v \<Rightarrow> unmarshal (wOwner W) v)"

definition holds ::
  "'v wire \<Rightarrow> string \<Rightarrow> ('v, 'e, 'e owner_mem, 'r, OManager) system \<Rightarrow> OManager \<Rightarrow> Owner \<Rightarrow> bool" where
  "holds W ks S m o' \<longleftrightarrow> lapsed S m \<or> 0 < releasing (memory S m) ks
     \<or> (\<exists>r. record_at W ks (store S) = Some r \<and> owner_ident r = ident m \<and> Epoch r = Epoch o')"

definition sessions_ok :: "('v, 'e, 'e owner_mem, 'r, OManager) system \<Rightarrow> bool" where
  "sessions_ok S \<longleftrightarrow>
     (\<forall>a b. life S a = Up \<longrightarrow> life S b = Up \<or> publishedExpiry (memory S b) \<noteq> None \<longrightarrow> ident a = ident b \<longrightarrow> a = b)
     \<and> (\<forall>a. life S a = Up \<longrightarrow> WithLease a)"

definition record_ok :: "'v wire \<Rightarrow> string \<Rightarrow> ('v, 'e, 'e owner_mem, 'r, OManager) system \<Rightarrow> bool" where
  "record_ok W ks S \<longleftrightarrow>
     (\<forall>r. record_at W ks (store S) = Some r \<longrightarrow> Liveness r = node_lease \<and> published_id S (owner_ident r))"

definition knows :: "('v, 'e, 'e owner_mem, 'r, OManager) system \<Rightarrow> guard_ghost \<Rightarrow> bool" where
  "knows S g \<longleftrightarrow> gNow g \<le> clock S \<and> (\<forall>X \<in> gPub g. published_id S X) \<and> (\<forall>X \<in> gLap g. lapsed_id S X)"

definition routes_ok ::
  "'v wire \<Rightarrow> string \<Rightarrow> ('v, 'e, 'e owner_mem, 'r, OManager) system \<Rightarrow> OManager \<Rightarrow> bool" where
  "routes_ok W ks S m \<longleftrightarrow>
     (life S m = Unborn \<longrightarrow> map_of (routes (memory S m)) ks = None)
     \<and> (\<forall>c. map_of (routes (memory S m)) ks = Some c \<longrightarrow> owner_ident (rtOwner c) = ident m \<longrightarrow> holds W ks S m (rtOwner c))"

definition flight_ok ::
  "'v wire \<Rightarrow> string \<Rightarrow> ('v, 'e, 'e owner_mem, 'r, OManager) system \<Rightarrow> OManager \<Rightarrow> guard_ghost \<Rightarrow> bool" where
  "flight_ok W ks S m g \<longleftrightarrow>
     (\<forall>rv ro. gFl g = Some (rv, ro) \<longrightarrow>
        routeFlights (memory S m) ks \<noteq> None \<and> rv \<le> rev_of (memory S m) ks
        \<and> (\<forall>r. ro = Some r \<longrightarrow> owner_ident r = ident m \<longrightarrow> rev_of (memory S m) ks = rv \<longrightarrow> holds W ks S m r))"

definition counts_ok :: "string \<Rightarrow> ('e, 'x) owner_mem_scheme \<Rightarrow> (nat \<Rightarrow> guard_ghost) \<Rightarrow> bool" where
  "counts_ok ks w G \<longleftrightarrow>
     (\<forall>i j. gFl (G i) \<noteq> None \<longrightarrow> gFl (G j) \<noteq> None \<longrightarrow> i = j)
     \<and> finite {i. gRel (G i)} \<and> card {i. gRel (G i)} \<le> releasing w ks"

definition thread_ok ::
  "'v wire \<Rightarrow> ('v \<Rightarrow> 'e) \<Rightarrow> OManager \<Rightarrow> string \<Rightarrow> ('v, 'e, 'e owner_mem, unit) prog option \<Rightarrow> guard_ghost \<Rightarrow> bool" where
  "thread_ok W etag m ks q g \<longleftrightarrow>
     (case q of None \<Rightarrow> gFl g = None \<and> \<not> gRel g | Some p \<Rightarrow> wp (guard_logic W etag m ks) etag p (\<lambda>_ _. True) g)"

definition guard_inv ::
  "'v wire \<Rightarrow> ('v \<Rightarrow> 'e) \<Rightarrow> string \<Rightarrow> ('v, 'e, 'e owner_mem, unit, OManager) system \<Rightarrow>
   (OManager \<Rightarrow> nat \<Rightarrow> guard_ghost) \<Rightarrow> bool" where
  "guard_inv W etag ks S G \<longleftrightarrow>
     lease_inv etag (wLease W) S \<and> sessions_ok S \<and> record_ok W ks S
     \<and> (\<forall>m. routes_ok W ks S m \<and> counts_ok ks (memory S m) (G m))
     \<and> (\<forall>m i. knows S (G m i) \<and> flight_ok W ks S m (G m i) \<and> thread_ok W etag m ks (threads S m i) (G m i))"

lemma guard_invD:
  assumes "guard_inv W etag ks S G"
  shows "lease_inv etag (wLease W) S" "sessions_ok S" "record_ok W ks S" "routes_ok W ks S m"
    "counts_ok ks (memory S m) (G m)" "knows S (G m i)" "flight_ok W ks S m (G m i)"
    "thread_ok W etag m ks (threads S m i) (G m i)"
  using assms unfolding guard_inv_def by blast+

lemma guard_invI:
  assumes "lease_inv etag (wLease W) S" "sessions_ok S" "record_ok W ks S" "\<And>m. routes_ok W ks S m"
    "\<And>m. counts_ok ks (memory S m) (G m)" "\<And>m i. knows S (G m i)" "\<And>m i. flight_ok W ks S m (G m i)"
    "\<And>m i. thread_ok W etag m ks (threads S m i) (G m i)"
  shows "guard_inv W etag ks S G"
  using assms unfolding guard_inv_def by blast

lemma guard_unborn:
  assumes "guard_inv W etag ks S G" "life S m \<noteq> Up"
  shows "gFl (G m i) = None" "\<not> gRel (G m i)"
  using guard_invD(8) [OF assms(1), of m i] lease_invD(1) [OF guard_invD(1) [OF assms(1)] assms(2)] by (simp_all add: thread_ok_def)

lemma owner_twin:
  assumes "guard_inv W etag ks S G" "life S n = Up" "published_id S X" "X = ident n"
  shows "publishedExpiry (memory S n) \<noteq> None" and "lapsed_id S X \<Longrightarrow> lapsed S n"
  using guard_invD(2) [OF assms(1)] assms(2-4) unfolding sessions_ok_def published_id_def lapsed_id_def by metis+

text \<open>A request of \<open>m\<close> keeps the record of a session that owns the scope, unless the session has lapsed, or is its own
  and releases the scope.\<close>

definition keeps_owner ::
  "'v wire \<Rightarrow> string \<Rightarrow> ('v, 'e, 'e owner_mem, 'r, OManager) system \<Rightarrow> OManager \<Rightarrow> 'v objects \<Rightarrow> OManager \<Rightarrow> bool" where
  "keeps_owner W ks S m B' n \<longleftrightarrow>
     (\<forall>r. record_at W ks (store S) = Some r \<longrightarrow> owner_ident r = ident n \<longrightarrow> \<not> lapsed S n \<longrightarrow>
        n \<noteq> m \<or> releasing (memory S n) ks = 0 \<longrightarrow>
        (\<exists>r'. record_at W ks B' = Some r' \<and> owner_ident r' = ident n \<and> Epoch r' = Epoch r))"

lemma keeps_same: "record_at W ks B' = record_at W ks (store S) \<Longrightarrow> keeps_owner W ks S m B' n"
  by (simp add: keeps_owner_def)

lemma record_upd [simp]:
  "record_at W ks (B(own_key ks \<mapsto> v)) = unmarshal (wOwner W) v" "record_at W ks (B(own_key ks := None)) = None"
  by (simp_all add: record_at_def)

lemma record_ok_own:
  assumes "own_write W m g v" "knows S g" "lawful (wOwner W)" "unmarshal (wOwner W) v = Some r"
  shows "Liveness r = node_lease \<and> published_id S (owner_ident r)"
  using assms by (auto simp: own_write_def knows_def lawful_def)

lemma takeover_keeps:
  assumes inv: "guard_inv W etag ks S G" and "store S (own_key ks) = Some u" "takes_over W g u" "knows S g" "life S n \<noteq> Unborn"
  shows "keeps_owner W ks S m B' n"
proof -
  from assms(2,3) obtain r where r: "record_at W ks (store S) = Some r" "Liveness r = node_lease \<longrightarrow> owner_ident r \<in> gLap g"
    by (auto simp: takes_over_def record_at_def)
  with guard_invD(3) [OF inv] assms(4) have *: "published_id S (owner_ident r)" "lapsed_id S (owner_ident r)"
    by (auto simp: record_ok_def knows_def)
  have "lapsed S n" if "owner_ident r = ident n"
  proof (cases "life S n")
    case Up
    then show ?thesis using owner_twin(2) [OF inv Up * (1) that *(2)] by blast
  qed (use assms(5) in \<open>auto simp: lapsed_def\<close>)
  with r show ?thesis by (auto simp: keeps_owner_def)
qed

lemma same_owner_keeps:
  assumes "store S (own_key ks) = Some u" "same_owner W u v" "lawful (wOwner W)" "guard_inv W etag ks S G"
  shows "keeps_owner W ks S m ((store S)(own_key ks \<mapsto> v)) n"
    and "unmarshal (wOwner W) v = Some r \<Longrightarrow> Liveness r = node_lease \<and> published_id S (owner_ident r)"
  using assms(1-3) guard_invD(3) [OF assms(4)] unfolding keeps_owner_def record_upd
  by (auto simp: record_at_def same_owner_def lawful_def record_ok_def)

lemma release_keeps:
  assumes inv: "guard_inv W etag ks S G" and up: "life S m = Up" and "store S (own_key ks) = Some u" "gRel (G m i)" "owned_by W m u"
    and "life S n \<noteq> Unborn"
  shows "keeps_owner W ks S m B' n"
proof -
  from assms(3,5) obtain r where r: "record_at W ks (store S) = Some r" "owner_ident r = ident m"
    by (auto simp: owned_by_def record_at_def)
  have "lapsed S n \<or> n = m \<and> 0 < releasing (memory S n) ks" if "owner_ident r = ident n"
  proof (cases "life S n")
    case Up
    with up that r guard_invD(2) [OF inv] have "n = m" unfolding sessions_ok_def by metis
    moreover have "finite {j. gRel (G m j)}" "card {j. gRel (G m j)} \<le> releasing (memory S m) ks"
      using guard_invD(5) [OF inv, of m] by (auto simp: counts_ok_def)
    moreover have "0 < card {j. gRel (G m j)}" using assms(4) calculation(2) by (auto simp: card_gt_0_iff)
    ultimately show ?thesis by simp
  qed (use assms(6) in \<open>auto simp: lapsed_def\<close>)
  with r show ?thesis by (auto simp: keeps_owner_def)
qed

lemma guard_effect:
  assumes inv: "guard_inv W etag ks S G" and up: "life S m = Up" and law: "lawful (wOwner W)"
    and may: "may (guard_logic W etag m ks :: (_, _, 'e owner_mem, _) logic) (G m i) rq" and eff: "effect etag (store S) rq out B'"
  shows "\<forall>n. life S n \<noteq> Unborn \<longrightarrow> keeps_owner W ks S m B' n"
    and "record_at W ks B' = Some r \<Longrightarrow> Liveness r = node_lease \<and> published_id S (owner_ident r)"
proof -
  note kn = guard_invD(6) [OF inv, of m i] and rec = guard_invD(3) [OF inv]
  have "(\<forall>n. life S n \<noteq> Unborn \<longrightarrow> keeps_owner W ks S m B' n)
      \<and> (record_at W ks B' = Some r \<longrightarrow> Liveness r = node_lease \<and> published_id S (owner_ident r))"
  proof (cases "B' (own_key ks) = store S (own_key ks)")
    case True
    then have "record_at W ks B' = record_at W ks (store S)" by (simp add: record_at_def)
    with rec show ?thesis by (simp add: keeps_same record_ok_def)
  next
    case False
    then have key: "key_of rq = own_key ks" using effect_other [OF eff] by metis
    show ?thesis
    proof (cases rq)
      case (RCreate k v)
      with eff False key have B': "B' = (store S)(own_key ks \<mapsto> v)" "store S (own_key ks) = None" by (auto simp: effect_def)
      then show ?thesis
        using may RCreate key record_ok_own [OF _ kn law] by (auto simp: keeps_owner_def record_at_def)
    next
      case (RCAS k v e)
      with eff False key obtain u where u: "B' = (store S)(own_key ks \<mapsto> v)" "store S (own_key ks) = Some u" "etag u = e"
        by (auto simp: effect_def)
      with may RCAS key consider "own_write W m (G m i) v" "takes_over W (G m i) u" | "same_owner W u v" by auto
      then show ?thesis
      proof cases
        case 1
        then show ?thesis using takeover_keeps [OF inv u(2) 1(2) kn] record_ok_own [OF 1(1) kn law] u(1) by simp
      next
        case 2
        then show ?thesis using same_owner_keeps [OF u(2) 2 law inv] u(1) by simp
      qed
    next
      case (RCDelete k e)
      with eff False key obtain u where u: "B' = (store S)(own_key ks := None)" "store S (own_key ks) = Some u" "etag u = e"
        by (auto simp: effect_def)
      with may RCDelete key have "gRel (G m i)" "owned_by W m u" by auto
      then show ?thesis using release_keeps [OF inv up u(2)] u(1) by simp
    qed (use may eff False key in \<open>auto simp: effect_def\<close>)
  qed
  then show "\<forall>n. life S n \<noteq> Unborn \<longrightarrow> keeps_owner W ks S m B' n"
    and "record_at W ks B' = Some r \<Longrightarrow> Liveness r = node_lease \<and> published_id S (owner_ident r)" by blast+
qed

text \<open>What a read teaches the thread is so.\<close>

lemma learn_keeps [simp]: "gRel (learn W ks g k out) = gRel g" "gFl (learn W ks g k out) = None \<longleftrightarrow> gFl g = None"
  "gNow (learn W ks g k out) = gNow g"
  by (auto simp: learn_def split: outcome.split option.split)

context lease_fleet
begin

lemma learn_lapsed:
  assumes "lease_inv etag J S" "wLease W = J" "lawful J" "gNow g \<le> clock S" "\<forall>X \<in> gPub g. published_id S X"
    and "effect etag (store S) (RGet k) out B'" "X \<in> gPub g" "k = LeaseKey (fst X)" "no_lease W (gNow g) out X"
  shows "lapsed_id S X"
  using no_lease_lapsed [OF assms(1) _ assms(4,3,2) _ assms(9), of B'] assms(5-8) by simp

end

lemma learn_knows:
  assumes inv: "guard_inv W etag ks S G" and law: "lawful (wLease W)" and eff: "effect etag (store S) (RGet k) out B'"
  shows "knows S (learn W ks (G m i) k out)" and "flight_ok W ks S m (learn W ks (G m i) k out)"
proof -
  note kn = guard_invD(6) [OF inv, of m i] and fl = guard_invD(7) [OF inv, of m i]
  have rd: "record_at W ks (store S) = Some r" if "k = own_key ks" "out = Body v" "unmarshal (wOwner W) v = Some r" for v r
    using that eff by (auto simp: effect_def record_at_def)
  have lap: "lapsed_id S X" if "X \<in> gPub (G m i)" "k = LeaseKey (fst X)" "no_lease W (gNow (G m i)) out X" for X
    using cells.learn_lapsed [OF guard_invD(1) [OF inv] refl law _ _ eff that] kn by (auto simp: knows_def)
  show "knows S (learn W ks (G m i) k out)"
    using kn lap rd guard_invD(3) [OF inv]
    by (auto simp: knows_def learn_def record_ok_def split: outcome.split option.split)
  show "flight_ok W ks S m (learn W ks (G m i) k out)"
    using fl rd unfolding flight_ok_def holds_def by (auto simp: learn_def split: outcome.split option.split)
qed

lemma holds_kept:
  assumes "holds W ks S n o'" "keeps_owner W ks S m (store S') n" "clock S' = clock S" "life S' = life S" "memory S' = memory S"
  shows "holds W ks S' n o'"
  using assms unfolding holds_def lapsed_def keeps_owner_def by (metis gr0I)

lemma guard_inv_store:
  assumes inv: "guard_inv W etag ks S G"
    and same: "clock S' = clock S" "life S' = life S" "memory S' = memory S" and lease: "lease_inv etag (wLease W) S'"
    and keeps: "\<And>n. life S n \<noteq> Unborn \<Longrightarrow> keeps_owner W ks S m (store S') n"
    and rec: "\<And>r. record_at W ks (store S') = Some r \<Longrightarrow> Liveness r = node_lease \<and> published_id S (owner_ident r)"
    and g: "gRel g = gRel (G m i)" "gFl g = None \<longleftrightarrow> gFl (G m i) = None" "knows S g" "flight_ok W ks S m g" and up: "life S m = Up"
    and th: "\<And>n j. thread_ok W etag n ks (threads S' n j) (set_ghost m i g G n j)"
  shows "guard_inv W etag ks S' (set_ghost m i g G)"
proof (rule guard_invI)
  have id: "published_id S' X = published_id S X" "lapsed_id S' X = lapsed_id S X" for X
    by (simp_all add: published_id_def lapsed_id_def lapsed_def same)
  have kn: "knows S' h = knows S h" for h by (simp add: knows_def id same)
  note holds = holds_kept [OF _ keeps same]
  show "sessions_ok S'" using guard_invD(2) [OF inv] by (simp add: sessions_ok_def same)
  show "record_ok W ks S'" using rec by (simp add: record_ok_def id)
  show "routes_ok W ks S' n" for n
    using guard_invD(4) [OF inv, of n] holds unfolding routes_ok_def same by (metis option.distinct(1))
  have "(\<lambda>j. gFl (set_ghost m i g G n j) \<noteq> None) = (\<lambda>j. gFl (G n j) \<noteq> None)" "{j. gRel (set_ghost m i g G n j)} = {j. gRel (G n j)}" for n
    using g(1,2) by (auto simp: set_ghost_cases)
  then show "counts_ok ks (memory S' n) (set_ghost m i g G n)" for n
    using guard_invD(5) [OF inv, of n] unfolding counts_ok_def same by metis
  show "knows S' (set_ghost m i g G n j)" for n j using guard_invD(6) [OF inv, of n j] g(3) by (simp add: kn set_ghost_cases)
  have "flight_ok W ks S n (set_ghost m i g G n j)" "gFl (set_ghost m i g G n j) = None \<or> life S n \<noteq> Unborn" for n j
    using guard_invD(7) [OF inv, of n j] g(4) up guard_unborn [OF inv, of n j] by (auto simp: set_ghost_cases)
  then show "flight_ok W ks S' n (set_ghost m i g G n j)" for n j
    using holds [of n] unfolding flight_ok_def same by (metis option.distinct(1))
qed (rule lease, rule th)

text \<open>A step that leaves the bucket alone and concerns one manager.\<close>

lemma holds_step:
  assumes "step etag (owner_starts W) x S S'" "lease_inv etag (wLease W) S" "holds W ks S n o'" "store S' = store S"
    and "0 < releasing (memory S n) ks \<Longrightarrow> 0 < releasing (memory S' n) ks"
  shows "holds W ks S' n o'"
  using assms cells.lapsed_kept [OF assms(1,2)] unfolding holds_def by auto

lemma guard_frame:
  assumes inv: "guard_inv W etag ks S G" and st: "step etag (owner_starts W) x S S'"
    and lease: "lease_inv etag (wLease W) S'" and store: "store S' = store S" and sess: "sessions_ok S'"
    and same: "\<And>n. n \<noteq> m \<Longrightarrow> life S' n = life S n \<and> memory S' n = memory S n \<and> threads S' n = threads S n \<and> G' n = G n"
    and mem: "routes_ok W ks S' m" "counts_ok ks (memory S' m) (G' m)" "\<And>i. flight_ok W ks S' m (G' m i)"
    and th: "\<And>i. knows S (G' m i)" "\<And>i. thread_ok W etag m ks (threads S' m i) (G' m i)"
  shows "guard_inv W etag ks S' G'"
proof (rule guard_invI)
  note inv_lease = guard_invD(1) [OF inv]
  note ids = cells.ids_kept [OF st inv_lease] and holds = holds_step [OF st inv_lease _ store]
  have kn: "knows S g \<Longrightarrow> knows S' g" for g
    using ids cells.step_kept(4) [OF st inv_lease] by (auto simp: knows_def)
  show "record_ok W ks S'" using guard_invD(3) [OF inv] ids by (simp add: record_ok_def store)
  show "routes_ok W ks S' n" for n
    using guard_invD(4) [OF inv, of n] holds [of ks n] same [of n] mem(1) by (cases "n = m") (auto simp: routes_ok_def)
  show "counts_ok ks (memory S' n) (G' n)" for n
    using guard_invD(5) [OF inv, of n] same [of n] mem(2) by (cases "n = m") auto
  show "knows S' (G' n j)" for n j
    using guard_invD(6) [OF inv, of n j] same [of n] th(1) by (cases "n = m") (auto intro: kn)
  show "flight_ok W ks S' n (G' n j)" for n j
    using guard_invD(7) [OF inv, of n j] holds [of ks n] same [of n] mem(3) by (cases "n = m") (auto simp: flight_ok_def)
  show "thread_ok W etag n ks (threads S' n j) (G' n j)" for n j
    using guard_invD(8) [OF inv, of n j] same [of n] th(2) by (cases "n = m") auto
qed (rule lease, rule sess)

text \<open>The conditions on a manager whose memory does not change.\<close>

lemma guard_mem_same:
  assumes inv: "guard_inv W etag ks S G" and st: "step etag (owner_starts W) x S S'"
    and same: "store S' = store S" "memory S' m = memory S m" "life S' m = Unborn \<Longrightarrow> life S m = Unborn"
  shows "routes_ok W ks S' m" and "flight_ok W ks S' m (G m i)"
  using guard_invD(4,7) [OF inv, of m] holds_step [OF st guard_invD(1) [OF inv] _ same(1), of ks m] same(2,3)
  unfolding routes_ok_def flight_ok_def by auto

definition at_rest :: "guard_ghost \<Rightarrow> guard_ghost" where
  "at_rest g = g\<lparr>gFl := None, gRel := False\<rparr>"

lemma at_rest_simps [simp]: "gFl (at_rest g) = None" "\<not> gRel (at_rest g)" "knows S (at_rest g) = knows S g"
  "flight_ok W ks S m (at_rest g)"
  by (simp_all add: at_rest_def knows_def flight_ok_def)

lemma flight_none: "gFl g = None \<Longrightarrow> flight_ok W ks S m g"
  by (simp add: flight_ok_def)

text \<open>The counts when one thread changes what it does.\<close>

lemma counts_set:
  assumes "counts_ok ks w (G m)" "gFl g = None \<or> gFl (G m i) \<noteq> None \<or> (\<forall>j. gFl (G m j) = None)"
    and "releasing w' ks = (if gRel g \<and> \<not> gRel (G m i) then releasing w ks + 1
      else if \<not> gRel g \<and> gRel (G m i) \<and> b then releasing w ks - 1 else releasing w ks)"
  shows "counts_ok ks w' (set_ghost m i g G m)"
proof -
  let ?R = "{j. gRel (G m j)}" and ?R' = "{j. gRel (set_ghost m i g G m j)}"
  have fin: "finite ?R" "card ?R \<le> releasing w ks" using assms(1) by (auto simp: counts_ok_def)
  have R': "?R' = (if gRel g then insert i ?R else ?R - {i})" by (auto simp: set_ghost_cases)
  have "finite ?R'" using R' fin(1) by (auto split: if_splits)
  moreover have "card ?R' \<le> releasing w' ks"
    using fin assms(3) unfolding R' by (auto simp: card_insert_if card_Diff_singleton_if split: if_splits)
  moreover have "j = l" if "gFl (set_ghost m i g G m j) \<noteq> None" "gFl (set_ghost m i g G m l) \<noteq> None" for j l
    using that assms(1,2) unfolding counts_ok_def by (auto simp: set_ghost_cases split: if_splits)
  ultimately show ?thesis unfolding counts_ok_def by blast
qed

subsection \<open>Every step keeps it\<close>

lemma guard_call:
  assumes inv: "guard_inv W etag ks S G" and p: "threads S m i = Some p" "bucket_call etag (store S) p B' p'"
    and laws: "lawful (wOwner W)" "lawful (wLease W)"
    and lease: "lease_inv etag (wLease W) (set_thread m i (Some p') (S\<lparr>store := B'\<rparr>))" (is "lease_inv etag _ ?S'")
  shows "\<exists>G'. guard_inv W etag ks ?S' G'"
proof -
  let ?L = "guard_logic W etag m ks :: ('a, 'b, 'b owner_mem, guard_ghost) logic"
  have up: "life S m = Up" using lease_invD(1) [OF guard_invD(1) [OF inv], of m i] p(1) by auto
  have "wp ?L etag p (\<lambda>_ _. True) (G m i)" using guard_invD(8) [OF inv, of m i] p(1) by (simp add: thread_ok_def)
  from wp_call [OF p(2) this] have "\<exists>g. wp ?L etag p' (\<lambda>_ _. True) g \<and> gRel g = gRel (G m i)
      \<and> (gFl g = None \<longleftrightarrow> gFl (G m i) = None) \<and> knows S g \<and> flight_ok W ks S m g
      \<and> (\<forall>n. life S n \<noteq> Unborn \<longrightarrow> keeps_owner W ks S m B' n)
      \<and> (\<forall>r. record_at W ks B' = Some r \<longrightarrow> Liveness r = node_lease \<and> published_id S (owner_ident r))"
  proof (elim disjE exE conjE)
    assume "B' = store S" "wp ?L etag p' (\<lambda>_ _. True) (G m i)"
    then show ?thesis
      using guard_invD(3) [OF inv] guard_invD(6,7) [OF inv, of m i]
      by (intro exI [of _ "G m i"]) (auto simp: keeps_same record_ok_def)
  next
    fix rq out assume rq: "may ?L (G m i) rq" "effect etag (store S) rq out B'" "wp ?L etag p' (\<lambda>_ _. True) (post ?L (G m i) rq out)"
    note eff = guard_effect [OF inv up laws(1) rq(1,2)]
    have "gRel (post ?L (G m i) rq out) = gRel (G m i) \<and> (gFl (post ?L (G m i) rq out) = None \<longleftrightarrow> gFl (G m i) = None)
        \<and> knows S (post ?L (G m i) rq out) \<and> flight_ok W ks S m (post ?L (G m i) rq out)"
      using learn_knows [OF inv laws(2), of _ out B' m i] rq(2) guard_invD(6,7) [OF inv, of m i] by (cases rq) auto
    with rq(3) eff(1) show ?thesis by (intro exI [of _ "post ?L (G m i) rq out"]) (simp add: eff(2))
  qed
  then obtain g where g: "wp ?L etag p' (\<lambda>_ _. True) g" "gRel g = gRel (G m i)" "gFl g = None \<longleftrightarrow> gFl (G m i) = None"
    "knows S g" "flight_ok W ks S m g" "\<forall>n. life S n \<noteq> Unborn \<longrightarrow> keeps_owner W ks S m B' n"
    "\<forall>r. record_at W ks B' = Some r \<longrightarrow> Liveness r = node_lease \<and> published_id S (owner_ident r)" by (elim exE conjE) (rule that)
  have "thread_ok W etag n ks (threads ?S' n j) (set_ghost m i g G n j)" for n j
    using guard_invD(8) [OF inv, of n j] g(1) by (auto simp: set_ghost_cases thread_ok_def)
  then show ?thesis
    using guard_inv_store [where g = g and m = m and i = i, OF inv _ _ _ lease] g(2-7) up by auto
qed

lemma guard_local_mem:
  assumes inv: "guard_inv W etag ks S G" and sec: "guard_section ks m (G m i) (memory S m) w' g"
    and keep: "\<And>o'. holds W ks S m o' \<Longrightarrow> 0 < releasing (memory S m) ks \<longrightarrow> 0 < releasing w' ks \<Longrightarrow> holds W ks S' m o'"
    and S': "memory S' m = w'" "life S' m = Up" and up: "life S m = Up"
  shows "routes_ok W ks S' m" "counts_ok ks w' (set_ghost m i g G m)" "flight_ok W ks S' m (set_ghost m i g G m j)"
    "knows S (set_ghost m i g G m j)"
proof -
  let ?w = "memory S m" and ?G = "set_ghost m i g G m"
  note rt = guard_invD(4) [OF inv, of m] and fl = guard_invD(7) [OF inv, of m] and ct = guard_invD(5) [OF inv, of m]
    and kn = guard_invD(6) [OF inv, of m]
  have flk: "flight_ok W ks S' m h" if "flight_ok W ks S m h" "routeFlights ?w ks \<noteq> None \<Longrightarrow> routeFlights w' ks \<noteq> None"
      "routeFlights ?w ks \<noteq> None \<Longrightarrow> rev_of ?w ks < rev_of w' ks \<or> rev_of ?w ks \<le> rev_of w' ks \<and> releasing w' ks = releasing ?w ks" for h
    unfolding flight_ok_def S'(1)
  proof (intro allI impI)
    fix rv ro assume h: "gFl h = Some (rv, ro)"
    with that show "routeFlights w' ks \<noteq> None \<and> rv \<le> rev_of w' ks
        \<and> (\<forall>r. ro = Some r \<longrightarrow> owner_ident r = ident m \<longrightarrow> rev_of w' ks = rv \<longrightarrow> holds W ks S' m r)"
      by (auto simp: flight_ok_def intro!: keep)
  qed
  have rtk: "routes_ok W ks S' m" if "routes_from ks ?w w'" "releasing w' ks = releasing ?w ks"
    unfolding routes_ok_def S'(1)
  proof (intro conjI allI impI)
    fix c assume "map_of (routes w') ks = Some c" "owner_ident (rtOwner c) = ident m"
    with that(1) rt have "holds W ks S m (rtOwner c)" by (auto simp: routes_from_def routes_ok_def)
    then show "holds W ks S' m (rtOwner c)" using that(2) by (intro keep) simp_all
  qed (use S' in simp)
  have one: "gFl (G m l) = None" if "l \<noteq> i" "gFl (G m i) \<noteq> None" for l
    using that ct unfolding counts_ok_def by blast
  have idle: "gFl (G m l) = None" if "routeFlights ?w ks = None" for l
    using that fl [of l] by (cases "gFl (G m l)") (auto simp: flight_ok_def)
  have "routes_ok W ks S' m \<and> counts_ok ks w' ?G \<and> flight_ok W ks S' m (?G j) \<and> knows S (?G j)"
    using sec unfolding guard_section_def
  proof (elim disjE exE conjE)
    assume a: "mem_still ks ?w w'" "g = G m i"
    then show ?thesis
      using rtk kn [of j] ct flk [OF fl [of j]] unfolding mem_still_def a(2) set_ghost_same by (auto simp: counts_ok_def)
  next
    fix rv assume a: "gFl (G m i) = None" "flight_start ks rv ?w w'" "g = G m i\<lparr>gFl := Some (rv, None)\<rparr>"
    then have "counts_ok ks w' ?G" using idle by (intro counts_set [where m = m and i = i and G = G, OF ct]) (auto simp: flight_start_def)
    moreover have "flight_ok W ks S' m (?G j)"
      using a idle by (auto simp: set_ghost_cases flight_start_def flight_ok_def S')
    ultimately show ?thesis
      using a rtk kn [of i] kn [of j] by (auto simp: flight_start_def set_ghost_cases knows_def)
  next
    fix rv ro assume a: "gFl (G m i) = Some (rv, ro)" "flight_end ks m rv ro ?w w'" "g = G m i\<lparr>gFl := None\<rparr>"
    then have "counts_ok ks w' ?G" by (intro counts_set [where m = m and i = i and G = G, OF ct]) (auto simp: flight_end_def)
    moreover have "flight_ok W ks S' m (?G j)" using a one by (auto simp: set_ghost_cases intro!: flight_none)
    moreover have "routes_ok W ks S' m"
      unfolding routes_ok_def S'(1)
    proof (intro conjI allI impI)
      fix c assume c: "map_of (routes w') ks = Some c" "owner_ident (rtOwner c) = ident m"
      with a(2) consider c' where "map_of (routes ?w) ks = Some c'" "rtOwner c = rtOwner c'"
        | "rev_of ?w ks = rv" "ro = Some (rtOwner c)"
        by (auto simp: flight_end_def)
      then have "holds W ks S m (rtOwner c)"
        using rt fl [of i] a(1) c(2) by cases (auto simp: routes_ok_def flight_ok_def)
      then show "holds W ks S' m (rtOwner c)" using keep a(2) by (auto simp: flight_end_def)
    qed (use S' in simp)
    ultimately show ?thesis using a kn [of i] kn [of j] by (auto simp: set_ghost_cases knows_def)
  next
    assume a: "\<not> gRel (G m i)" "moves_on ks ?w w'" "releasing w' ks = releasing ?w ks + 1" "g = G m i\<lparr>gRel := True\<rparr>"
    then have "counts_ok ks w' ?G" by (intro counts_set [where m = m and i = i and G = G, OF ct]) auto
    then show ?thesis
      using a flk [OF fl [of i]] flk [OF fl [of j]] kn [of i] kn [of j]
      by (auto simp: moves_on_def routes_ok_def S' set_ghost_cases knows_def flight_ok_def)
  next
    assume a: "gRel (G m i)" "moves_on ks ?w w'" "releasing w' ks = releasing ?w ks - 1" "g = G m i\<lparr>gRel := False\<rparr>"
    then have "counts_ok ks w' ?G" by (intro counts_set [where b = True and m = m and i = i and G = G, OF ct]) auto
    then show ?thesis
      using a flk [OF fl [of i]] flk [OF fl [of j]] kn [of i] kn [of j]
      by (auto simp: moves_on_def routes_ok_def S' set_ghost_cases knows_def flight_ok_def)
  qed
  then show "routes_ok W ks S' m" "counts_ok ks w' ?G" "flight_ok W ks S' m (?G j)" "knows S (?G j)" by blast+
qed

lemma guard_local:
  assumes inv: "guard_inv W etag ks S G" and p: "threads S m i = Some (Local u c)"
    and st: "step etag (owner_starts W) x S S'" and lease: "lease_inv etag (wLease W) S'"
    and S': "S' = set_thread m i (Some (c (clock S) (memory S m))) (S\<lparr>memory := (memory S)(m := u (clock S) (memory S m))\<rparr>)"
  shows "\<exists>G'. guard_inv W etag ks S' G'"
proof -
  let ?L = "guard_logic W etag m ks :: ('a, 'b, 'b owner_mem, guard_ghost) logic" and ?w' = "u (clock S) (memory S m)"
  have up: "life S m = Up" using lease_invD(1) [OF guard_invD(1) [OF inv], of m i] p by auto
  have "wp ?L etag (Local u c) (\<lambda>_ _. True) (G m i)" using guard_invD(8) [OF inv, of m i] p by (simp add: thread_ok_def)
  then obtain g where g: "guard_section ks m (G m i) (memory S m) ?w' g" "wp ?L etag (c (clock S) (memory S m)) (\<lambda>_ _. True) g"
    by fastforce
  have keep: "holds W ks S' m o'" if "holds W ks S m o'" "0 < releasing (memory S m) ks \<longrightarrow> 0 < releasing ?w' ks" for o'
    using holds_step [OF st guard_invD(1) [OF inv] that(1)] that(2) S' by simp
  note mem = guard_local_mem [OF inv g(1) keep _ _ up]
  have "sessions_ok S'" using guard_invD(2) [OF inv] up unfolding sessions_ok_def S' by (auto split: if_splits)
  moreover have "thread_ok W etag m ks (threads S' m j) (set_ghost m i g G m j)" for j
    using guard_invD(8) [OF inv, of m j] g(2) S' by (auto simp: set_ghost_cases thread_ok_def)
  ultimately have "guard_inv W etag ks S' (set_ghost m i g G)"
    using mem S' up by (intro guard_frame [OF inv st lease, of m]) (auto simp: set_ghost_def)
  then show ?thesis by blast
qed

lemma guard_thread_set:
  assumes inv: "guard_inv W etag ks S G" and st: "step etag (owner_starts W) x S S'" and lease: "lease_inv etag (wLease W) S'"
    and S': "S' = set_thread m i q S" and g: "gFl g = None" "\<not> gRel g" "knows S g" "thread_ok W etag m ks q g"
  shows "\<exists>G'. guard_inv W etag ks S' G'"
proof -
  have "sessions_ok S'" using guard_invD(2) [OF inv] by (simp add: sessions_ok_def S')
  moreover have "thread_ok W etag m ks (threads S' m j) (set_ghost m i g G m j)" for j
    using guard_invD(8) [OF inv, of m j] g(4) by (auto simp: set_ghost_cases S')
  moreover have "flight_ok W ks S' m (set_ghost m i g G m j)" "knows S (set_ghost m i g G m j)" for j
    using guard_mem_same(2) [OF inv st, of m j] guard_invD(6) [OF inv, of m j] g by (auto simp: set_ghost_cases S' flight_none)
  moreover have "counts_ok ks (memory S m) (set_ghost m i g G m)"
    using g by (intro counts_set [where m = m and i = i and G = G and b = False, OF guard_invD(5) [OF inv]]) auto
  ultimately have "guard_inv W etag ks S' (set_ghost m i g G)"
    using guard_mem_same(1) [OF inv st, of m] by (intro guard_frame [OF inv st lease, of m]) (auto simp: S' set_ghost_def)
  then show ?thesis by blast
qed

lemma guard_life:
  assumes inv: "guard_inv W etag ks S G" and st: "step etag (owner_starts W) x S S'" and lease: "lease_inv etag (wLease W) S'"
    and same: "store S' = store S" "memory S' = memory S" "\<And>n. n \<noteq> m \<Longrightarrow> life S' n = life S n \<and> threads S' n = threads S n"
    and m: "life S m = Unborn \<or> life S' m \<noteq> Unborn" "\<And>i. threads S' m i = None" and sess: "sessions_ok S'"
  shows "\<exists>G'. guard_inv W etag ks S' G'"
proof -
  let ?G = "G(m := \<lambda>i. at_rest (G m i))"
  have "counts_ok ks (memory S' m) (?G m)" by (simp add: counts_ok_def)
  moreover have "thread_ok W etag m ks (threads S' m i) (?G m i)" for i using m(2) by (simp add: thread_ok_def)
  ultimately have "guard_inv W etag ks S' ?G"
    using guard_mem_same(1) [OF inv st, of m] guard_invD(6) [OF inv, of m] same m(1)
    by (intro guard_frame [OF inv st lease _ sess, of m]) auto
  then show ?thesis by blast
qed

lemma guard_step:
  assumes st: "step etag (owner_starts W) x S S'" and inv: "guard_inv W etag ks S G"
    and laws: "inj etag" "lawful (wOwner W)" "lawful (wLease W)" "tracked ks"
  shows "\<exists>G'. guard_inv W etag ks S' G'"
proof -
  note linv = guard_invD(1) [OF inv] and sess = guard_invD(2) [OF inv]
  have lease: "lease_inv etag (wLease W) S'" using cells.step_lease_inv [OF laws(1,3) st linv] .
  show ?thesis
    using st
  proof cases
    case (tick t)
    have "guard_inv W etag ks S' G"
      using guard_mem_same [OF inv st] guard_invD(5,6,8) [OF inv] sess tick
      by (intro guard_frame [OF inv st lease, of undefined]) (auto simp: sessions_ok_def)
    then show ?thesis by blast
  next
    case (boot m)
    from boot(4) have "(\<forall>n. life S n \<noteq> Unborn \<longrightarrow> ident m \<noteq> ident n) \<and> WithLease m" by cases auto
    moreover have "life S b \<noteq> Unborn" if "life S b = Up \<or> publishedExpiry (memory S b) \<noteq> None" for b
      using that lease_invD(2) [OF linv, of b] by auto
    ultimately have "WithLease m" and new: "\<And>b. life S b = Up \<or> publishedExpiry (memory S b) \<noteq> None \<Longrightarrow> ident m \<noteq> ident b" by blast+
    with sess have "sessions_ok S'" unfolding sessions_ok_def boot(2) by (auto split: if_splits) (metis option.distinct(1))+
    then show ?thesis using boot lease_invD(1) [OF linv, of m] by (intro guard_life [OF inv st lease, of m]) auto
  next
    case (halt m)
    have "sessions_ok S'" using sess unfolding sessions_ok_def halt(2) by (auto split: if_splits)
    then show ?thesis using halt by (intro guard_life [OF inv st lease, of m]) auto
  next
    case (start m i p)
    have "WithLease m" using sess start(3) by (simp add: sessions_ok_def)
    from owner_starts_guard [OF laws(1,4) this start(5)] obtain now pub where
      g: "wp (guard_logic W etag m ks) etag p (\<lambda>_ _. True) (first_ghost now pub)" "now \<le> clock S"
        "pub \<subseteq> (if publishedExpiry (memory S m) = None then {} else {ident m})" by blast
    then have "published_id S X" if "X \<in> pub" for X
      using that unfolding published_id_def by (intro exI [of _ m]) (auto split: if_splits)
    with g(2) have "knows S (first_ghost now pub)" by (simp add: knows_def)
    then show ?thesis
      using g(1) by (intro guard_thread_set [OF inv st lease start(2), of "first_ghost now pub"]) (auto simp: thread_ok_def)
  next
    case (call m i p B' p')
    then show ?thesis using guard_call [OF inv call(3,4) laws(2,3)] lease by simp
  next
    case (local m i u c)
    then show ?thesis using guard_local [OF inv local(3) st lease] by simp
  next
    case (finish m i)
    then show ?thesis
      using guard_invD(6) [OF inv, of m i]
      by (intro guard_thread_set [OF inv st lease finish(2), of "at_rest (G m i)"]) (auto simp: thread_ok_def)
  qed
qed

text \<open>A fleet of which no process has run yet, with no owner record for the scope.\<close>

definition fresh_cells :: "string \<Rightarrow> ('v, 'e, 'e owner_mem, 'r, OManager) system \<Rightarrow> bool" where
  "fresh_cells ks S \<longleftrightarrow> fresh_fleet S \<and> store S (own_key ks) = None \<and> (\<forall>m. map_of (routes (memory S m)) ks = None)"

lemma fresh_guard_inv: "fresh_cells ks S \<Longrightarrow> guard_inv W etag ks S (\<lambda>_ _. first_ghost (clock S) {})"
  by (intro guard_invI)
     (auto simp: fresh_cells_def fresh_lease_inv sessions_ok_def record_ok_def record_at_def routes_ok_def counts_ok_def
        knows_def flight_none thread_ok_def fresh_fleet_def idle_def)

lemma reachable_guard_inv:
  assumes "reachable etag (owner_starts W) S S'" "\<exists>G. guard_inv W etag ks S G"
    and "inj etag" "lawful (wOwner W)" "lawful (wLease W)" "tracked ks"
  shows "\<exists>G. guard_inv W etag ks S' G"
  using assms(1)
proof (induction rule: reachable.induct)
  case (more S' x S'')
  then show ?case using guard_step [OF more(2) _ assms(3-6)] by blast
qed (rule assms(2))

text \<open>The sessions that may read locally: running, healthy, with a local route and no release under way.\<close>

lemma guard_inv_owner:
  assumes inv: "guard_inv W etag ks S G" and up: "life S m = Up" and h: "fst (Healthy m (clock S) (clock S) (memory S m))"
    and c: "map_of (routes (memory S m)) ks = Some c" "localLease m (rtOwner c)" and r: "releasing (memory S m) ks = 0"
  shows "\<exists>r. record_at W ks (store S) = Some r \<and> owner_ident r = ident m \<and> Epoch r = Epoch (rtOwner c)"
proof -
  have "\<not> lapsed S m"
    using h up by (auto simp: lapsed_def Healthy_def HealthyUntil_def expired_at_def Let_def split: if_splits option.splits)
  with guard_invD(4) [OF inv, of m] c(1) local_ident [OF c(2)] r show ?thesis by (auto simp: routes_ok_def holds_def)
qed

lemma LocalReadGuard_cases:
  assumes "LocalReadGuard m s now w = (Some gd, w')"
  shows "map_of (routes w) (ScopeString s) = Some (rgRoute gd)" "localLease m (rtOwner (rgRoute gd))"
    "releasing w (ScopeString s) = 0" "fst (Healthy m now now w)"
  using assms by (auto simp: LocalReadGuard_def Let_def split: option.splits if_splits prod.splits bool.splits)

lemma read_guard_cases:
  assumes "fst (read_guard_check m s gd released now w)"
  shows "\<exists>c. map_of (routes w) (ScopeString s) = Some c \<and> rtOwner c = rtOwner (rgRoute gd)" "localLease m (rtOwner (rgRoute gd))"
    "releasing w (ScopeString s) = 0" "fst (Healthy m now now w)"
  using assms by (auto simp: read_guard_check_def Let_def split: option.splits if_splits prod.splits bool.splits)

lemma guard_others_keep:
  assumes inv: "guard_inv W etag ks S G" and law: "lawful (wOwner W)" and st: "step etag (owner_starts W) (Some n) S S'" and "n \<noteq> m"
    and rec: "record_at W ks (store S) = Some r" "owner_ident r = ident m" and m: "life S m = Up" "\<not> lapsed S m"
  shows "\<exists>r'. record_at W ks (store S') = Some r' \<and> owner_ident r' = ident m \<and> Epoch r' = Epoch r"
proof (cases "store S' = store S")
  case False
  from st False obtain i p p' where p: "threads S n i = Some p" "bucket_call etag (store S) p (store S') p'"
    by cases auto
  then have up: "life S n = Up" using lease_invD(1) [OF guard_invD(1) [OF inv], of n i] by auto
  have "wp (guard_logic W etag n ks) etag p (\<lambda>_ _. True) (G n i)" using guard_invD(8) [OF inv, of n i] p(1) by (simp add: thread_ok_def)
  from wp_call [OF p(2) this] False guard_effect(1) [OF inv up law] have "keeps_owner W ks S n (store S') m"
    using m(1) by (metis life.distinct(1))
  then show ?thesis using rec m(2) \<open>n \<noteq> m\<close> by (simp add: keeps_owner_def)
qed (use rec in simp)

lemma healthy_not_lapsed: "fst (Healthy m (clock S) (clock S) (memory S m)) \<Longrightarrow> life S m = Up \<Longrightarrow> \<not> lapsed S m"
  by (auto simp: lapsed_def Healthy_def HealthyUntil_def expired_at_def Let_def split: if_splits option.splits)

lemma record_at_owner: "record_at W (ScopeString s) B = Some r \<longleftrightarrow> (\<exists>v. B (OwnerKey s) = Some v \<and> unmarshal (wOwner W) v = Some r)"
  by (auto simp: record_at_def OwnerKey_def own_key_def ScopeKey_def split: option.split)

lemma reachable_cell_inv:
  assumes "inj etag" "lawful (wOwner W)" "lawful (wLease W)" "Validate s = Inr ()" "Class s \<noteq> ''__do__''"
    and "fresh_cells (ScopeString s) S\<^sub>0" "reachable etag (owner_starts W) S\<^sub>0 S"
  obtains G where "guard_inv W etag (ScopeString s) S G"
proof -
  have "tracked (ScopeString s)" using assms(4,5) by (auto simp: tracked_def)
  with reachable_guard_inv [OF assms(7) exI, OF fresh_guard_inv [OF assms(6)]] assms(1-3) that show ?thesis by blast
qed

subsection \<open>A fleet to run\<close>

text \<open>One more handler, run undisturbed.\<close>

lemma run_more:
  fixes S :: "('v, 'e, 'w, unit, 'm) system"
  assumes "reachable etag starts S\<^sub>0 S" "life S m = Up" "threads S m i = None" "starts S m (Run i p)"
    and "run etag (clock S) p (store S) (memory S m) = ((), B', w')"
  obtains S' where "reachable etag starts S\<^sub>0 S'" "clock S' = clock S" "life S' = life S" "store S' = B'" "memory S' m = w'"
    "\<And>j. j \<noteq> i \<Longrightarrow> threads S' m j = threads S m j"
proof
  let ?S = "set_thread m i (Some p) S"
  have "reachable etag starts S ?S" by (rule step_reachable [OF step.start]) (use assms(2-4) in auto)
  moreover have "reachable etag starts ?S (after_run m i () B' w' ?S)" by (rule run_reachable) (use assms(5) in auto)
  ultimately show "reachable etag starts S\<^sub>0 (after_run m i () B' w' ?S)" using assms(1) by (blast intro: reachable_trans)
qed (simp_all add: after_run_def)

definition cell_scope :: Scope where
  "cell_scope = \<lparr>Namespace = ''n'', Class = ''c'', ScopeID = ''i''\<rparr>"

definition no_hooks :: "('v, 'e, 'w) hooks" where
  "no_hooks = \<lparr>BeforeTakeover = None, Reset = None, BeforeRelease = None, Touch = None\<rparr>"

definition cell_lease :: demo_object where
  "cell_lease = DemoLease (lease_of demo_manager lease_demo_load 10000000000)"

definition cell_owner :: Owner where
  "cell_owner = newOwner demo_manager 1 0"

text \<open>The manager's memory at rest, with its lease published and no lookup or release under way.\<close>

definition cell_ready :: "demo_object owner_mem \<Rightarrow> bool" where
  "cell_ready w \<longleftrightarrow> publishedExpiry w = Some 10000000000 \<and> \<not> fenced w \<and> routeFlights w (ScopeString cell_scope) = None
     \<and> releasing w (ScopeString cell_scope) = 0 \<and> claims w = (\<lambda>_. False)"

lemma invalidate_routes: "routes (invalidateLocked m key t w) = AList.delete key (routes w)"
  by (simp add: invalidateLocked_def trim_mem)

lemma cell_publish_run:
  "\<exists>w. run id 0 (forget (Publish (wLease demo_wire) False demo_manager lease_demo_load)) Map.empty demo_mem =
     ((), [LeaseKey ''a'' \<mapsto> cell_lease], w) \<and> cell_ready w \<and> routes w = []"
  by (simp add: forget_def Publish_def Fenced_def publish_first_def publish_write_def publish_done_def bucket_get_def
      bucket_create_def expiredLocked_def expired_at_def demo_mem_def lease_demo_load_def demo_wire_def cell_lease_def cell_ready_def
      demo_manager_def UnixMilli_def lease_of_def Let_def)

lemma cell_claim_run:
  assumes "B (genKey cell_scope) = None" "B (OwnerKey cell_scope) = None" "cell_ready w" "routes w = []"
  shows "\<exists>w'. run id 0 (forget (ClaimWithReset 1 demo_wire False no_hooks demo_manager cell_scope 0)) B w =
     ((), B(genKey cell_scope \<mapsto> gen_body demo_wire 1, OwnerKey cell_scope \<mapsto> DemoOwner cell_owner), w')
     \<and> publishedExpiry w' = Some 10000000000 \<and> \<not> fenced w' \<and> routes w' = [] \<and> routeFlights w' (ScopeString cell_scope) = None
     \<and> releasing w' (ScopeString cell_scope) = 0"
  using assms
  by (simp add: forget_def ClaimWithReset_def claim_body_def claim_unowned_def no_hooks_def hook_def Resolve_def attempt_def run_bind
      nextEpoch_fresh bucket_get_def bucket_create_def Invalidate_def change_def Let_def cell_owner_def atomically_def claimed_def
      rememberOwned_def unlockClaim_def MarshalOwner_def newOwner_def ProtoVersion_def cell_ready_def invalidate_routes invalidate_mem)

lemma cell_healthy:
  assumes "publishedExpiry w = Some 10000000000" "\<not> fenced w"
  shows "Healthy demo_manager 0 0 w = (True, w)" "HealthyUntil demo_manager 0 w = (Some 8000000000, w)"
  using assms by (simp_all add: Healthy_def HealthyUntil_def Let_def expiredLocked_def expired_at_def margin_def demo_manager_def UnixMilli_def)

lemma cell_route_run:
  assumes "B (OwnerKey cell_scope) = Some (DemoOwner cell_owner)" "publishedExpiry w = Some 10000000000" "\<not> fenced w" "routes w = []"
    "routeFlights w (ScopeString cell_scope) = None" "releasing w (ScopeString cell_scope) = 0"
  shows "\<exists>w'. run id 0 (forget (ResolveRoute 1 demo_wire False demo_manager cell_scope)) B w = ((), B, w')
     \<and> publishedExpiry w' = Some 10000000000 \<and> \<not> fenced w' \<and> releasing w' (ScopeString cell_scope) = 0
     \<and> map_of (routes w') (ScopeString cell_scope) = Some \<lparr>rtOwner = cell_owner, rtTag = DemoOwner cell_owner, rtUntil = 8000000000, rtWall = 8000, rtLocal = True\<rparr>"
proof -
  have loc: "localLease demo_manager cell_owner" by (simp add: localLease_def cell_owner_def newOwner_def demo_manager_def)
  have lease: "WithLease demo_manager" by (simp add: demo_manager_def)
  let ?w1 = "w\<lparr>routeFlights := (routeFlights w)(ScopeString cell_scope \<mapsto> newFlight w),
    flights := (flights w)(newFlight w \<mapsto> \<lparr>flRev = rev_of w (ScopeString cell_scope), flAnswer = None\<rparr>), newFlight := newFlight w + 1\<rparr>"
  have h: "HealthyUntil demo_manager 0 ?w1 = (Some 8000000000, ?w1)" using assms by (intro cell_healthy) auto
  have rev: "rev_of ?w1 k = rev_of w k" for k by (simp add: rev_of_def)
  show ?thesis
    using assms loc lease h rev
    by (simp add: forget_def ResolveRoute_def run_bind atomically_def route_enter_def Let_def route_lead_def now_is_def Resolve_def bucket_get_def
      route_evidence_def time_of_def route_finish_def route_fresh_def UnixMilli_def add_route_def maxOwnerRoutes_def)
qed

lemma cell_guard:
  assumes "publishedExpiry w = Some 10000000000" "\<not> fenced w" "releasing w (ScopeString cell_scope) = 0"
    "map_of (routes w) (ScopeString cell_scope) = Some c" "rtOwner c = cell_owner" "rtLocal c" "route_fresh c 0"
  shows "fst (LocalReadGuard demo_manager cell_scope 0 w) = Some \<lparr>rgRoute = c, rgRev = rev_of w (ScopeString cell_scope), rgEpoch = cacheEpoch w\<rparr>"
  using assms cell_healthy [OF assms(1,2)] by (simp add: LocalReadGuard_def localLease_def cell_owner_def newOwner_def demo_manager_def Let_def)

definition cell_route :: "demo_object ownerRoute" where
  "cell_route = \<lparr>rtOwner = cell_owner, rtTag = DemoOwner cell_owner, rtUntil = 8000000000, rtWall = 8000, rtLocal = True\<rparr>"

lemma cell_fleet:
  obtains S gd where "reachable id (owner_starts demo_wire) demo_fleet S" "clock S = 0" "life S = (\<lambda>_. Unborn)(demo_manager := Up)"
    "store S (OwnerKey cell_scope) = Some (DemoOwner cell_owner)" "fst (Healthy demo_manager 0 0 (memory S demo_manager))"
    "fst (LocalReadGuard demo_manager cell_scope 0 (memory S demo_manager)) = Some gd" "rgRoute gd = cell_route"
proof -
  let ?m = demo_manager and ?S1 = "demo_fleet\<lparr>life := (life demo_fleet)(demo_manager := Up)\<rparr>" and ?st = "owner_starts demo_wire"
  let ?publish = "forget (Publish (wLease demo_wire) False ?m lease_demo_load) :: (_, _, demo_object owner_mem, _) prog"
    and ?claim = "forget (ClaimWithReset 1 demo_wire False no_hooks ?m cell_scope 0) :: (_, _, demo_object owner_mem, _) prog"
    and ?route = "forget (ResolveRoute 1 demo_wire False ?m cell_scope) :: (_, _, demo_object owner_mem, _) prog"
  have r1: "reachable id ?st demo_fleet ?S1"
    by (rule step_reachable [OF step.boot]) (auto intro!: owner_starts.boot simp: demo_fleet_def demo_manager_def)
  obtain w2 where w2: "run id 0 ?publish Map.empty demo_mem = ((), [LeaseKey ''a'' \<mapsto> cell_lease], w2)" "cell_ready w2" "routes w2 = []" using cell_publish_run by blast
  obtain S2 where S2: "reachable id ?st demo_fleet S2" "clock S2 = 0" "life S2 = life ?S1" "store S2 = [LeaseKey ''a'' \<mapsto> cell_lease]"
    "memory S2 ?m = w2" "\<And>j. j \<noteq> 0 \<Longrightarrow> threads S2 ?m j = None"
    by (rule run_more [where m = ?m and i = 0 and p = ?publish and B' = "[LeaseKey ''a'' \<mapsto> cell_lease]" and w' = w2, OF r1])
       (use w2 in \<open>auto simp: demo_fleet_def intro: owner_starts.publish\<close>)
  let ?B3 = "(store S2)(genKey cell_scope \<mapsto> gen_body demo_wire 1, OwnerKey cell_scope \<mapsto> DemoOwner cell_owner)"
  have B2: "store S2 (genKey cell_scope) = None" "store S2 (OwnerKey cell_scope) = None"
    using S2(4) by (simp_all add: cell_scope_def genKey_def OwnerKey_def LeaseKey_def ScopeKey_def ScopeString_def)
  obtain w3 where w3: "run id 0 ?claim (store S2) w2 = ((), ?B3, w3)"
    "publishedExpiry w3 = Some 10000000000" "\<not> fenced w3" "routes w3 = []" "routeFlights w3 (ScopeString cell_scope) = None"
    "releasing w3 (ScopeString cell_scope) = 0"
    using cell_claim_run [OF B2 w2(2,3)] by blast
  have valid: "Validate cell_scope = Inr ()" by (simp add: cell_scope_def Validate_def; code_simp)
  have pub: "publishedExpiry (memory S2 ?m) \<noteq> None" using S2(5) w2(2) by (simp add: cell_ready_def)
  obtain S3 where S3: "reachable id ?st demo_fleet S3" "clock S3 = 0" "life S3 = life ?S1" "store S3 = ?B3" "memory S3 ?m = w3"
    "\<And>j. j \<noteq> 0 \<Longrightarrow> j \<noteq> 1 \<Longrightarrow> threads S3 ?m j = None"
    by (rule run_more [where m = ?m and i = "Suc 0" and p = ?claim and B' = ?B3 and w' = w3, OF S2(1)])
       (use S2 w3 in \<open>auto simp: demo_fleet_def quiet_hooks_def no_hooks_def intro!: owner_starts.claim [OF valid pub]\<close>)
  obtain w4 where w4: "run id 0 ?route ?B3 w3 = ((), ?B3, w4)"
    "publishedExpiry w4 = Some 10000000000" "\<not> fenced w4" "releasing w4 (ScopeString cell_scope) = 0"
    "map_of (routes w4) (ScopeString cell_scope) = Some cell_route"
    using cell_route_run [of ?B3 w3] w3 unfolding cell_route_def by auto
  obtain S4 where S4: "reachable id ?st demo_fleet S4" "clock S4 = 0" "life S4 = life ?S1" "store S4 = ?B3" "memory S4 ?m = w4"
    by (rule run_more [where m = ?m and i = "Suc 1" and p = ?route and B' = ?B3 and w' = w4, OF S3(1)])
       (use S3 w4 in \<open>auto simp: demo_fleet_def intro: owner_starts.route\<close>)
  have gd: "fst (LocalReadGuard ?m cell_scope 0 w4) =
      Some \<lparr>rgRoute = cell_route, rgRev = rev_of w4 (ScopeString cell_scope), rgEpoch = cacheEpoch w4\<rparr>"
    by (rule cell_guard [OF w4(2-5)]) (simp_all add: cell_route_def route_fresh_def UnixMilli_def)
  show thesis
    by (rule that [OF S4(1,2)]) (use S4 gd cell_healthy [OF w4(2,3)] in \<open>auto simp: demo_fleet_def\<close>)
qed

lemma cell_scope_facts: "Validate cell_scope = Inr ()" "Class cell_scope \<noteq> ''__do__''"
  by (simp_all add: cell_scope_def) code_simp

lemma cell_fresh: "fresh_cells (ScopeString cell_scope) demo_fleet"
  by (simp add: fresh_cells_def fresh_fleet_def idle_def demo_fleet_def demo_mem_def)

subsection \<open>Properties\<close>

text \<open>C1: A session that passes the guard of a local read, at its start or at its end, is at that moment the owner the
  bucket names, with the epoch of the route it reads under. This holds in every state the fleet can reach by
  interleaving boots, crashes, lease publications, claims, renewals, releases, lookups, failed calls and lost answers.\<close>

theorem local_reader_is_owner:
  assumes "inj etag" "lawful (wOwner W)" "lawful (wLease W)" "Validate s = Inr ()" "Class s \<noteq> ''__do__''"
    and "fresh_cells (ScopeString s) S\<^sub>0" "reachable etag (owner_starts W) S\<^sub>0 S" "life S m = Up"
    and "fst (LocalReadGuard m s (clock S) (memory S m)) = Some gd \<or> fst (read_guard_check m s gd released (clock S) (memory S m))"
  shows "\<exists>v r. store S (OwnerKey s) = Some v \<and> unmarshal (wOwner W) v = Some r \<and> Node r = LNodeID m \<and> Session r = LSessionID m
    \<and> Epoch r = Epoch (rtOwner (rgRoute gd))"
proof -
  obtain G where inv: "guard_inv W etag (ScopeString s) S G" using reachable_cell_inv [OF assms(1-7)] .
  from assms(9) obtain c where c: "map_of (routes (memory S m)) (ScopeString s) = Some c" "rtOwner c = rtOwner (rgRoute gd)"
    "localLease m (rtOwner c)" "releasing (memory S m) (ScopeString s) = 0" "fst (Healthy m (clock S) (clock S) (memory S m))"
    by (metis LocalReadGuard_cases read_guard_cases prod.collapse)
  from guard_inv_owner [OF inv assms(8) c(5,1,3,4)] show ?thesis
    unfolding record_at_owner c(2) by (auto simp: owner_ident_def ident_def)
qed

text \<open>C2: No two sessions read a cell locally at one time.\<close>

theorem single_local_reader:
  assumes "inj etag" "lawful (wOwner W)" "lawful (wLease W)" "Validate s = Inr ()" "Class s \<noteq> ''__do__''"
    and "fresh_cells (ScopeString s) S\<^sub>0" "reachable etag (owner_starts W) S\<^sub>0 S" "life S m = Up" "life S n = Up"
    and "fst (LocalReadGuard m s (clock S) (memory S m)) = Some gd" "fst (LocalReadGuard n s (clock S) (memory S n)) = Some gd'"
  shows "m = n \<and> Epoch (rtOwner (rgRoute gd)) = Epoch (rtOwner (rgRoute gd'))"
proof -
  obtain G where inv: "guard_inv W etag (ScopeString s) S G" using reachable_cell_inv [OF assms(1-7)] .
  have own: "\<exists>r. record_at W (ScopeString s) (store S) = Some r \<and> owner_ident r = ident a \<and> Epoch r = Epoch (rtOwner (rgRoute g))"
    if "life S a = Up" "fst (LocalReadGuard a s (clock S) (memory S a)) = Some g" for a g
    using guard_inv_owner [OF inv that(1)] LocalReadGuard_cases [of a s "clock S" "memory S a" g] that(2) by (metis prod.collapse)
  from own [OF assms(8,10)] own [OF assms(9,11)] have *: "ident m = ident n" "Epoch (rtOwner (rgRoute gd)) = Epoch (rtOwner (rgRoute gd'))" by auto
  with guard_invD(2) [OF inv] assms(8,9) show ?thesis unfolding sessions_ok_def by blast
qed


theorem local_reader_is_owner_witness:
  "\<exists>S gd v r. reachable id (owner_starts demo_wire) demo_fleet S
     \<and> fst (LocalReadGuard demo_manager cell_scope (clock S) (memory S demo_manager)) = Some gd
     \<and> store S (OwnerKey cell_scope) = Some v \<and> unmarshal (wOwner demo_wire) v = Some r \<and> Node r = ''a'' \<and> Session r = ''s1''
     \<and> Epoch r = 1"
proof -
  obtain S gd where S: "reachable id (owner_starts demo_wire) demo_fleet S" "clock S = 0" "life S demo_manager = Up"
    "fst (LocalReadGuard demo_manager cell_scope (clock S) (memory S demo_manager)) = Some gd" "rgRoute gd = cell_route"
    using cell_fleet by (metis fun_upd_same)
  have "\<exists>v r. store S (OwnerKey cell_scope) = Some v \<and> unmarshal (wOwner demo_wire) v = Some r \<and> Node r = LNodeID demo_manager
      \<and> Session r = LSessionID demo_manager \<and> Epoch r = Epoch (rtOwner (rgRoute gd))"
    by (rule local_reader_is_owner [where etag = id and released = False, OF _ demo_wire_laws(2,1) cell_scope_facts cell_fresh S(1,3)])
       (use S(4) in auto)
  with S show ?thesis by (auto simp: cell_route_def cell_owner_def newOwner_def demo_manager_def)
qed

theorem single_local_reader_witness:
  "\<exists>S. reachable id (owner_starts demo_wire) demo_fleet S
     \<and> {n. life S n = Up \<and> fst (LocalReadGuard n cell_scope (clock S) (memory S n)) \<noteq> None} = {demo_manager}"
proof -
  obtain S gd where S: "reachable id (owner_starts demo_wire) demo_fleet S" "clock S = 0" "life S demo_manager = Up"
    "fst (LocalReadGuard demo_manager cell_scope (clock S) (memory S demo_manager)) = Some gd"
    using cell_fleet by (metis fun_upd_same)
  have "demo_manager = n \<and> Epoch (rtOwner (rgRoute gd)) = Epoch (rtOwner (rgRoute gd'))"
    if "life S n = Up" "fst (LocalReadGuard n cell_scope (clock S) (memory S n)) = Some gd'" for n gd'
    by (rule single_local_reader [where etag = id, OF _ demo_wire_laws(2,1) cell_scope_facts cell_fresh S(1,3) that(1) S(4) that(2)]) simp
  with S show ?thesis by (intro exI [of _ S]) auto
qed


end
