(* ===== verification/SegNames.thy ===== *)
theory SegNames
  imports Ltx PageMap Cell
begin

unbundle bit_operations_syntax

text \<open>
  The names of segment objects, as \<^verbatim>\<open>internal/replica/replica.go\<close> and \<^verbatim>\<open>internal/compaction/compaction.go\<close> read them: which
  transactions a name says an object holds, and when the name alone proves it. \<open>None\<close> is the result \<open>ok = false\<close>.
\<close>

subsection \<open>Keys\<close>

definition SegPrefix :: "Scope \<Rightarrow> u64 \<Rightarrow> string" where
  "SegPrefix s epoch = ScopeKey s @ ''/ltx/e'' @ dec (unat epoch) @ ''/''"

definition L1Prefix :: "Scope \<Rightarrow> u64 \<Rightarrow> string" where
  "L1Prefix s epoch = SegPrefix s epoch @ ''L1/''"

definition ManifestName :: "Scope \<Rightarrow> u64 \<Rightarrow> string" where
  "ManifestName s epoch = L1Prefix s epoch @ ''manifest.json''"

definition IndexName :: "Scope \<Rightarrow> u64 \<Rightarrow> string" where
  "IndexName s epoch = L1Prefix s epoch @ ''index.bin''"

definition SnapshotStartedName :: "Scope \<Rightarrow> u64 \<Rightarrow> u64 \<Rightarrow> string" where
  "SnapshotStartedName s epoch txid = SegPrefix s epoch @ dec (unat txid) @ ''.snapshot-started''"

definition SnapshotDoneName :: "Scope \<Rightarrow> u64 \<Rightarrow> u64 \<Rightarrow> string" where
  "SnapshotDoneName s epoch txid = SegPrefix s epoch @ dec (unat txid) @ ''.snapshot-done''"

text \<open>\<open>strings.TrimSuffix\<close>, \<open>strings.CutPrefix\<close>, \<open>strings.CutSuffix\<close>, and the part of a key after the last slash.\<close>

definition TrimSuffix :: "string \<Rightarrow> string \<Rightarrow> string" where
  "TrimSuffix s p = (if HasSuffix s p then take (length s - length p) s else s)"

definition CutPrefix :: "string \<Rightarrow> string \<Rightarrow> string option" where
  "CutPrefix s p = (if HasPrefix s p then Some (drop (length p) s) else None)"

definition CutSuffix :: "string \<Rightarrow> string \<Rightarrow> string option" where
  "CutSuffix s p = (if HasSuffix s p then Some (take (length s - length p) s) else None)"

definition base_name :: "string \<Rightarrow> string" where
  "base_name key = rev (takeWhile (\<lambda>c. c \<noteq> CHR ''/'') (rev key))"

subsection \<open>Spans\<close>

record segmentSpan =
  spStart :: u64
  spEnd :: u64
  spSnapshot :: bool
  spMarker :: bool

definition parseSegmentRange :: "string \<Rightarrow> segmentSpan option" where
  "parseSegmentRange base =
     (case cut_at (CHR ''-'') base of
        None \<Rightarrow> None
      | Some (a, b) \<Rightarrow>
          if a = [] \<or> b = [] then None
          else (case ParseUint a of
                  None \<Rightarrow> None
                | Some start \<Rightarrow>
                    (case ParseUint b of
                       None \<Rightarrow> None
                     | Some end \<Rightarrow>
                         if end < start then None
                         else Some \<lparr>spStart = start, spEnd = end, spSnapshot = False, spMarker = False\<rparr>)))"

text \<open>The prefix before \<open>.p\<close>, when it is not at the start.\<close>

definition before_part :: "string \<Rightarrow> string option" where
  "before_part base = (case Index base ''.p'' of Some i \<Rightarrow> if i > 0 then Some (take i base) else None | None \<Rightarrow> None)"

definition snapshot_span :: "string \<Rightarrow> segmentSpan option" where
  "snapshot_span base =
     map_option (\<lambda>n. \<lparr>spStart = n, spEnd = n, spSnapshot = True, spMarker = False\<rparr>) (ParseUint base)"

definition parseSegmentSpan :: "string \<Rightarrow> segmentSpan option" where
  "parseSegmentSpan name =
     (if HasSuffix name ''.snapshot'' then
        (let base = TrimSuffix name ''.snapshot'' in
         snapshot_span (case before_part base of None \<Rightarrow> base | Some b \<Rightarrow> b))
      else if HasSuffix name ''.batch'' then
        (let base = TrimSuffix (TrimSuffix (TrimSuffix (TrimSuffix name ''.batch'') ''.d'') ''.m'') ''.s'' in
         case before_part base of Some b \<Rightarrow> snapshot_span b | None \<Rightarrow> parseSegmentRange base)
      else if HasSuffix name ''.ltx'' then parseSegmentRange (TrimSuffix name ''.ltx'')
      else if HasSuffix name ''.marker'' then
        (case ParseUint (TrimSuffix name ''.marker'') of
           None \<Rightarrow> None
         | Some n \<Rightarrow> if n = 0 then None
                     else Some \<lparr>spStart = n, spEnd = n - 1, spSnapshot = False, spMarker = True\<rparr>)
      else None)"

definition batchSpanKnown :: "string \<Rightarrow> bool" where
  "batchSpanKnown name \<longleftrightarrow> HasSuffix name ''.d.batch'' \<or> HasSuffix name ''.s.batch''"

definition isSegmentKey :: "string \<Rightarrow> bool" where
  "isSegmentKey key \<longleftrightarrow>
     (let name = base_name key in
      HasSuffix name ''.snapshot'' \<or> HasSuffix name ''.ltx'' \<or> HasSuffix name ''.batch'' \<or> HasSuffix name ''.link''
      \<or> HasSuffix name ''.marker'')"

subsection \<open>Canonical names\<close>

definition canonicalDecimal :: "string \<Rightarrow> bool" where
  "canonicalDecimal s \<longleftrightarrow> s \<noteq> [] \<and> \<not> (length s > 1 \<and> hd s = CHR ''0'') \<and> list_all is_digit s"

definition canonicalSnapshotTxID :: "string \<Rightarrow> u64 option" where
  "canonicalSnapshotTxID name =
     (case CutSuffix name ''.snapshot'' of
        None \<Rightarrow> None
      | Some base \<Rightarrow>
          if base = [] then None
          else (case cut_at (CHR ''.'') base of
                  Some (txid, part) \<Rightarrow>
                    if \<not> HasPrefix part ''p'' then None
                    else
                      (let part = drop 1 part in
                       if \<not> canonicalDecimal txid \<or> \<not> canonicalDecimal part then None
                       else (case ParseUint txid of
                               None \<Rightarrow> None
                             | Some n \<Rightarrow>
                                 (case ParseUint part of
                                    None \<Rightarrow> None
                                  | Some p \<Rightarrow> if unat p \<ge> 2 ^ 32 \<or> int (unat p) \<ge> MaxSnapshotParts then None else Some n)))
                | None \<Rightarrow> if \<not> canonicalDecimal base then None else ParseUint base))"

subsection \<open>compaction.go: names that prove what they cover\<close>

definition canonicalUint :: "string \<Rightarrow> bool" where
  "canonicalUint s \<longleftrightarrow> s \<noteq> [] \<and> \<not> (length s > 1 \<and> hd s = CHR ''0'') \<and> list_all is_digit s"

definition strictRangeEnd :: "string \<Rightarrow> u64 option" where
  "strictRangeEnd base =
     (case cut_at (CHR ''-'') base of
        None \<Rightarrow> None
      | Some (a, b) \<Rightarrow>
          if a = [] \<or> b = [] then None
          else if \<not> canonicalUint a \<or> \<not> canonicalUint b then None
          else (case ParseUint a of
                  None \<Rightarrow> None
                | Some start \<Rightarrow>
                    (case ParseUint b of None \<Rightarrow> None | Some end \<Rightarrow> if end < start then None else Some end)))"

definition strictSnapshotEnd :: "string \<Rightarrow> u64 option" where
  "strictSnapshotEnd name =
     (case CutSuffix name ''.snapshot'' of
        None \<Rightarrow> None
      | Some base \<Rightarrow>
          if base = [] then None
          else (case cut_at (CHR ''.'') base of
                  Some (txid, part) \<Rightarrow>
                    if \<not> HasPrefix part ''p'' then None
                    else
                      (let part = drop 1 part in
                       if \<not> canonicalUint txid \<or> \<not> canonicalUint part then None
                       else (case ParseUint txid of
                               None \<Rightarrow> None
                             | Some n \<Rightarrow>
                                 (case ParseUint part of
                                    None \<Rightarrow> None
                                  | Some p \<Rightarrow> if unat p \<ge> 2 ^ 32 \<or> int (unat p) \<ge> MaxSnapshotParts then None else Some n)))
                | None \<Rightarrow> if \<not> canonicalUint base then None else ParseUint base))"

text \<open>The end of the covered range and whether the object holds exactly one segment.\<close>

definition strictCoveredNameEnd :: "string \<Rightarrow> (u64 \<times> bool) option" where
  "strictCoveredNameEnd name =
     (if HasSuffix name ''.snapshot'' then map_option (\<lambda>e. (e, True)) (strictSnapshotEnd name)
      else
        (case CutSuffix name ''.ltx'' of
           Some base \<Rightarrow> map_option (\<lambda>e. (e, True)) (strictRangeEnd base)
         | None \<Rightarrow>
             (case CutSuffix name ''.d.batch'' of
                Some base \<Rightarrow> map_option (\<lambda>e. (e, False)) (strictRangeEnd base)
              | None \<Rightarrow> None)))"

subsection \<open>Numerals\<close>

lemma dec_value_snoc [simp]: "dec_value (s @ [c]) = dec_value s * 10 + (of_char c - 48)"
  by (simp add: dec_value_def)

lemma dec_hd: "hd (dec n) = CHR ''0'' \<Longrightarrow> n = 0"
proof (induction n rule: dec.induct)
  case (1 n)
  have d: "k = 0" if "digit k = CHR ''0''" "k < 10" for k
  proof -
    have "(of_char (digit k) :: nat) = 48" unfolding that(1) by simp
    with digit_props [OF that(2)] show ?thesis by simp
  qed
  show ?case
  proof (cases "n < 10")
    case True
    with 1(2) d show ?thesis by (subst (asm) dec.simps) simp
  next
    case False
    with 1(2) have "hd (dec (n div 10)) = CHR ''0''" by (subst (asm) dec.simps) (simp add: dec_nonempty)
    with 1(1) False have "n div 10 = 0" by simp
    with False show ?thesis by simp
  qed
qed

lemma digit_of: "is_digit c \<Longrightarrow> digit (of_char c - 48) = c \<and> (of_char c - 48 :: nat) < 10"
  by (auto simp: is_digit_def digit_def)

lemma dec_zero: "dec 0 = ''0''"
  by code_simp

lemma canonical_value:
  "s \<noteq> [] \<Longrightarrow> \<not> (length s > 1 \<and> hd s = CHR ''0'') \<Longrightarrow> list_all is_digit s \<Longrightarrow> dec (dec_value s) = s"
proof (induction s rule: rev_induct)
  case (snoc c s)
  show ?case
  proof (cases s)
    case Nil
    then show ?thesis using snoc.prems digit_of [of c] by (subst dec.simps) (simp add: dec_value_def)
  next
    case (Cons x xs)
    then have x: "x \<noteq> CHR ''0''" and d: "is_digit c" using snoc.prems by auto
    have s: "dec (dec_value s) = s" using snoc.IH snoc.prems Cons x by auto
    have "dec_value s \<noteq> 0"
    proof
      assume "dec_value s = 0"
      with s have "s = dec 0" by simp
      with Cons x show False by (simp add: dec_zero)
    qed
    with d digit_of [OF d] s show ?thesis by (subst dec.simps) simp
  qed
qed simp

lemma canonical_iff:
  "s \<noteq> [] \<and> \<not> (length s > 1 \<and> hd s = CHR ''0'') \<and> list_all is_digit s \<longleftrightarrow> (\<exists>n. s = dec n)"
proof
  assume "\<exists>n. s = dec n"
  then obtain n where n: "s = dec n" by blast
  have "length (dec n) = 1" if "hd (dec n) = CHR ''0''" using dec_hd [OF that] by (subst dec.simps) simp
  with n show "s \<noteq> [] \<and> \<not> (length s > 1 \<and> hd s = CHR ''0'') \<and> list_all is_digit s"
    by (auto simp: dec_nonempty dec_digits)
qed (metis canonical_value)

lemma canonicalUint_iff: "canonicalUint s \<longleftrightarrow> (\<exists>n. s = dec n)"
  unfolding canonicalUint_def by (rule canonical_iff)

lemma canonicalDecimal_iff: "canonicalDecimal s \<longleftrightarrow> (\<exists>n. s = dec n)"
  unfolding canonicalDecimal_def by (rule canonical_iff)

lemma ParseUint_numeral: "ParseUint (dec n) = (if n < 2 ^ 64 then Some (word_of_nat n) else None)"
  by (simp add: ParseUint_def dec_digits dec_nonempty)

lemma ParseUint_dec_iff: "ParseUint (dec n) = Some w \<longleftrightarrow> n = unat w"
  using unat_bounds(4) [of w] by (auto simp: ParseUint_numeral unat_of_nat take_bit_nat_eq_self)

lemma CutSuffix_iff: "CutSuffix s p = Some b \<longleftrightarrow> s = b @ p"
  by (auto simp: CutSuffix_def HasSuffix_iff)

lemma cut_at_app [simp]: "c \<notin> set a \<Longrightarrow> cut_at c (a @ c # b) = Some (a, b)"
  by (induction a) (auto simp: cut_at_def split: list.splits)

lemma cut_at_NoneI [simp]: "c \<notin> set s \<Longrightarrow> cut_at c s = None"
proof -
  assume "c \<notin> set s"
  then have "dropWhile (\<lambda>x. x \<noteq> c) s = []" by (induction s) auto
  then show ?thesis unfolding cut_at_def by (simp only: list.case)
qed

lemma cut_atD: "cut_at c s = Some (a, b) \<Longrightarrow> s = a @ c # b \<and> c \<notin> set a"
proof -
  assume a: "cut_at c s = Some (a, b)"
  then obtain x where d: "dropWhile (\<lambda>x. x \<noteq> c) s = x # b" and t: "a = takeWhile (\<lambda>x. x \<noteq> c) s"
    by (auto simp: cut_at_def split: list.splits)
  have "x = c" using hd_dropWhile [of "\<lambda>x. x \<noteq> c" s] d by simp
  moreover have "s = a @ x # b" using t d takeWhile_dropWhile_id [of "\<lambda>x. x \<noteq> c" s] by simp
  ultimately show ?thesis using t by (auto dest: set_takeWhileD)
qed

lemma not_in_dec [simp]: "\<not> is_digit c \<Longrightarrow> c \<notin> set (dec n)"
  using dec_digits [of n] by (auto simp: list_all_iff)

lemma strictRangeEnd_iff:
  "strictRangeEnd base = Some e \<longleftrightarrow> (\<exists>b. b \<le> e \<and> base = dec (unat b) @ ''-'' @ dec (unat e))"
proof
  assume "strictRangeEnd base = Some e"
  then show "\<exists>b. b \<le> e \<and> base = dec (unat b) @ ''-'' @ dec (unat e)"
    by (auto simp: strictRangeEnd_def canonicalUint_iff ParseUint_dec_iff dest!: cut_atD split: option.splits if_splits)
next
  assume "\<exists>b. b \<le> e \<and> base = dec (unat b) @ ''-'' @ dec (unat e)"
  then show "strictRangeEnd base = Some e"
    by (auto simp: strictRangeEnd_def canonicalUint_iff ParseUint_dec dec_nonempty)
qed

lemma strictSnapshotEnd_iff:
  "strictSnapshotEnd name = Some e \<longleftrightarrow>
     name = dec (unat e) @ ''.snapshot'' \<or> (\<exists>p < 2 ^ 15. name = dec (unat e) @ ''.p'' @ dec p @ ''.snapshot'')"
proof
  have u: "\<not> 32768 \<le> uint x \<Longrightarrow> unat x < 32768" for x :: u64 unfolding unat_eq_nat_uint by linarith
  assume "strictSnapshotEnd name = Some e"
  then show "name = dec (unat e) @ ''.snapshot'' \<or> (\<exists>p < 2 ^ 15. name = dec (unat e) @ ''.p'' @ dec p @ ''.snapshot'')"
    by (auto simp: strictSnapshotEnd_def canonicalUint_iff CutSuffix_iff HasPrefix_iff ParseUint_dec_iff MaxSnapshotParts_def
        Let_def dest!: cut_atD u split: option.splits if_splits)
next
  have l: "CutSuffix (b @ ''.snapshot'') ''.snapshot'' = Some b" for b by (simp add: CutSuffix_iff)
  assume "name = dec (unat e) @ ''.snapshot'' \<or> (\<exists>p < 2 ^ 15. name = dec (unat e) @ ''.p'' @ dec p @ ''.snapshot'')"
  then consider "name = dec (unat e) @ ''.snapshot''"
    | p where "p < 2 ^ 15" "name = (dec (unat e) @ ''.p'' @ dec p) @ ''.snapshot''" by auto
  then show "strictSnapshotEnd name = Some e"
  proof cases
    case 1
    then show ?thesis by (auto simp: strictSnapshotEnd_def l dec_nonempty canonicalUint_iff ParseUint_dec)
  next
    case 2
    then show ?thesis using unat_bounds(4) [of e] unfolding 2(2) strictSnapshotEnd_def l
      by (auto simp: HasPrefix_iff dec_nonempty canonicalUint_iff ParseUint_dec ParseUint_numeral
          MaxSnapshotParts_def unat_of_nat take_bit_nat_eq_self)
  qed
qed

text \<open>The two copies of the snapshot parser agree.\<close>

lemma canonical_agree: "canonicalDecimal = canonicalUint"
  by (simp add: fun_eq_iff canonicalDecimal_def canonicalUint_def)

lemma canonicalSnapshotTxID_strict: "canonicalSnapshotTxID = strictSnapshotEnd"
  unfolding canonicalSnapshotTxID_def strictSnapshotEnd_def canonical_agree ..

subsection \<open>What a name says\<close>

text \<open>The suffix of a segment name decides its kind.\<close>

lemma suffix_cases [simp]:
  "HasSuffix (x @ ''.snapshot'') ''.snapshot''" "\<not> HasSuffix (x @ ''.ltx'') ''.snapshot''" "\<not> HasSuffix (x @ ''.batch'') ''.snapshot''"
  "\<not> HasSuffix (x @ ''.ltx'') ''.batch''" "HasSuffix (x @ ''.ltx'') ''.ltx''" "HasSuffix (x @ ''.batch'') ''.batch''"
  "\<not> HasSuffix (x @ ''.marker'') ''.snapshot''" "\<not> HasSuffix (x @ ''.marker'') ''.batch''"
  "\<not> HasSuffix (x @ ''.marker'') ''.ltx''" "HasSuffix (x @ ''.marker'') ''.marker''"
  "\<not> HasSuffix (x @ ''.link'') ''.snapshot''" "\<not> HasSuffix (x @ ''.link'') ''.batch''"
  "\<not> HasSuffix (x @ ''.link'') ''.ltx''" "\<not> HasSuffix (x @ ''.link'') ''.marker''"
  by (simp_all add: HasSuffix_def HasPrefix_def)

lemma SnapshotPart_bound: "fst (SnapshotPart h) < 2 ^ 15"
proof -
  have "unat (Flags h AND snapshotPartMask) \<le> unat snapshotPartMask" by (simp add: word_and_le1 word_le_nat_alt [symmetric])
  then show ?thesis by (simp add: SnapshotPart_def snapshotPartMask_def flagSnapshotPaged_def)
qed

lemma snapshot_names:
  "(\<exists>h. HKind h = KindSnapshot \<and> EndTxID h = e \<and> name = SegmentName h) \<longleftrightarrow>
     name = dec (unat e) @ ''.snapshot'' \<or> (\<exists>p < 2 ^ 15. name = dec (unat e) @ ''.p'' @ dec p @ ''.snapshot'')" (is "?l \<longleftrightarrow> ?r")
proof
  assume ?l
  then obtain h where h: "HKind h = KindSnapshot" "EndTxID h = e" "name = SegmentName h" by blast
  show ?r using h SnapshotPart_bound [of h] by (auto simp: SegmentName_def split: prod.splits bool.splits)
next
  let ?h = "\<lambda>f. \<lparr>Version = 0, HKind = KindSnapshot, Flags = f, Epoch = 0, StartTxID = 0, EndTxID = e, Length = 0, CRC = 0\<rparr>"
  have 0: "SegmentName (?h 0) = dec (unat e) @ ''.snapshot''" by (simp add: SegmentName_def SnapshotPart_def)
  have 1: "SegmentName (?h (SnapshotFlags (int p))) = dec (unat e) @ ''.p'' @ dec p @ ''.snapshot''" if "p < 2 ^ 15" for p
    using SnapshotPart_SnapshotFlags [of "int p" "?h (SnapshotFlags (int p))"] that by (simp add: SegmentName_def)
  assume ?r
  then show ?l
  proof (elim disjE exE conjE)
    assume "name = dec (unat e) @ ''.snapshot''"
    with 0 show ?l by (intro exI [of _ "?h 0"]) simp
  next
    fix p assume "p < 2 ^ 15" "name = dec (unat e) @ ''.p'' @ dec p @ ''.snapshot''"
    with 1 [of p] show ?l by (intro exI [of _ "?h (SnapshotFlags (int p))"]) simp
  qed
qed

text \<open>A name read strictly is the name \<open>ltx.SegmentName\<close> gives a snapshot or a delta that ends there, or the name of a batch
  of deltas.\<close>

lemma strictCoveredNameEnd_segment:
  "strictCoveredNameEnd name = Some (e, True) \<longleftrightarrow>
     (\<exists>h. HKind h = KindSnapshot \<and> EndTxID h = e \<and> name = SegmentName h) \<or>
     (\<exists>h. HKind h = KindDelta \<and> StartTxID h \<le> e \<and> EndTxID h = e \<and> name = SegmentName h)" (is "?l \<longleftrightarrow> ?s \<or> ?d")
proof -
  have d: "?d \<longleftrightarrow> (\<exists>b \<le> e. name = (dec (unat b) @ ''-'' @ dec (unat e)) @ ''.ltx'')"
  proof
    assume "\<exists>b \<le> e. name = (dec (unat b) @ ''-'' @ dec (unat e)) @ ''.ltx''"
    then obtain b where "b \<le> e" "name = (dec (unat b) @ ''-'' @ dec (unat e)) @ ''.ltx''" by blast
    then show ?d
      by (intro exI [of _ "\<lparr>Version = 0, HKind = KindDelta, Flags = 0, Epoch = 0, StartTxID = b, EndTxID = e, Length = 0, CRC = 0\<rparr>"])
        (simp add: SegmentName_def kind_defs)
  qed (auto simp: SegmentName_def kind_defs)
  have r: "strictRangeEnd base = Some e \<longleftrightarrow> (\<exists>b \<le> e. base = dec (unat b) @ ''-'' @ dec (unat e))" for base
    by (rule strictRangeEnd_iff)
  show ?thesis
  proof (cases "HasSuffix name ''.snapshot''")
    case True
    then have "\<not> ?d" unfolding d by (metis suffix_cases(2))
    with True show ?thesis unfolding strictCoveredNameEnd_def snapshot_names by (auto simp: strictSnapshotEnd_iff)
  next
    case False
    then have "\<not> ?s" unfolding snapshot_names by (metis append_assoc suffix_cases(1))
    moreover have "?l \<longleftrightarrow> (\<exists>b \<le> e. name = (dec (unat b) @ ''-'' @ dec (unat e)) @ ''.ltx'')"
    proof
      assume ?l
      with False show "\<exists>b \<le> e. name = (dec (unat b) @ ''-'' @ dec (unat e)) @ ''.ltx''"
        by (auto simp: strictCoveredNameEnd_def CutSuffix_iff r split: option.splits)
    next
      assume "\<exists>b \<le> e. name = (dec (unat b) @ ''-'' @ dec (unat e)) @ ''.ltx''"
      then obtain b where b: "b \<le> e" "name = (dec (unat b) @ ''-'' @ dec (unat e)) @ ''.ltx''" by blast
      then have "CutSuffix name ''.ltx'' = Some (dec (unat b) @ ''-'' @ dec (unat e))" by (simp add: CutSuffix_iff)
      moreover have "strictRangeEnd (dec (unat b) @ ''-'' @ dec (unat e)) = Some e" using b(1) r by blast
      ultimately show ?l using False by (simp add: strictCoveredNameEnd_def)
    qed
    ultimately show ?thesis using d by blast
  qed
qed

text \<open>\<^verbatim>\<open>isSegmentKey\<close> filters the completion markers of snapshots out.\<close>

lemma done_not_segment: "HasSuffix key ''.snapshot-done'' \<Longrightarrow> \<not> isSegmentKey key"
proof -
  assume "HasSuffix key ''.snapshot-done''"
  then obtain x where "key = x @ ''.snapshot-done''" by (auto simp: HasSuffix_iff)
  then have "\<exists>y. base_name key = y @ ''.snapshot-done''"
    by (simp add: base_name_def)
  then show ?thesis by (auto simp: isSegmentKey_def HasSuffix_def HasPrefix_def)
qed

text \<open>The span a name gives a segment is the range of its header.\<close>

lemma Index_no: "CHR ''.'' \<notin> set s \<Longrightarrow> Index s ''.p'' = None"
  by (induction s) (auto simp: HasPrefix_def)

lemma Index_at: "CHR ''.'' \<notin> set a \<Longrightarrow> Index (a @ ''.p'' @ b) ''.p'' = Some (length a)"
  by (induction a) (auto simp: HasPrefix_def)

lemma before_part_dec [simp]:
  "before_part (dec n @ CHR ''.'' # CHR ''p'' # b) = Some (dec n)" "before_part (dec n) = None"
  by (simp_all add: before_part_def Index_at [of "dec n" b, simplified] Index_no dec_nonempty)

lemma TrimSuffix_app [simp]: "TrimSuffix (x @ s) s = x"
  by (simp add: TrimSuffix_def HasSuffix_iff)

definition header_span :: "Header \<Rightarrow> segmentSpan option" where
  "header_span h =
     (if HKind h = KindSnapshot then
        Some \<lparr>spStart = EndTxID h, spEnd = EndTxID h, spSnapshot = True, spMarker = False\<rparr>
      else if HKind h = KindLink then None
      else if HKind h = KindMarker then
        (if StartTxID h = 0 then None
         else Some \<lparr>spStart = StartTxID h, spEnd = StartTxID h - 1, spSnapshot = False, spMarker = True\<rparr>)
      else if EndTxID h < StartTxID h then None
      else Some \<lparr>spStart = StartTxID h, spEnd = EndTxID h, spSnapshot = False, spMarker = False\<rparr>)"

lemma parseSegmentRange_dec:
  "parseSegmentRange (dec (unat a) @ ''-'' @ dec (unat b)) =
     (if b < a then None else Some \<lparr>spStart = a, spEnd = b, spSnapshot = False, spMarker = False\<rparr>)"
  by (simp add: parseSegmentRange_def ParseUint_dec dec_nonempty)

lemma parseSegmentSpan_SegmentName: "parseSegmentSpan (SegmentName h) = header_span h"
proof -
  have p: "parseSegmentSpan (x @ ''.snapshot'') = snapshot_span (case before_part x of None \<Rightarrow> x | Some b \<Rightarrow> b)"
    "parseSegmentSpan (x @ ''.ltx'') = parseSegmentRange x"
    "parseSegmentSpan (x @ ''.link'') = None"
    "parseSegmentSpan (x @ ''.marker'') =
        (case ParseUint x of None \<Rightarrow> None
         | Some n \<Rightarrow> if n = 0 then None else Some \<lparr>spStart = n, spEnd = n - 1, spSnapshot = False, spMarker = True\<rparr>)" for x
    by (simp_all add: parseSegmentSpan_def)
  show ?thesis
    using p(1) [of "dec (unat (EndTxID h))"] p(1) [of "dec (unat (EndTxID h)) @ ''.p'' @ dec (fst (SnapshotPart h))"]
      p(2) [of "dec (unat (StartTxID h)) @ ''-'' @ dec (unat (EndTxID h))"] p(3,4) [of "dec (unat (StartTxID h))"]
      parseSegmentRange_dec [of "StartTxID h" "EndTxID h"]
    by (auto simp: SegmentName_def header_span_def snapshot_span_def ParseUint_dec kind_defs not_less split: prod.splits bool.splits)
qed

end
