(* ===== verification/IndexFile.thy ===== *)
theory IndexFile
  imports PageMap
begin

unbundle bit_operations_syntax

text \<open>
  \<^verbatim>\<open>internal/replica/index.go\<close>: the persisted page index of a compacted snapshot. An entry lists the pages of one
  object and, in the second version of the format, where in the object the frame of each page lies.
\<close>

subsection \<open>Data\<close>

definition indexMagic :: bytes where "indexMagic = [0x43, 0x49, 0x44, 0x58]"
definition indexMagicV2 :: bytes where "indexMagicV2 = [0x43, 0x49, 0x44, 0x32]"

record PageIndexEntry =
  ixKey :: string
  ixPageSize :: u32
  ixCommit :: u32
  ixPages :: "u32 list"
  ixLocs :: "PageLoc list"

record PageIndexFile =
  ixWatermark :: u64
  ixEntries :: "PageIndexEntry list"

datatype index_error =
    IndexKeyTooLong | IndexNotAscending | IndexLocMismatch | IndexHeader | IndexTruncatedEntry | IndexDimensions
  | IndexTruncatedLocs | IndexBadLoc nat

text \<open>The bytes of a Go string.\<close>

definition str_bytes :: "string \<Rightarrow> bytes" where
  "str_bytes s = map of_char s"

definition bytes_str :: "bytes \<Rightarrow> string" where
  "bytes_str b = map (\<lambda>x. char_of (unat x)) b"

lemma length_str_bytes [simp, len_simps]: "length (str_bytes s) = length s"
  by (simp add: str_bytes_def)

lemma bytes_str_bytes [simp]: "bytes_str (str_bytes s) = s"
proof -
  have "char_of (unat (of_char c :: byte)) = c" for c
  proof -
    have "(of_char c :: byte) = of_nat (of_char c)" by (rule of_nat_of_char [symmetric])
    then have "unat (of_char c :: byte) = of_char c mod 256" by (simp only: unat_of_nat) simp
    then show ?thesis by simp
  qed
  then show ?thesis by (simp add: bytes_str_def str_bytes_def comp_def)
qed

subsection \<open>Encoding\<close>

fun put_numbers :: "u32 option \<Rightarrow> u32 list \<Rightarrow> index_error + bytes" where
  "put_numbers prev [] = Inr []"
| "put_numbers prev (p # ps) =
     (if not_ascending prev p then Inl IndexNotAscending
      else rbind (put_numbers (Some p) ps) (\<lambda>rest. Inr (be32 p @ rest)))"

definition put_index_loc :: "PageLoc \<Rightarrow> bytes" where
  "put_index_loc l =
     be32 (Pgno l) @ be32 (word_of_nat (Off l))
       @ be32 (if Codec l = CodecLZ4 then word_of_nat (Stored l) OR CodecBit else word_of_nat (Stored l))"

definition put_index_entry :: "PageIndexEntry \<Rightarrow> index_error + bytes" where
  "put_index_entry e =
     (if length (ixKey e) > 0xffff then Inl IndexKeyTooLong
      else rbind (put_numbers None (ixPages e)) (\<lambda>pages.
        if ixLocs e \<noteq> [] \<and> length (ixLocs e) \<noteq> length (ixPages e) then Inl IndexLocMismatch
        else Inr (be16 (word_of_nat (length (ixKey e))) @ str_bytes (ixKey e) @ be32 (ixPageSize e) @ be32 (ixCommit e)
               @ be32 (word_of_nat (length (ixPages e))) @ pages @ concat (map put_index_loc (ixLocs e)))))"

definition EncodeIndex :: "PageIndexFile \<Rightarrow> index_error + bytes" where
  "EncodeIndex idx =
     (let two = list_ex (\<lambda>e. ixLocs e \<noteq> []) (ixEntries idx) in
      rbind (rmap put_index_entry (ixEntries idx)) (\<lambda>body.
        Inr ((if two then indexMagicV2 else indexMagic) @ be64 (ixWatermark idx)
             @ be32 (word_of_nat (length (ixEntries idx))) @ concat body)))"

subsection \<open>Decoding\<close>

text \<open>The loops run on the unread suffix \<open>data[off:]\<close>.\<close>

fun take_numbers :: "nat \<Rightarrow> bytes \<Rightarrow> u32 list" where
  "take_numbers 0 rest = []"
| "take_numbers (Suc n) rest = rd32 rest # take_numbers n (drop 4 rest)"

fun take_locs :: "u32 \<Rightarrow> nat \<Rightarrow> u32 list \<Rightarrow> bytes \<Rightarrow> index_error + PageLoc list" where
  "take_locs ps j [] rest = Inr []"
| "take_locs ps j (p # pages) rest =
     (let w = rd32 (drop 8 rest);
          loc = \<lparr>Pgno = rd32 rest, Off = unat (rd32 (drop 4 rest)), Stored = unat (w AND NOT CodecBit), Size = ps,
                 Codec = (if w AND CodecBit \<noteq> 0 then CodecLZ4 else CodecRaw)\<rparr>
      in if Pgno loc \<noteq> p \<or> Stored loc \<le> 0 then Inl (IndexBadLoc j)
         else rbind (take_locs ps (Suc j) pages (drop 12 rest)) (\<lambda>locs. Inr (loc # locs)))"

definition take_index_entry :: "bool \<Rightarrow> bytes \<Rightarrow> index_error + (PageIndexEntry \<times> bytes)" where
  "take_index_entry two rest =
     (if 2 > length rest then Inl IndexTruncatedEntry
      else
        (let keyLen = unat (rd16 rest); rest1 = drop 2 rest in
         if keyLen + 12 > length rest1 then Inl IndexTruncatedEntry
         else
           (let key = bytes_str (take keyLen rest1); rest2 = drop keyLen rest1;
                pageSize = rd32 rest2; commit = rd32 (drop 4 rest2); pageCount = unat (rd32 (drop 8 rest2));
                rest3 = drop 12 rest2 in
            if pageSize = 0 \<or> pageCount * 4 > length rest3 then Inl IndexDimensions
            else
              (let pages = take_numbers pageCount rest3; rest4 = drop (pageCount * 4) rest3;
                   entry = \<lparr>ixKey = key, ixPageSize = pageSize, ixCommit = commit, ixPages = pages, ixLocs = []\<rparr> in
               if \<not> two then Inr (entry, rest4)
               else if pageCount * 12 > length rest4 then Inl IndexTruncatedLocs
               else rbind (take_locs pageSize 0 pages rest4) (\<lambda>locs.
                      Inr (entry\<lparr>ixLocs := locs\<rparr>, drop (pageCount * 12) rest4))))))"

fun take_index_entries :: "bool \<Rightarrow> nat \<Rightarrow> bytes \<Rightarrow> index_error + PageIndexEntry list" where
  "take_index_entries two 0 rest = Inr []"
| "take_index_entries two (Suc n) rest =
     rbind (take_index_entry two rest) (\<lambda>(e, rest'). rbind (take_index_entries two n rest') (\<lambda>es. Inr (e # es)))"

definition DecodeIndex :: "bytes \<Rightarrow> index_error + PageIndexFile" where
  "DecodeIndex data =
     (if length data < 16 then Inl IndexHeader
      else
        (let two = (take 4 data = indexMagicV2) in
         if \<not> two \<and> take 4 data \<noteq> indexMagic then Inl IndexHeader
         else rbind (take_index_entries two (unat (rd32 (drop 12 data))) (drop 16 data)) (\<lambda>es.
                Inr \<lparr>ixWatermark = rd64 (drop 4 data), ixEntries = es\<rparr>)))"

subsection \<open>The round trip\<close>

lemma put_numbers_Inr: "put_numbers prev ps = Inr b \<Longrightarrow> b = concat (map be32 ps) \<and> asc prev ps"
  by (induction prev ps arbitrary: b rule: put_numbers.induct) (auto simp: rbind_eq_Inr_iff split: if_splits)

lemma take_numbers_put: "take_numbers (length ps) (concat (map be32 ps) @ rest) = ps"
  by (induction ps) (simp_all add: codec_simps)

lemma length_put_numbers: "length (concat (map be32 ps)) = length ps * 4"
  by (induction ps) simp_all

lemma length_put_index_locs: "length (concat (map put_index_loc ls)) = length ls * 12"
  by (induction ls) (simp_all add: put_index_loc_def)

text \<open>A location the format can hold.\<close>

definition index_loc_ok :: "u32 \<Rightarrow> u32 \<Rightarrow> PageLoc \<Rightarrow> bool" where
  "index_loc_ok ps p l \<longleftrightarrow> Pgno l = p \<and> Off l < 2 ^ 32 \<and> 0 < Stored l \<and> Stored l < 2 ^ 31 \<and> Size l = ps
     \<and> Codec l \<in> {CodecRaw, CodecLZ4}"

lemma take_locs_put:
  "list_all2 (index_loc_ok ps) pages locs \<Longrightarrow> take_locs ps j pages (concat (map put_index_loc locs) @ rest) = Inr locs"
proof (induction pages arbitrary: j locs)
  case (Cons p pages)
  from Cons.prems obtain l ls where l: "locs = l # ls" "index_loc_ok ps p l" "list_all2 (index_loc_ok ps) pages ls"
    by (auto simp: list_all2_Cons1)
  let ?w = "if Codec l = CodecLZ4 then word_of_nat (Stored l) OR CodecBit else word_of_nat (Stored l)"
  have w: "unat (?w AND NOT CodecBit) = Stored l" "(if ?w AND CodecBit \<noteq> 0 then CodecLZ4 else CodecRaw) = Codec l"
    using l(2) codec_bit [of "Stored l"] by (auto simp: index_loc_ok_def codec_defs unat_of_nat)
  show ?case using w Cons.IH [OF l(3), of "Suc j"] l by (simp add: put_index_loc_def [of l] codec_simps index_loc_ok_def unat_of_nat)
qed simp

definition index_entry_ok :: "bool \<Rightarrow> PageIndexEntry \<Rightarrow> bool" where
  "index_entry_ok two e \<longleftrightarrow> ixPageSize e \<noteq> 0 \<and> length (ixPages e) < 2 ^ 32
     \<and> (if two then list_all2 (index_loc_ok (ixPageSize e)) (ixPages e) (ixLocs e) else ixLocs e = [])"

lemma take_index_entry_put:
  assumes "put_index_entry e = Inr b" "index_entry_ok two e"
  shows "take_index_entry two (b @ rest) = Inr (e, rest)"
proof -
  have kl: "length (ixKey e) \<le> 0xffff"
    and b: "b = be16 (word_of_nat (length (ixKey e))) @ str_bytes (ixKey e) @ be32 (ixPageSize e) @ be32 (ixCommit e)
      @ be32 (word_of_nat (length (ixPages e))) @ concat (map be32 (ixPages e)) @ concat (map put_index_loc (ixLocs e))"
    using assms(1) by (auto simp: put_index_entry_def rbind_eq_Inr_iff dest: put_numbers_Inr split: if_splits)
  have n: "unat (word_of_nat (length (ixKey e)) :: u16) = length (ixKey e)"
    "unat (word_of_nat (length (ixPages e)) :: u32) = length (ixPages e)"
    using kl assms(2) by (simp_all add: unat_of_nat index_entry_ok_def)
  show ?thesis
  proof (cases two)
    case True
    with assms(2) have l: "list_all2 (index_loc_ok (ixPageSize e)) (ixPages e) (ixLocs e)" and ps: "ixPageSize e \<noteq> 0"
      by (simp_all add: index_entry_ok_def)
    have len: "length (ixLocs e) = length (ixPages e)" using l by (simp add: list_all2_lengthD)
    show ?thesis
      using True ps n take_locs_put [OF l, of 0 rest] take_numbers_put [of "ixPages e" "concat (map put_index_loc (ixLocs e)) @ rest"]
      by (simp add: take_index_entry_def b codec_simps length_put_numbers length_put_index_locs len)
  next
    case False
    with assms(2) have "ixLocs e = []" "ixPageSize e \<noteq> 0" by (simp_all add: index_entry_ok_def)
    then show ?thesis
      using False n take_numbers_put [of "ixPages e" rest]
      by (simp add: take_index_entry_def b codec_simps length_put_numbers)
  qed
qed

lemma take_index_entries_put:
  "list_all2 (\<lambda>e b. put_index_entry e = Inr b) es bs \<Longrightarrow> \<forall>e \<in> set es. index_entry_ok two e \<Longrightarrow>
   take_index_entries two (length es) (concat bs @ rest) = Inr es"
proof (induction es bs rule: list_all2_induct)
  case (Cons e es b bs)
  then show ?case using take_index_entry_put [of e b two "concat bs @ rest"] by simp
qed simp

lemma DecodeIndex_Encode:
  assumes "EncodeIndex idx = Inr b" "length (ixEntries idx) < 2 ^ 32"
    and "\<forall>e \<in> set (ixEntries idx). index_entry_ok (list_ex (\<lambda>e. ixLocs e \<noteq> []) (ixEntries idx)) e"
  shows "DecodeIndex b = Inr idx"
proof -
  let ?two = "list_ex (\<lambda>e. ixLocs e \<noteq> []) (ixEntries idx)"
  obtain bs where bs: "list_all2 (\<lambda>e b. put_index_entry e = Inr b) (ixEntries idx) bs"
    and b: "b = (if ?two then indexMagicV2 else indexMagic) @ be64 (ixWatermark idx) @ be32 (word_of_nat (length (ixEntries idx))) @ concat bs"
    using assms(1) by (auto simp: EncodeIndex_def Let_def rbind_eq_Inr_iff rmap_eq_Inr_iff)
  have n: "unat (word_of_nat (length (ixEntries idx)) :: u32) = length (ixEntries idx)" using assms(2) by (simp add: unat_of_nat)
  have "take_index_entries ?two (length (ixEntries idx)) (concat bs) = Inr (ixEntries idx)"
    using take_index_entries_put [OF bs assms(3), of "[]"] by simp
  then show ?thesis
    using n by (cases ?two) (simp_all add: DecodeIndex_def b indexMagic_def indexMagicV2_def codec_simps Let_def)
qed

text \<open>C14: A page index decodes to what was encoded, in both versions of the format: entries all without locations, or all with
  one location per page whose stored length fits 31 bits (the top bit is the codec).\<close>

theorem index_roundtrip:
  assumes "EncodeIndex idx = Inr b" "length (ixEntries idx) < 2 ^ 32"
    and "\<forall>e \<in> set (ixEntries idx). index_entry_ok (list_ex (\<lambda>e. ixLocs e \<noteq> []) (ixEntries idx)) e"
  shows "DecodeIndex b = Inr idx"
  using assms by (rule DecodeIndex_Encode)

theorem index_roundtrip_witness:
  "\<exists>b. EncodeIndex \<lparr>ixWatermark = 9, ixEntries = [\<lparr>ixKey = ''L1/9.snapshot'', ixPageSize = 512, ixCommit = 2, ixPages = [1, 2],
        ixLocs = [\<lparr>Pgno = 1, Off = 40, Stored = 512, Size = 512, Codec = CodecRaw\<rparr>, \<lparr>Pgno = 2, Off = 552, Stored = 77, Size = 512, Codec = CodecLZ4\<rparr>]\<rparr>]\<rparr> = Inr b
     \<and> map_sum id ixWatermark (DecodeIndex b) = Inr 9"
proof -
  let ?idx = "\<lparr>ixWatermark = 9, ixEntries = [\<lparr>ixKey = ''L1/9.snapshot'', ixPageSize = 512, ixCommit = 2, ixPages = [1, 2],
        ixLocs = [\<lparr>Pgno = 1, Off = 40, Stored = 512, Size = 512, Codec = CodecRaw\<rparr>, \<lparr>Pgno = 2, Off = 552, Stored = 77, Size = 512, Codec = CodecLZ4\<rparr>]\<rparr>]\<rparr>"
  have "\<not> (2 :: u32) \<le> 1" by (simp add: word_le_nat_alt)
  then obtain b where b: "EncodeIndex ?idx = Inr b" by (simp add: EncodeIndex_def put_index_entry_def not_ascending_def rbind_def)
  have "DecodeIndex b = Inr ?idx" by (rule index_roundtrip [OF b]) (simp_all add: index_entry_ok_def index_loc_ok_def)
  with b show ?thesis by (intro exI [of _ b]) simp
qed

text \<open>An index in which one entry has locations and another has pages but none is written, and not read back.\<close>

lemma take_locs_length: "take_locs ps j pages rest = Inr locs \<Longrightarrow> length locs = length pages"
  by (induction pages arbitrary: j rest locs) (auto simp: Let_def rbind_eq_Inr_iff split: if_splits)

lemma take_index_entries_locs:
  "take_index_entries True n rest = Inr es \<Longrightarrow> e \<in> set es \<Longrightarrow> length (ixLocs e) = length (ixPages e)"
proof (induction n arbitrary: rest es)
  case (Suc n)
  then obtain e' rest' es' where e: "take_index_entry True rest = Inr (e', rest')" "take_index_entries True n rest' = Inr es'" "es = e' # es'"
    by (auto simp: rbind_eq_Inr_iff)
  have "length (ixLocs e') = length (ixPages e')"
    using e(1) by (auto simp: take_index_entry_def Let_def rbind_eq_Inr_iff take_locs_length split: if_splits)
  with Suc.IH [OF e(2)] Suc.prems(2) e(3) show ?case by auto
qed simp

lemma index_mixed_misread:
  assumes "EncodeIndex idx = Inr b" "e \<in> set (ixEntries idx)" "ixLocs e \<noteq> []"
    and "e' \<in> set (ixEntries idx)" "ixLocs e' = []" "ixPages e' \<noteq> []"
  shows "DecodeIndex b \<noteq> Inr idx"
proof
  assume d: "DecodeIndex b = Inr idx"
  have "list_ex (\<lambda>e. ixLocs e \<noteq> []) (ixEntries idx)" using assms(2,3) by (auto simp: list_ex_iff)
  then have "take 4 b = indexMagicV2" using assms(1) by (auto simp: EncodeIndex_def rbind_eq_Inr_iff indexMagicV2_def)
  with d obtain n rest where "take_index_entries True n rest = Inr (ixEntries idx)"
    by (auto simp: DecodeIndex_def Let_def rbind_eq_Inr_iff split: if_splits)
  from take_index_entries_locs [OF this assms(4)] assms(5,6) show False by simp
qed

end
