(* ===== verification/ResourceFence.thy ===== *)
theory ResourceFence
  imports SegNames IndexFile Paging ObjectStore HandlerLogic "HOL-Library.AList"
begin

text \<open>
  \<^verbatim>\<open>internal/replica/resource_fence.go\<close>: the deletion fence of a key-value or queue cell. The fence is one object per
  cell; a node keeps the absence of a fence for a second, one read per cell is in flight, and every
  handler that writes segments holds the read side of a lock whose write side is held while the fence
  changes. Handlers are programs over a bucket of byte strings. A wait (for a lock, for a flight) is a poll;
  the number of polls is an argument of the handler, and a handler that has used them up is still
  waiting (\<open>Waiting\<close>). JSON is a parameter.
\<close>

subsection \<open>Data\<close>

record resourceFence =
  fnJobID :: string
  fnDeleted :: bool
  fnEpoch :: u64

definition no_fence :: resourceFence where
  "no_fence = \<lparr>fnJobID = [], fnDeleted = False, fnEpoch = 0\<rparr>"

record Manifest =
  mnEpoch :: u64
  mnMinTxID :: u64
  mnMaxTxID :: u64
  mnCommit :: u32
  mnPageSize :: u32
  mnObjects :: "string list"
  mnCreatedMs :: int

datatype replica_error =
    ErrResourceDeleted | RScope scope_error | RStore store_error | RBucket bucket_error | ErrCtx | Waiting
  | CorruptFence | CorruptLegacyFence | MissingIdentity | UnknownPayload string | LateCleanup store_error
  | ConflictingSegment string | InvalidSegment ltx_error | EpochMismatch u64 u64 | EmptyBatch
  | ErrEpochMarkerConflict | CutOverflow | CorruptManifest | CorruptIndex index_error | ErrGCDeferred
  | CorruptObject string ltx_error | RestoreErr restore_error | PageMapFailed pm_error | ManifestChanged | ManifestAboveCut u64 u64 u64

text \<open>What the handlers use of \<^verbatim>\<open>encoding/json\<close>, and the order in which \<open>range\<close> visits the keys of a map.\<close>

record replica_wire =
  jFence :: "(resourceFence, bytes) codec"
  jManifest :: "(Manifest, bytes) codec"
  jValid :: "bytes \<Rightarrow> bool"
  rangeOrder :: "string list \<Rightarrow> string list"

record 'e fenceCacheEntry =
  fcFence :: resourceFence
  fcEtag :: "'e option"
  fcAt :: time

text \<open>A flight is a shared cell; its answer is there when its channel is closed. \<open>None\<close> as a tag is the empty string.\<close>

record 'e fenceFlight =
  ffRev :: u64
  ffAnswer :: "(replica_error + resourceFence \<times> 'e option) option"

record rw_lock =
  readers :: nat
  writer :: bool

record 'e replica_mem =
  fenceCache :: "(string \<times> 'e fenceCacheEntry) list"
  fenceRev :: u64
  fenceFlights :: "(string \<times> nat) list"
  fenceCells :: "nat \<Rightarrow> 'e fenceFlight option"
  newFence :: nat
  resourceLocks :: "nat \<Rightarrow> rw_lock"

type_synonym ('e, 'r) rprog = "(bytes, 'e, 'e replica_mem, 'r) prog"
type_synonym ('e, 'r) rhandler = "(bytes, 'e, 'e replica_mem, replica_error + 'r) prog"

definition resourceFenceKey :: "Scope \<Rightarrow> string" where
  "resourceFenceKey sc = ScopeKey sc @ ''/resource-fence.v2''"

definition legacyResourceFenceKey :: "Scope \<Rightarrow> string" where
  "legacyResourceFenceKey sc = ScopeKey sc @ ''/resource-fence.json''"

definition resourceLock :: "Scope \<Rightarrow> nat" where
  "resourceLock sc = unat (foldl (\<lambda>h c. h * 131 + of_char c) (0 :: u64) (ScopeString sc)) mod 64"

definition resourceObjects :: Objects where
  "resourceObjects = NewOwned ''cells/'' ''replica''"

definition resourceFenceCacheTTL :: time where "resourceFenceCacheTTL = 1000000000"
definition maxFenceCache :: nat where "maxFenceCache = 4096"

definition fenceAbsent :: "resourceFence \<Rightarrow> bool" where
  "fenceAbsent f \<longleftrightarrow> \<not> fnDeleted f \<and> fnJobID f = [] \<and> fnEpoch f = 0"

text \<open>The test every user of the fence makes: the resource is deleted, or this epoch is of a deleted incarnation.\<close>

definition fenced :: "resourceFence \<Rightarrow> u64 \<Rightarrow> bool" where
  "fenced f epoch \<longleftrightarrow> fnDeleted f \<or> fnJobID f \<noteq> [] \<and> epoch \<le> fnEpoch f"

definition resource_class :: "Scope \<Rightarrow> bool" where
  "resource_class sc \<longleftrightarrow> Class sc = ''__kv__'' \<or> Class sc = ''__queue__''"

subsection \<open>Reading the fence\<close>

text \<open>The first access writes the record at its fixed place, from the legacy one.\<close>

definition fence_migrate :: "replica_wire \<Rightarrow> Scope \<Rightarrow> ('e, bytes \<times> 'e) rhandler" where
  "fence_migrate W sc =
     bind (GetVersion resourceObjects (legacyResourceFenceKey sc)) (\<lambda>l.
       case (case l of Inl x \<Rightarrow> if x = StoreErr ErrNotFound then Inr (str_bytes ''{}'') else Inl x | Inr (b, _) \<Rightarrow> Inr b) of
         Inl x \<Rightarrow> Return (Inl (RStore x))
       | Inr legacy \<Rightarrow>
           if \<not> jValid W legacy then Return (Inl CorruptLegacyFence)
           else bind (ConditionalCreate resourceObjects (resourceFenceKey sc) legacy) (\<lambda>c.
                  case c of
                    Inr etag \<Rightarrow> Return (Inr (legacy, etag))
                  | Inl x \<Rightarrow>
                      if x = StoreErr ErrPrecondition
                      then bind (GetVersion resourceObjects (resourceFenceKey sc)) (\<lambda>r. Return (map_sum RStore id r))
                      else Return (Inl (RStore x))))"

definition readResourceFenceFresh :: "replica_wire \<Rightarrow> Scope \<Rightarrow> ('e, resourceFence \<times> 'e option) rhandler" where
  "readResourceFenceFresh W sc =
     (case Validate sc of
        Inl x \<Rightarrow> Return (Inl (RScope x))
      | Inr _ \<Rightarrow>
          if \<not> resource_class sc then Return (Inr (no_fence, None))
          else
            bind (GetVersion resourceObjects (resourceFenceKey sc)) (\<lambda>r.
            attempt (case r of
                       Inl x \<Rightarrow> if x = StoreErr ErrNotFound then fence_migrate W sc else Return (Inl (RStore x))
                     | Inr y \<Rightarrow> Return (Inr y)) (\<lambda>(raw, etag).
              Return (case unmarshal (jFence W) raw of None \<Rightarrow> Inl CorruptFence | Some f \<Rightarrow> Inr (f, Some etag)))))"

text \<open>Room in the cache: the expired entries go, then any others until there is room.\<close>

fun evict_loop :: "string list \<Rightarrow> (string \<times> 'a) list \<Rightarrow> (string \<times> 'a) list" where
  "evict_loop [] m = m"
| "evict_loop (k # ks) m = (if length m < maxFenceCache then m else evict_loop ks (AList.delete k m))"

definition cacheReadFence ::
  "replica_wire \<Rightarrow> string \<Rightarrow> resourceFence \<Rightarrow> 'e option \<Rightarrow> u64 \<Rightarrow> time \<Rightarrow> 'e replica_mem \<Rightarrow> 'e replica_mem" where
  "cacheReadFence W nm f etag rv now w =
     (if fenceRev w \<noteq> rv then w
      else if \<not> fenceAbsent f then w\<lparr>fenceCache := AList.delete nm (fenceCache w)\<rparr>
      else
        (let room = (if map_of (fenceCache w) nm = None \<and> length (fenceCache w) \<ge> maxFenceCache
                     then (let live = filter (\<lambda>(k, e). now - fcAt e < resourceFenceCacheTTL) (fenceCache w)
                           in evict_loop (rangeOrder W (map fst live)) live)
                     else fenceCache w)
         in w\<lparr>fenceCache := AList.update nm \<lparr>fcFence = f, fcEtag = etag, fcAt = now\<rparr> room\<rparr>))"

definition cacheFence :: "Scope \<Rightarrow> resourceFence \<Rightarrow> 'e option \<Rightarrow> time \<Rightarrow> 'e replica_mem \<Rightarrow> 'e replica_mem" where
  "cacheFence sc f etag now w =
     w\<lparr>fenceRev := fenceRev w + 1,
       fenceCache := (if fenceAbsent f then AList.update (ScopeString sc) \<lparr>fcFence = f, fcEtag = etag, fcAt = now\<rparr> (fenceCache w)
                      else AList.delete (ScopeString sc) (fenceCache w))\<rparr>"

datatype 'e fence_look = FHit resourceFence "'e option" | FWait nat | FLead nat u64

text \<open>The first critical section of \<open>readResourceFenceShared\<close>.\<close>

definition fence_enter :: "string \<Rightarrow> bool \<Rightarrow> time \<Rightarrow> 'e replica_mem \<Rightarrow> 'e fence_look \<times> 'e replica_mem" where
  "fence_enter nm refresh now w =
     (let rv = fenceRev w;
          lead = (FLead (newFence w) rv,
            w\<lparr>fenceFlights := (if length (fenceFlights w) < 1024 then AList.update nm (newFence w) (fenceFlights w) else fenceFlights w),
              fenceCells := (fenceCells w)(newFence w \<mapsto> \<lparr>ffRev = rv, ffAnswer = None\<rparr>), newFence := newFence w + 1\<rparr>);
          fly = (case map_of (fenceFlights w) nm of
                   Some i \<Rightarrow>
                     (case fenceCells w i of
                        Some f \<Rightarrow> if ffRev f = rv then (FWait i, w) else lead
                      | None \<Rightarrow> lead)
                 | None \<Rightarrow> lead)
      in if refresh then fly
         else (case map_of (fenceCache w) nm of
                 Some e \<Rightarrow> if now - fcAt e < resourceFenceCacheTTL then (FHit (fcFence e) (fcEtag e), w) else fly
               | None \<Rightarrow> fly))"

text \<open>The last one: answer the waiters; \<open>True\<close> if no local change of a fence happened meanwhile.\<close>

definition fence_finish ::
  "string \<Rightarrow> nat \<Rightarrow> u64 \<Rightarrow> replica_error + resourceFence \<times> 'e option \<Rightarrow> 'e replica_mem \<Rightarrow> bool \<times> 'e replica_mem" where
  "fence_finish nm i rv ans w =
     (fenceRev w = rv,
      w\<lparr>fenceFlights := (if map_of (fenceFlights w) nm = Some i then AList.delete nm (fenceFlights w) else fenceFlights w),
        fenceCells := (fenceCells w)(i \<mapsto> \<lparr>ffRev = rv, ffAnswer = Some ans\<rparr>)\<rparr>)"

text \<open>\<open>errors.Is\<close> with the errors of a cancelled context.\<close>

definition ctx_error :: "replica_error \<Rightarrow> bool" where
  "ctx_error x \<longleftrightarrow> x = ErrCtx \<or> x = RStore (StoreErr (ErrOther ''context canceled''))
     \<or> x = RStore (StoreErr (ErrOther ''context deadline exceeded''))"

text \<open>A waiter looks at a flight: not answered, answered for an older revision or by a cancelled leader, or answered.\<close>

definition fence_poll ::
  "nat \<Rightarrow> 'e replica_mem \<Rightarrow> (replica_error + resourceFence \<times> 'e option) option option" where
  "fence_poll i w =
     (case fenceCells w i of
        None \<Rightarrow> None
      | Some f \<Rightarrow>
          (case ffAnswer f of
             None \<Rightarrow> None
           | Some ans \<Rightarrow>
               Some (if fenceRev w \<noteq> ffRev f \<or> (case ans of Inl x \<Rightarrow> ctx_error x | Inr _ \<Rightarrow> False) then None else Some ans)))"

primrec fence_loop ::
  "nat \<Rightarrow> replica_wire \<Rightarrow> bool \<Rightarrow> Scope \<Rightarrow> bool \<Rightarrow> nat option \<Rightarrow> ('e, resourceFence \<times> 'e option) rhandler" where
  "fence_loop 0 W canceled sc refresh mode = Return (Inl Waiting)"
| "fence_loop (Suc n) W canceled sc refresh mode =
     (if canceled then Return (Inl ErrCtx)
      else
        case mode of
          None \<Rightarrow>
            bind (atomically (fence_enter (ScopeString sc) refresh)) (\<lambda>look. case look of
                FHit f e \<Rightarrow> Return (Inr (f, e))
              | FWait i \<Rightarrow> fence_loop n W canceled sc refresh (Some i)
              | FLead i rv \<Rightarrow>
                  bind (readResourceFenceFresh W sc) (\<lambda>ans.
                  bind (case ans of
                          Inr (f, e) \<Rightarrow> change (cacheReadFence W (ScopeString sc) f e rv)
                        | Inl _ \<Rightarrow> Return ()) (\<lambda>_.
                  bind (atomically (\<lambda>_. fence_finish (ScopeString sc) i rv ans)) (\<lambda>current.
                    if \<not> current then fence_loop n W canceled sc refresh None else Return ans))))
        | Some i \<Rightarrow>
            bind (atomically (\<lambda>_ w. (fence_poll i w, w))) (\<lambda>p. case p of
                None \<Rightarrow> fence_loop n W canceled sc refresh (Some i)
              | Some None \<Rightarrow> fence_loop n W canceled sc refresh None
              | Some (Some ans) \<Rightarrow> Return ans))"

definition readResourceFenceShared ::
  "nat \<Rightarrow> replica_wire \<Rightarrow> bool \<Rightarrow> Scope \<Rightarrow> bool \<Rightarrow> ('e, resourceFence \<times> 'e option) rhandler" where
  "readResourceFenceShared n W canceled sc refresh = fence_loop n W canceled sc refresh None"

definition readResourceFence :: "nat \<Rightarrow> replica_wire \<Rightarrow> bool \<Rightarrow> Scope \<Rightarrow> ('e, resourceFence \<times> 'e option) rhandler" where
  "readResourceFence n W canceled sc =
     (if \<not> resource_class sc then Return (Inr (no_fence, None)) else readResourceFenceShared n W canceled sc False)"

definition RefreshResourceSnapshot :: "nat \<Rightarrow> replica_wire \<Rightarrow> bool \<Rightarrow> Scope \<Rightarrow> ('e, unit) rhandler" where
  "RefreshResourceSnapshot n W canceled sc =
     attempt (readResourceFenceShared n W canceled sc True) (\<lambda>_. Return (Inr ()))"

definition ResourceBlocked :: "nat \<Rightarrow> replica_wire \<Rightarrow> bool \<Rightarrow> Scope \<Rightarrow> ('e, bool) rhandler" where
  "ResourceBlocked n W canceled sc = attempt (readResourceFence n W canceled sc) (\<lambda>(f, _). Return (Inr (fnDeleted f)))"

definition ResourceState :: "nat \<Rightarrow> replica_wire \<Rightarrow> bool \<Rightarrow> Scope \<Rightarrow> ('e, bool \<times> u64) rhandler" where
  "ResourceState n W canceled sc =
     attempt (readResourceFence n W canceled sc) (\<lambda>(f, _). Return (Inr (fnDeleted f, fnEpoch f)))"

definition ResourceSnapshot :: "nat \<Rightarrow> replica_wire \<Rightarrow> bool \<Rightarrow> Scope \<Rightarrow> ('e, string \<times> bool \<times> u64) rhandler" where
  "ResourceSnapshot n W canceled sc =
     attempt (readResourceFence n W canceled sc) (\<lambda>(f, _). Return (Inr (fnJobID f, fnDeleted f, fnEpoch f)))"

definition ResourceGeneration :: "nat \<Rightarrow> replica_wire \<Rightarrow> bool \<Rightarrow> Scope \<Rightarrow> ('e, string) rhandler" where
  "ResourceGeneration n W canceled sc =
     attempt (readResourceFence n W canceled sc) (\<lambda>(f, _).
       Return (if fnDeleted f then Inl ErrResourceDeleted else Inr (fnJobID f)))"

definition ValidateResourceDelete :: "replica_wire \<Rightarrow> Scope \<Rightarrow> string \<Rightarrow> ('e, unit) rhandler" where
  "ValidateResourceDelete W sc jobID =
     attempt (readResourceFenceFresh W sc) (\<lambda>(f, _).
       Return (if \<not> fnDeleted f \<or> fnJobID f \<noteq> jobID then Inl ErrResourceDeleted else Inr ()))"

subsection \<open>Locks\<close>

definition set_lock :: "nat \<Rightarrow> rw_lock \<Rightarrow> 'e replica_mem \<Rightarrow> 'e replica_mem" where
  "set_lock h l w = w\<lparr>resourceLocks := (resourceLocks w)(h := l)\<rparr>"

primrec RLock :: "nat \<Rightarrow> nat \<Rightarrow> ('e, bool) rprog" where
  "RLock 0 h = Return False"
| "RLock (Suc n) h =
     bind (atomically (\<lambda>_ w. let l = resourceLocks w h in
             if writer l then (False, w) else (True, set_lock h (l\<lparr>readers := readers l + 1\<rparr>) w))) (\<lambda>ok.
       if ok then Return True else RLock n h)"

definition RUnlock :: "nat \<Rightarrow> ('e, unit) rprog" where
  "RUnlock h = change (\<lambda>_ w. let l = resourceLocks w h in set_lock h (l\<lparr>readers := readers l - 1\<rparr>) w)"

primrec WLock :: "nat \<Rightarrow> nat \<Rightarrow> ('e, bool) rprog" where
  "WLock 0 h = Return False"
| "WLock (Suc n) h =
     bind (atomically (\<lambda>_ w. let l = resourceLocks w h in
             if writer l \<or> readers l > 0 then (False, w) else (True, set_lock h (l\<lparr>writer := True\<rparr>) w))) (\<lambda>ok.
       if ok then Return True else WLock n h)"

definition WUnlock :: "nat \<Rightarrow> ('e, unit) rprog" where
  "WUnlock h = change (\<lambda>_ w. set_lock h ((resourceLocks w h)\<lparr>writer := False\<rparr>) w)"

text \<open>\<open>defer release()\<close>.\<close>

definition deferred :: "('e, unit) rprog \<Rightarrow> ('e, 'a) rprog \<Rightarrow> ('e, 'a) rprog" where
  "deferred release body = bind body (\<lambda>r. bind release (\<lambda>_. Return r))"

definition exclusively :: "nat \<Rightarrow> Scope \<Rightarrow> ('e, 'a) rhandler \<Rightarrow> ('e, 'a) rhandler" where
  "exclusively n sc body =
     bind (WLock n (resourceLock sc)) (\<lambda>ok.
       if \<not> ok then Return (Inl Waiting) else deferred (WUnlock (resourceLock sc)) body)"

text \<open>\<open>Inr ()\<close>: the read side is held and the caller releases it.\<close>

definition resourceWriteGuard :: "nat \<Rightarrow> replica_wire \<Rightarrow> Scope \<Rightarrow> u64 \<Rightarrow> ('e, unit) rhandler" where
  "resourceWriteGuard n W sc epoch =
     bind (RLock n (resourceLock sc)) (\<lambda>ok.
       if \<not> ok then Return (Inl Waiting)
       else
         bind (readResourceFenceFresh W sc) (\<lambda>r.
           case (case r of Inl x \<Rightarrow> Some x | Inr (f, _) \<Rightarrow> if fenced f epoch then Some ErrResourceDeleted else None) of
             Some x \<Rightarrow> bind (RUnlock (resourceLock sc)) (\<lambda>_. Return (Inl x))
           | None \<Rightarrow> Return (Inr ())))"

definition write_guarded :: "nat \<Rightarrow> replica_wire \<Rightarrow> Scope \<Rightarrow> u64 \<Rightarrow> ('e, 'a) rhandler \<Rightarrow> ('e, 'a) rhandler" where
  "write_guarded n W sc epoch body =
     attempt (resourceWriteGuard n W sc epoch) (\<lambda>_. deferred (RUnlock (resourceLock sc)) body)"

subsection \<open>Changing the fence\<close>

primrec fence_update ::
  "nat \<Rightarrow> replica_wire \<Rightarrow> Scope \<Rightarrow> (resourceFence \<Rightarrow> replica_error + resourceFence) \<Rightarrow> ('e, unit) rhandler" where
  "fence_update 0 W sc ch = Return (Inl (RStore (StoreErr ErrPrecondition)))"
| "fence_update (Suc i) W sc ch =
     attempt (readResourceFenceFresh W sc) (\<lambda>(f, etag).
       case ch f of
         Inl x \<Rightarrow> Return (Inl x)
       | Inr f' \<Rightarrow>
           bind (case etag of
                   None \<Rightarrow> ConditionalCreate resourceObjects (resourceFenceKey sc) (marshal (jFence W) f')
                 | Some e \<Rightarrow> ObjCAS resourceObjects (resourceFenceKey sc) (marshal (jFence W) f') e) (\<lambda>r.
             case r of
               Inl x \<Rightarrow> if x = StoreErr ErrPrecondition then fence_update i W sc ch else Return (Inl (RStore x))
             | Inr _ \<Rightarrow> bind (change (cacheFence sc f' None)) (\<lambda>_. Return (Inr ()))))"

definition updateResourceFence ::
  "nat \<Rightarrow> replica_wire \<Rightarrow> Scope \<Rightarrow> (resourceFence \<Rightarrow> replica_error + resourceFence) \<Rightarrow> ('e, unit) rhandler" where
  "updateResourceFence n W sc ch = exclusively n sc (fence_update 8 W sc ch)"

definition BlockResource :: "nat \<Rightarrow> replica_wire \<Rightarrow> Scope \<Rightarrow> string \<Rightarrow> ('e, unit) rhandler" where
  "BlockResource n W sc jobID =
     (if jobID = [] then Return (Inl MissingIdentity)
      else updateResourceFence n W sc (\<lambda>f.
             if \<not> fnDeleted f \<and> fnJobID f = jobID then Inl ErrResourceDeleted
             else if fnDeleted f \<and> fnJobID f \<noteq> jobID then Inl ErrResourceDeleted
             else Inr (f\<lparr>fnDeleted := True, fnJobID := jobID\<rparr>)))"

definition FenceResource :: "nat \<Rightarrow> replica_wire \<Rightarrow> Scope \<Rightarrow> string \<Rightarrow> u64 \<Rightarrow> ('e, unit) rhandler" where
  "FenceResource n W sc jobID epoch =
     updateResourceFence n W sc (\<lambda>f.
       if \<not> fnDeleted f \<or> fnJobID f \<noteq> jobID then Inl ErrResourceDeleted
       else Inr (if epoch > fnEpoch f then f\<lparr>fnEpoch := epoch\<rparr> else f))"

definition AllowResource :: "nat \<Rightarrow> replica_wire \<Rightarrow> Scope \<Rightarrow> string \<Rightarrow> ('e, unit) rhandler" where
  "AllowResource n W sc jobID =
     updateResourceFence n W sc (\<lambda>f. if fnJobID f \<noteq> jobID then Inl ErrResourceDeleted else Inr (f\<lparr>fnDeleted := False\<rparr>))"

subsection \<open>Removing payloads\<close>

definition resourceObjectEpoch :: "Scope \<Rightarrow> string \<Rightarrow> u64 option" where
  "resourceObjectEpoch sc k =
     (let p = ScopeKey sc @ ''/ltx/e'' in
      if \<not> HasPrefix k p then None
      else (case cut_at (CHR ''/'') (TrimPrefix k p) of
              None \<Rightarrow> None
            | Some (e, _) \<Rightarrow> if e = [] then None else ParseUint e))"

primrec purge_loop :: "Scope \<Rightarrow> resourceFence \<Rightarrow> string \<Rightarrow> string list \<Rightarrow> ('e, bool) rhandler" where
  "purge_loop sc f next [] = Return (Inr (next = []))"
| "purge_loop sc f next (k # ks) =
     (case resourceObjectEpoch sc k of
        None \<Rightarrow> Return (Inl (UnknownPayload k))
      | Some epoch \<Rightarrow>
          if epoch > fnEpoch f then purge_loop sc f next ks
          else bind (ObjDelete resourceObjects k) (\<lambda>r. case r of
                   Inl x \<Rightarrow> Return (Inl (RStore x))
                 | Inr _ \<Rightarrow> purge_loop sc f next ks))"

definition PurgeResource :: "nat \<Rightarrow> replica_wire \<Rightarrow> Scope \<Rightarrow> string \<Rightarrow> int \<Rightarrow> ('e, bool) rhandler" where
  "PurgeResource n W sc jobID mx =
     exclusively n sc
       (attempt (readResourceFenceFresh W sc) (\<lambda>(f, _).
          if \<not> fnDeleted f \<or> fnJobID f \<noteq> jobID then Return (Inl ErrResourceDeleted)
          else
            bind (ListPage None resourceObjects (ScopeKey sc @ ''/ltx/'') [] (if mx \<le> 0 \<or> mx > 1000 then 500 else mx)) (\<lambda>r.
              case r of Inl x \<Rightarrow> Return (Inl (RStore x)) | Inr (items, next) \<Rightarrow> purge_loop sc f next items)))"

text \<open>\<open>tags\<close> is the tag a listing reports with a key, \<open>None\<close> when it reports none and the object has to be read first.\<close>

primrec sweep_loop :: "(string \<Rightarrow> 'e option) \<Rightarrow> Scope \<Rightarrow> u64 \<Rightarrow> string \<Rightarrow> string list \<Rightarrow> ('e, string) rhandler" where
  "sweep_loop tags sc floor next [] = Return (Inr next)"
| "sweep_loop tags sc floor next (k # ks) =
     (case resourceObjectEpoch sc k of
        None \<Rightarrow> sweep_loop tags sc floor next ks
      | Some epoch \<Rightarrow>
          if epoch > floor then sweep_loop tags sc floor next ks
          else bind (case tags k of
                       Some e \<Rightarrow> Return (Inr e)
                     | None \<Rightarrow> bind (GetVersion resourceObjects k) (\<lambda>g. Return (map_sum id snd g))) (\<lambda>g. case g of
                   Inl x \<Rightarrow> if x = StoreErr ErrNotFound then sweep_loop tags sc floor next ks else Return (Inl (RStore x))
                 | Inr etag \<Rightarrow>
                     bind (ConditionalDelete resourceObjects k etag) (\<lambda>d. case d of
                         Inl x \<Rightarrow> if x \<noteq> StoreErr ErrPrecondition \<and> x \<noteq> StoreErr ErrNotFound then Return (Inl (RStore x))
                                  else sweep_loop tags sc floor next ks
                       | Inr _ \<Rightarrow> sweep_loop tags sc floor next ks)))"

definition SweepRetired ::
  "nat \<Rightarrow> replica_wire \<Rightarrow> (string \<Rightarrow> 'e option) \<Rightarrow> bool \<Rightarrow> Scope \<Rightarrow> string \<Rightarrow> u64 \<Rightarrow> string \<Rightarrow> ('e, string) rhandler" where
  "SweepRetired n W tags canceled sc jobID floor after =
     attempt (readResourceFence n W canceled sc) (\<lambda>(f, _).
       if fnJobID f \<noteq> jobID \<or> fnEpoch f < floor then Return (Inr [])
       else
         bind (ListPage None resourceObjects (ScopeKey sc @ ''/ltx/'') after 500) (\<lambda>r.
           case r of Inl x \<Rightarrow> Return (Inl (RStore x)) | Inr (items, next) \<Rightarrow> sweep_loop tags sc floor next items))"

subsection \<open>Publishing\<close>

definition putResourceObject ::
  "nat \<Rightarrow> replica_wire \<Rightarrow> bool \<Rightarrow> Scope \<Rightarrow> u64 \<Rightarrow> string \<Rightarrow> bytes \<Rightarrow> ('e, 'e) rhandler" where
  "putResourceObject n W canceled sc epoch k data =
     bind (ObjPut resourceObjects k data) (\<lambda>r. case r of
         Inl x \<Rightarrow> Return (Inl (RStore x))
       | Inr etag \<Rightarrow>
           attempt (readResourceFence n W canceled sc) (\<lambda>(fence, _).
             if fenced fence epoch
             then bind (ConditionalDelete resourceObjects k etag) (\<lambda>c.
                    Return (Inl (case c of
                        Inl x \<Rightarrow> if x \<noteq> StoreErr ErrPrecondition \<and> x \<noteq> StoreErr ErrNotFound then LateCleanup x else ErrResourceDeleted
                      | Inr _ \<Rightarrow> ErrResourceDeleted)))
             else Return (Inr etag)))"

definition putImmutableSegment ::
  "nat \<Rightarrow> replica_wire \<Rightarrow> bool \<Rightarrow> Scope \<Rightarrow> u64 \<Rightarrow> string \<Rightarrow> bytes \<Rightarrow> ('e, 'e) rhandler" where
  "putImmutableSegment n W canceled sc epoch k data =
     bind (ConditionalCreate resourceObjects k data) (\<lambda>c.
     attempt (case c of
                Inr etag \<Rightarrow> Return (Inr (True, etag))
              | Inl x \<Rightarrow>
                  if x = StoreErr ErrPrecondition
                  then bind (GetVersion resourceObjects k) (\<lambda>g. Return (case g of
                           Inl y \<Rightarrow> Inl (RStore y)
                         | Inr (old, oldETag) \<Rightarrow> if old \<noteq> data then Inl (ConflictingSegment k) else Inr (False, oldETag)))
                  else Return (Inl (RStore x))) (\<lambda>(created, etag).
     attempt (readResourceFence n W canceled sc) (\<lambda>(fence, _).
       if fenced fence epoch
       then (if created
             then bind (ConditionalDelete resourceObjects k etag) (\<lambda>c.
                    Return (Inl (case c of
                        Inl x \<Rightarrow> if x \<noteq> StoreErr ErrPrecondition \<and> x \<noteq> StoreErr ErrNotFound then LateCleanup x else ErrResourceDeleted
                      | Inr _ \<Rightarrow> ErrResourceDeleted)))
             else Return (Inl ErrResourceDeleted))
       else Return (Inr etag))))"

end
