(* ===== verification/ReplicaStore.thy ===== *)
theory ReplicaStore
  imports ResourceFence
begin

unbundle bit_operations_syntax

text \<open>
  \<^verbatim>\<open>internal/replica/replica.go\<close>, \<^verbatim>\<open>index.go\<close> and \<^verbatim>\<open>gc.go\<close>: the handlers that write segments, snapshot markers, manifests
  and page indexes, and the ones that delete. Any number of nodes run them against one bucket.
\<close>

subsection \<open>Snapshot markers\<close>

definition bucket_put_plain :: "string \<Rightarrow> bytes \<Rightarrow> ('e, unit) rhandler" where
  "bucket_put_plain k v = Put k v (\<lambda>x. Return (case x of Inl e \<Rightarrow> Inl (RBucket e) | Inr _ \<Rightarrow> Inr ()))"

text \<open>A \<open>Get\<close> asked only whether the object is there.\<close>

definition present :: "string \<Rightarrow> ('e, bool) rhandler" where
  "present k = Get k (\<lambda>x. Return (case x of
       Inr _ \<Rightarrow> Inr True
     | Inl e \<Rightarrow> if e = ErrNotFound then Inr False else Inl (RBucket e)))"

definition MarkSnapshotStarted :: "Scope \<Rightarrow> u64 \<Rightarrow> u64 \<Rightarrow> ('e, unit) rhandler" where
  "MarkSnapshotStarted s epoch txid = bucket_put_plain (SnapshotStartedName s epoch txid) (str_bytes ''{}'')"

definition SnapshotStarted :: "Scope \<Rightarrow> u64 \<Rightarrow> u64 \<Rightarrow> ('e, bool) rhandler" where
  "SnapshotStarted s epoch txid = present (SnapshotStartedName s epoch txid)"

definition ClearSnapshotStarted :: "Scope \<Rightarrow> u64 \<Rightarrow> u64 \<Rightarrow> ('e, unit) rhandler" where
  "ClearSnapshotStarted s epoch txid =
     Delete (SnapshotStartedName s epoch txid) (\<lambda>x. Return (case x of Inl e \<Rightarrow> Inl (RBucket e) | Inr _ \<Rightarrow> Inr ()))"

definition MarkSnapshotDone :: "Scope \<Rightarrow> u64 \<Rightarrow> u64 \<Rightarrow> ('e, unit) rhandler" where
  "MarkSnapshotDone s epoch txid = bucket_put_plain (SnapshotDoneName s epoch txid) (str_bytes ''{}'')"

definition SnapshotDone :: "Scope \<Rightarrow> u64 \<Rightarrow> u64 \<Rightarrow> ('e, bool) rhandler" where
  "SnapshotDone s epoch txid = present (SnapshotDoneName s epoch txid)"

subsection \<open>Segments\<close>

definition Append ::
  "nat \<Rightarrow> replica_wire \<Rightarrow> bool \<Rightarrow> Scope \<Rightarrow> u64 \<Rightarrow> bytes \<Rightarrow> ('e, string \<times> 'e) rhandler" where
  "Append n W canceled s epoch segment =
     write_guarded n W s epoch
       (case Decode segment of
          Inl x \<Rightarrow> Return (Inl (InvalidSegment x))
        | Inr (h, _) \<Rightarrow>
            if Ltx.Header.Epoch h \<noteq> epoch then Return (Inl (EpochMismatch (Ltx.Header.Epoch h) epoch))
            else
              (let k = SegPrefix s epoch @ SegmentName h in
               attempt (putImmutableSegment n W canceled s epoch k segment) (\<lambda>etag. Return (Inr (k, etag)))))"

text \<open>The headers of a batch, checked one by one.\<close>

primrec batch_headers :: "u64 \<Rightarrow> bytes list \<Rightarrow> replica_error + Header list" where
  "batch_headers epoch [] = Inr []"
| "batch_headers epoch (seg # segs) =
     (case Decode seg of
        Inl x \<Rightarrow> Inl (InvalidSegment x)
      | Inr (h, _) \<Rightarrow>
          if Ltx.Header.Epoch h \<noteq> epoch then Inl (EpochMismatch (Ltx.Header.Epoch h) epoch)
          else rbind (batch_headers epoch segs) (\<lambda>hs. Inr (h # hs)))"

definition batch_name :: "Header list \<Rightarrow> string" where
  "batch_name hs = (if length hs = 1 then SegmentName (hd hs) else BatchName (hd hs) (last hs))"

definition AppendBatch ::
  "nat \<Rightarrow> replica_wire \<Rightarrow> bool \<Rightarrow> Scope \<Rightarrow> u64 \<Rightarrow> bytes list \<Rightarrow> ('e, string \<times> 'e) rhandler" where
  "AppendBatch n W canceled s epoch segments =
     write_guarded n W s epoch
       (if length segments = 0 then Return (Inl EmptyBatch)
        else (case batch_headers epoch segments of
                Inl x \<Rightarrow> Return (Inl x)
              | Inr hs \<Rightarrow>
                  (let k = SegPrefix s epoch @ batch_name hs in
                   attempt (putImmutableSegment n W canceled s epoch k (concat segments)) (\<lambda>etag. Return (Inr (k, etag))))))"

definition AppendL1 ::
  "nat \<Rightarrow> replica_wire \<Rightarrow> bool \<Rightarrow> Scope \<Rightarrow> u64 \<Rightarrow> bytes \<Rightarrow> ('e, string \<times> 'e) rhandler" where
  "AppendL1 n W canceled s epoch segment =
     write_guarded n W s epoch
       (case Decode segment of
          Inl x \<Rightarrow> Return (Inl (InvalidSegment x))
        | Inr (h, _) \<Rightarrow>
            if Ltx.Header.Epoch h \<noteq> epoch then Return (Inl (EpochMismatch (Ltx.Header.Epoch h) epoch))
            else
              (let k = L1Prefix s epoch @ SegmentName h in
               attempt (putImmutableSegment n W canceled s epoch k segment) (\<lambda>etag. Return (Inr (k, etag)))))"

subsection \<open>Epoch markers\<close>

definition marker_header :: "u64 \<Rightarrow> u64 \<Rightarrow> Header" where
  "marker_header epoch cutoff =
     \<lparr>Version = 0, HKind = KindMarker, Flags = 0, Ltx.Header.Epoch = epoch, StartTxID = cutoff + 1, EndTxID = cutoff, Length = 0, CRC = 0\<rparr>"

definition epoch_cut_key :: "Scope \<Rightarrow> u64 \<Rightarrow> string" where
  "epoch_cut_key s epoch = SegPrefix s epoch @ ''epoch-cut''"

text \<open>A marker object under the prefix that names another cut.\<close>

definition conflicting_marker :: "Scope \<Rightarrow> u64 \<Rightarrow> u64 \<Rightarrow> string \<Rightarrow> bool" where
  "conflicting_marker s epoch cutoff existing \<longleftrightarrow>
     (let name = TrimPrefix existing (SegPrefix s epoch) in
      HasSuffix name ''.marker''
      \<and> (case parseSegmentSpan name of None \<Rightarrow> True | Some sp \<Rightarrow> \<not> spMarker sp \<or> spEnd sp \<noteq> cutoff))"

definition claim_object :: "string \<Rightarrow> bytes \<Rightarrow> ('e, unit) rhandler" where
  "claim_object target seg =
     bind (ConditionalCreate resourceObjects target seg) (\<lambda>c. case c of
         Inr _ \<Rightarrow> Return (Inr ())
       | Inl x \<Rightarrow>
           if x \<noteq> StoreErr ErrPrecondition then Return (Inl (RStore x))
           else bind (GetVersion resourceObjects target) (\<lambda>g. Return (case g of
                    Inl y \<Rightarrow> Inl (RStore y)
                  | Inr (raw, _) \<Rightarrow> if raw \<noteq> seg then Inl ErrEpochMarkerConflict else Inr ())))"

definition MarkEpoch :: "nat \<Rightarrow> replica_wire \<Rightarrow> bool \<Rightarrow> Scope \<Rightarrow> u64 \<Rightarrow> u64 \<Rightarrow> ('e, string) rhandler" where
  "MarkEpoch n W canceled s epoch cutoff =
     (if cutoff = NOT 0 then Return (Inl CutOverflow)
      else write_guarded n W s epoch
        (let h = marker_header epoch cutoff; seg = Encode h []; k = SegPrefix s epoch @ SegmentName h in
         ListKeys (SegPrefix s epoch) (\<lambda>l. case l of
             Inl x \<Rightarrow> Return (Inl (RBucket x))
           | Inr keys \<Rightarrow>
               if list_ex (conflicting_marker s epoch cutoff) keys then Return (Inl ErrEpochMarkerConflict)
               else
                 attempt (claim_object (epoch_cut_key s epoch) seg) (\<lambda>_.
                 attempt (claim_object k seg) (\<lambda>_.
                 attempt (readResourceFence n W canceled s) (\<lambda>(fence, _).
                   Return (if fenced fence epoch then Inl ErrResourceDeleted else Inr k)))))))"

subsection \<open>Manifest and index\<close>

definition PutManifest :: "nat \<Rightarrow> replica_wire \<Rightarrow> bool \<Rightarrow> Scope \<Rightarrow> u64 \<Rightarrow> Manifest \<Rightarrow> ('e, unit) rhandler" where
  "PutManifest n W canceled s epoch man =
     write_guarded n W s epoch
       (let man = man\<lparr>mnEpoch := epoch\<rparr> in
        bind now_is (\<lambda>now.
        let man = (if mnCreatedMs man = 0 then man\<lparr>mnCreatedMs := UnixMilli now\<rparr> else man) in
        attempt (putResourceObject n W canceled s epoch (ManifestName s epoch) (marshal (jManifest W) man)) (\<lambda>_. Return (Inr ()))))"

definition ReadManifest :: "replica_wire \<Rightarrow> Scope \<Rightarrow> u64 \<Rightarrow> ('e, Manifest option) rhandler" where
  "ReadManifest W s epoch = Get (ManifestName s epoch) (\<lambda>x. Return (case x of
       Inl e \<Rightarrow> if e = ErrNotFound then Inr None else Inl (RBucket e)
     | Inr (data, _) \<Rightarrow> (case unmarshal (jManifest W) data of None \<Rightarrow> Inl CorruptManifest | Some man \<Rightarrow> Inr (Some man))))"

definition Covers :: "replica_wire \<Rightarrow> Scope \<Rightarrow> u64 \<Rightarrow> u64 \<Rightarrow> ('e, bool) rhandler" where
  "Covers W s epoch txid =
     attempt (ReadManifest W s epoch) (\<lambda>man.
       Return (Inr (case man of None \<Rightarrow> False | Some man \<Rightarrow> mnMaxTxID man \<ge> txid)))"

definition PutIndex :: "nat \<Rightarrow> replica_wire \<Rightarrow> bool \<Rightarrow> Scope \<Rightarrow> u64 \<Rightarrow> PageIndexFile \<Rightarrow> ('e, unit) rhandler" where
  "PutIndex n W canceled s epoch idx =
     write_guarded n W s epoch
       (case EncodeIndex idx of
          Inl x \<Rightarrow> Return (Inl (CorruptIndex x))
        | Inr data \<Rightarrow> attempt (putResourceObject n W canceled s epoch (IndexName s epoch) data) (\<lambda>_. Return (Inr ())))"

definition ReadIndex :: "Scope \<Rightarrow> u64 \<Rightarrow> ('e, PageIndexFile option) rhandler" where
  "ReadIndex s epoch = Get (IndexName s epoch) (\<lambda>x. Return (case x of
       Inl e \<Rightarrow> if e = ErrNotFound then Inr None else Inl (RBucket e)
     | Inr (data, _) \<Rightarrow> (case DecodeIndex data of Inl y \<Rightarrow> Inl (CorruptIndex y) | Inr idx \<Rightarrow> Inr (Some idx))))"

definition ReadSegment :: "string \<Rightarrow> ('e, bytes) rhandler" where
  "ReadSegment k = Get k (\<lambda>x. Return (case x of Inl e \<Rightarrow> Inl (RBucket e) | Inr (data, _) \<Rightarrow> Inr data))"

definition ListSegments :: "Scope \<Rightarrow> u64 \<Rightarrow> ('e, string list) rhandler" where
  "ListSegments s epoch =
     ListKeys (SegPrefix s epoch) (\<lambda>x. Return (case x of Inl e \<Rightarrow> Inl (RBucket e) | Inr keys \<Rightarrow> Inr keys))"

definition ListL0Segments :: "Scope \<Rightarrow> u64 \<Rightarrow> ('e, string list) rhandler" where
  "ListL0Segments s epoch =
     attempt (ListSegments s epoch) (\<lambda>keys.
       Return (Inr (filter (\<lambda>k. \<not> (HasPrefix k (L1Prefix s epoch) \<or> \<not> isSegmentKey k)) keys)))"

subsection \<open>Deletion\<close>

definition DeleteObject :: "string \<Rightarrow> ('e, unit) rhandler" where
  "DeleteObject k = Return (Inl ErrGCDeferred)"

record 'e RetireOptions =
  OfflineQuiescent :: bool
  Verify :: "('e, unit) rhandler option"

text \<open>The headers of an object all of one kind, snapshot or delta, of this epoch.\<close>

primrec payload_headers :: "u64 \<Rightarrow> u8 option \<Rightarrow> bytes list \<Rightarrow> Header list option" where
  "payload_headers epoch kind [] = Some []"
| "payload_headers epoch kind (part # parts) =
     (case Decode part of
        Inl _ \<Rightarrow> None
      | Inr (h, _) \<Rightarrow>
          if Ltx.Header.Epoch h \<noteq> epoch \<or> (HKind h \<noteq> KindSnapshot \<and> HKind h \<noteq> KindDelta) then None
          else if kind \<noteq> None \<and> kind \<noteq> Some (HKind h) then None
          else map_option (\<lambda>hs. h # hs) (payload_headers epoch (Some (HKind h)) parts))"

definition payload_name :: "string \<Rightarrow> bool" where
  "payload_name name \<longleftrightarrow>
     \<not> (Contains name ''/'' \<or> \<not> (HasSuffix name ''.snapshot'' \<or> HasSuffix name ''.ltx'' \<or> HasSuffix name ''.batch''))"

definition DeleteObjectWithOptions ::
  "bool \<Rightarrow> Scope \<Rightarrow> u64 \<Rightarrow> string \<Rightarrow> 'e RetireOptions \<Rightarrow> ('e, bool) rhandler" where
  "DeleteObjectWithOptions canceled s epoch k opts =
     (if \<not> OfflineQuiescent opts then Return (Inl ErrGCDeferred)
      else case Validate s of
        Inl x \<Rightarrow> Return (Inl (RScope x))
      | Inr _ \<Rightarrow>
          if \<not> HasPrefix k (SegPrefix s epoch) then Return (Inr False)
          else
            (let name = TrimPrefix (TrimPrefix k (SegPrefix s epoch)) ''L1/'' in
             if \<not> payload_name name then Return (Inr False)
             else bind (ReadSegment k) (\<lambda>r. case r of
                 Inl x \<Rightarrow> Return (if x = RBucket ErrNotFound then Inr False else Inl x)
               | Inr raw \<Rightarrow>
                   (case Split raw of
                      Inl _ \<Rightarrow> Return (Inr False)
                    | Inr parts \<Rightarrow>
                        if length parts = 0 then Return (Inr False)
                        else (case payload_headers epoch None parts of
                            None \<Rightarrow> Return (Inr False)
                          | Some hs \<Rightarrow>
                              if \<not> (length parts = 1 \<and> name = SegmentName (hd hs)) \<and> name \<noteq> BatchName (hd hs) (last hs)
                              then Return (Inr False)
                              else if canceled then Return (Inl ErrCtx)
                              else
                                attempt (case Verify opts of None \<Rightarrow> Return (Inr ()) | Some v \<Rightarrow> v) (\<lambda>_.
                                bind (ObjDelete resourceObjects k) (\<lambda>d. Return (case d of
                                    Inl x \<Rightarrow> Inl (RStore x)
                                  | Inr _ \<Rightarrow> Inr True))))))))"

end
