(* ===== verification/ReplicaFleet.thy ===== *)
theory ReplicaFleet
  imports ReplicaStore
begin

unbundle bit_operations_syntax

text \<open>
  What the nodes of a fleet may rely on when all of them append, mark epochs, publish manifests, fence and purge against one
  bucket. The objects in question are kept: created once, and from then on neither overwritten nor deleted by any
  handler. The ghost value of a thread is the set of objects it has seen or written.
\<close>

subsection \<open>Kept objects\<close>

definition facts :: "(string \<Rightarrow> bool) \<Rightarrow> ('v, 'e, 'w, (string \<times> 'v) set) logic" where
  "facts kept =
     \<lparr>may = (\<lambda>g rq. case rq of
          RGet k \<Rightarrow> True | RCreate k v \<Rightarrow> True | RCAS k v e \<Rightarrow> \<not> kept k | RCDelete k e \<Rightarrow> \<not> kept k
        | RPut k v \<Rightarrow> \<not> kept k | RDelete k \<Rightarrow> \<not> kept k),
      post = (\<lambda>g rq out. case rq of
          RGet k \<Rightarrow> (case out of Body v \<Rightarrow> insert (k, v) g | _ \<Rightarrow> g)
        | RCreate k v \<Rightarrow> (if out = Done then insert (k, v) g else g)
        | _ \<Rightarrow> g),
      section_ok = (\<lambda>g t w w' g'. g' = g)\<rparr>"

lemma facts_simps [simp]:
  "may (facts kept) g (RGet k)" "may (facts kept) g (RCreate k v)" "may (facts kept) g (RCAS k v e) = (\<not> kept k)"
  "may (facts kept) g (RCDelete k e) = (\<not> kept k)" "may (facts kept) g (RPut k v) = (\<not> kept k)"
  "may (facts kept) g (RDelete k) = (\<not> kept k)"
  "post (facts kept) g (RGet k) (Body v) = insert (k, v) g" "post (facts kept) g (RGet k) (Failed err) = g"
  "post (facts kept) g (RCreate k v) Done = insert (k, v) g" "post (facts kept) g (RCreate k v) (Failed err) = g"
  "post (facts kept) g (RCAS k v e) out = g" "post (facts kept) g (RCDelete k e) out = g"
  "post (facts kept) g (RPut k v) out = g" "post (facts kept) g (RDelete k) out = g"
  "section_ok (facts kept) g t w w' g' = (g' = g)"
  by (simp_all add: facts_def)

definition facts_hold :: "(string \<Rightarrow> bool) \<Rightarrow> 'v objects \<Rightarrow> (string \<times> 'v) set \<Rightarrow> bool" where
  "facts_hold kept B g \<longleftrightarrow> (\<forall>(k, v) \<in> g. kept k \<longrightarrow> B k = Some v)"

text \<open>A request the logic allows leaves a kept object that is there alone, and what the thread learns from the answer is true.\<close>

lemma may_keeps: "may (facts kept) g rq \<Longrightarrow> effect etag B rq out B' \<Longrightarrow> kept k \<Longrightarrow> B k = Some v \<Longrightarrow> B' k = Some v"
  by (cases rq) (auto simp: effect_def)

lemma post_holds:
  assumes "may (facts kept) g rq" "effect etag B rq out B'" "facts_hold kept B g"
  shows "facts_hold kept B' (post (facts kept) g rq out)"
proof -
  have keep: "facts_hold kept B' g" using assms may_keeps by (fastforce simp: facts_hold_def)
  show ?thesis
  proof (cases rq)
    case (RGet k)
    with keep assms(2) show ?thesis by (cases out) (auto simp: effect_def facts_hold_def)
  next
    case (RCreate k v)
    with keep assms(2) show ?thesis by (cases out) (auto simp: effect_def facts_hold_def facts_def)
  qed (use keep in simp_all)
qed

locale kept_objects =
  fixes etag :: "'v \<Rightarrow> 'e"
    and starts :: "('v, 'e, 'w, 'r, 'm) starter"
    and laws :: bool
    and kept :: "string \<Rightarrow> bool"
    and final :: "'r \<Rightarrow> (string \<times> 'v) set \<Rightarrow> bool"
  assumes starts_wp: "laws \<Longrightarrow> starts S m (Run i p) \<Longrightarrow> wp (facts kept :: ('v, 'e, 'w, (string \<times> 'v) set) logic) etag p final {}"
begin

definition knowing :: "('v, 'e, 'w, 'r, 'm) system \<Rightarrow> bool" where
  "knowing S \<longleftrightarrow> (\<forall>m i p. threads S m i = Some p \<longrightarrow>
     (\<exists>g. wp (facts kept :: ('v, 'e, 'w, (string \<times> 'v) set) logic) etag p final g \<and> facts_hold kept (store S) g))"

lemma idle_knowing: "idle S \<Longrightarrow> knowing S"
  by (simp add: idle_def knowing_def)

lemma knowingD:
  "knowing S \<Longrightarrow> threads S m i = Some p \<Longrightarrow> \<exists>g. wp (facts kept) etag p final g \<and> facts_hold kept (store S) g"
  unfolding knowing_def by metis

lemma call_keeps:
  assumes "knowing S" "threads S m i = Some p" "bucket_call etag (store S) p B' p'" "kept k" "store S k = Some v"
  shows "B' k = Some v"
proof -
  obtain g where "wp (facts kept) etag p final g" using knowingD [OF assms(1,2)] by blast
  from wp_call [OF assms(3) this] may_keeps [where kept = kept and k = k and v = v and B = "store S"] assms(4,5) show ?thesis by metis
qed

text \<open>No step changes or removes a kept object.\<close>

lemma step_keeps: "step etag starts a S S' \<Longrightarrow> knowing S \<Longrightarrow> kept k \<Longrightarrow> store S k = Some v \<Longrightarrow> store S' k = Some v"
  by (induction rule: step.induct) (auto intro: call_keeps)

lemma call_knowing:
  assumes "knowing S" "threads S m i = Some p" "bucket_call etag (store S) p B' p'"
  shows "knowing (set_thread m i (Some p') (S\<lparr>store := B'\<rparr>))"
proof -
  obtain g where g: "wp (facts kept) etag p final g" "facts_hold kept (store S) g" using knowingD [OF assms(1,2)] by blast
  have old: "facts_hold kept (store S) h \<Longrightarrow> facts_hold kept B' h" for h
    using call_keeps [OF assms] by (fastforce simp: facts_hold_def)
  have "\<exists>g. wp (facts kept) etag p' final g \<and> facts_hold kept B' g"
    using wp_call [OF assms(3) g(1)] old [OF g(2)] post_holds [OF _ _ g(2)] by metis
  with assms(1) old show ?thesis by (fastforce simp: knowing_def)
qed

lemma step_knowing: "step etag starts a S S' \<Longrightarrow> laws \<Longrightarrow> knowing S \<Longrightarrow> knowing S'"
proof (induction rule: step.induct)
  case (start S m i p)
  then have "wp (facts kept) etag p final {}" using starts_wp by blast
  then show ?case using start by (auto simp: knowing_def facts_hold_def intro!: exI [of _ "{}"])
next
  case (call S m i p B' p')
  then show ?case using call_knowing by blast
next
  case (local S m i u c)
  then obtain g where "wp (facts kept) etag (Local u c) final g" "facts_hold kept (store S) g" using knowingD by blast
  then have "\<exists>g. wp (facts kept) etag (c (clock S) (memory S m)) final g \<and> facts_hold kept (store S) g" by auto
  with local show ?case by (auto simp: knowing_def)
qed (auto simp: knowing_def)

lemma reachable_knowing: "reachable etag starts S S' \<Longrightarrow> laws \<Longrightarrow> knowing S \<Longrightarrow> knowing S'"
  by (induction rule: reachable.induct) (auto intro: step_knowing)

lemma reachable_keeps:
  "reachable etag starts S S' \<Longrightarrow> laws \<Longrightarrow> knowing S \<Longrightarrow> kept k \<Longrightarrow> store S k = Some v \<Longrightarrow> store S' k = Some v"
  by (induction rule: reachable.induct) (auto intro: step_keeps dest: reachable_knowing)

text \<open>What a finished handler reports about kept objects is true then and ever after.\<close>

lemma reported_kept:
  assumes "reachable etag starts S0 S" "idle S0" laws "threads S m i = Some (Return r)" "reachable etag starts S S'"
  shows "\<exists>g. final r g \<and> facts_hold kept (store S') g"
proof -
  have k: "knowing S" using reachable_knowing [OF assms(1,3) idle_knowing [OF assms(2)]] .
  then obtain g where g: "final r g" "facts_hold kept (store S) g" using knowingD [OF k assms(4)] by auto
  then have "facts_hold kept (store S') g" using reachable_keeps [OF assms(5,3) k] by (fastforce simp: facts_hold_def)
  with g(1) show ?thesis by blast
qed

end

subsection \<open>The calls of the store\<close>

lemma wp_with_key:
  "(\<And>x. Q (Inl x) g) \<Longrightarrow> wp L etag (f k) Q g \<Longrightarrow> wp L etag (with_key ob k f) Q g"
  using key_Inr [of ob k] by (auto simp: with_key_def split: sum.splits)

lemma wp_GetVersion:
  "(\<And>x. Q (Inl x) g) \<Longrightarrow> (\<And>v. Q (Inr (v, etag v)) (insert (k, v) g)) \<Longrightarrow> wp (facts kept) etag (GetVersion ob k) Q g"
  unfolding GetVersion_def by (rule wp_with_key) (simp_all add: lift_def)

lemma wp_ConditionalCreate:
  "(\<And>x. Q (Inl x) g) \<Longrightarrow> Q (Inr (etag v)) (insert (k, v) g) \<Longrightarrow> wp (facts kept) etag (ConditionalCreate ob k v) Q g"
  unfolding ConditionalCreate_def by (rule wp_with_key) (simp_all add: lift_def)

lemma wp_ObjCAS:
  "\<not> kept k \<Longrightarrow> (\<And>x. Q (Inl x) g) \<Longrightarrow> Q (Inr (etag v)) g \<Longrightarrow> wp (facts kept) etag (ObjCAS ob k v e) Q g"
  unfolding ObjCAS_def by (rule wp_with_key) (simp_all add: lift_def)

lemma wp_ConditionalDelete:
  "\<not> kept k \<Longrightarrow> (\<And>x. Q x g) \<Longrightarrow> wp (facts kept) etag (ConditionalDelete ob k e) Q g"
  unfolding ConditionalDelete_def by (rule wp_with_key) (simp_all add: lift_def)

lemma wp_ObjPut:
  "\<not> kept k \<Longrightarrow> (\<And>x. Q (Inl x) g) \<Longrightarrow> Q (Inr (etag v)) g \<Longrightarrow> wp (facts kept) etag (ObjPut ob k v) Q g"
  unfolding ObjPut_def by (rule wp_with_key) (simp_all add: lift_def)

lemma wp_ObjDelete: "\<not> kept k \<Longrightarrow> (\<And>x. Q x g) \<Longrightarrow> wp (facts kept) etag (ObjDelete ob k) Q g"
  unfolding ObjDelete_def by (rule wp_with_key) (simp_all add: lift_def)

lemma wp_ListPage: "(\<And>x. Q x g) \<Longrightarrow> wp (facts kept) etag (ListPage None ob p after n) Q g"
  by (simp add: ListPage_def Let_def split: option.splits)

subsection \<open>The fence\<close>

text \<open>A cell without a fence is never found fenced.\<close>

definition fence_result :: "Scope \<Rightarrow> replica_error + resourceFence \<times> 'e option \<Rightarrow> bool" where
  "fence_result sc x \<longleftrightarrow>
     (Validate sc = Inr () \<or> isl x) \<and> (resource_class sc \<or> isl x \<or> x = Inr (no_fence, None))"

lemma not_fenced [simp]: "\<not> fenced no_fence epoch"
  by (simp add: fenced_def no_fence_def)

lemma wp_fence_migrate:
  assumes "\<And>x g'. g \<subseteq> g' \<Longrightarrow> Q x g'"
  shows "wp (facts kept) etag (fence_migrate W sc) Q g"
  unfolding fence_migrate_def
  by (auto simp: wp_bind subset_insertI2 intro!: wp_GetVersion wp_ConditionalCreate assms split: sum.splits)

lemma wp_fresh:
  assumes "\<And>x g'. g \<subseteq> g' \<Longrightarrow> fence_result sc x \<Longrightarrow> Q x g'"
  shows "wp (facts kept) etag (readResourceFenceFresh W sc) Q g"
proof (cases "Validate sc")
  case (Inl e)
  then show ?thesis by (simp add: readResourceFenceFresh_def fence_result_def assms)
next
  case (Inr u)
  then have r: "fence_result sc (Inl e)" "resource_class sc \<Longrightarrow> fence_result sc x" for e and x :: "replica_error + resourceFence \<times> 'b option"
    by (simp_all add: fence_result_def)
  show ?thesis
  proof (cases "resource_class sc")
    case False
    with Inr show ?thesis by (simp add: readResourceFenceFresh_def fence_result_def assms)
  next
    case True
    have q: "g \<subseteq> g' \<Longrightarrow> Q x g'" for x g' using assms r(2) [OF True] by blast
    show ?thesis
      unfolding readResourceFenceFresh_def
      using Inr True q
      by (auto simp: wp_bind wp_attempt subset_insertI2 intro!: wp_GetVersion wp_fence_migrate split: sum.splits option.splits)
  qed
qed

lemma wp_section: "(\<And>x. Q x g) \<Longrightarrow> wp (facts kept) etag (atomically f) Q g"
  by (simp add: wp_atomically)

lemma wp_section_change: "Q () g \<Longrightarrow> wp (facts kept) etag (change f) Q g"
  by (simp add: wp_change)

lemma wp_fence_loop:
  assumes "\<And>x g'. g \<subseteq> g' \<Longrightarrow> Q x g'"
  shows "wp (facts kept) etag (fence_loop n W canceled sc refresh mode) Q g"
  using assms
proof (induction n arbitrary: mode g canceled)
  case (Suc n)
  show ?case
    using Suc.prems
    by (auto simp: wp_bind split: option.splits fence_look.splits sum.splits
        intro!: wp_section wp_section_change wp_fresh Suc.IH)
qed simp

lemma wp_readResourceFence:
  assumes "\<And>x g'. g \<subseteq> g' \<Longrightarrow> (\<not> resource_class sc \<longrightarrow> x = Inr (no_fence, None)) \<Longrightarrow> Q x g'"
  shows "wp (facts kept) etag (readResourceFence n W canceled sc) Q g"
  using assms by (auto simp: readResourceFence_def readResourceFenceShared_def intro!: wp_fence_loop)

lemma wp_RLock: "(\<And>b. Q b g) \<Longrightarrow> wp (facts kept) etag (RLock n h) Q g"
  by (induction n) (auto simp: wp_bind intro!: wp_section)

lemma wp_WLock: "(\<And>b. Q b g) \<Longrightarrow> wp (facts kept) etag (WLock n h) Q g"
  by (induction n) (auto simp: wp_bind intro!: wp_section)

lemma wp_RUnlock [simp]: "wp (facts kept) etag (RUnlock h) Q g = Q () g"
  by (simp add: RUnlock_def wp_change)

lemma wp_WUnlock [simp]: "wp (facts kept) etag (WUnlock h) Q g = Q () g"
  by (simp add: WUnlock_def wp_change)

lemma wp_deferred [simp]:
  "wp (facts kept) etag (deferred (RUnlock h) body) Q = wp (facts kept) etag body Q"
  "wp (facts kept) etag (deferred (WUnlock h) body) Q = wp (facts kept) etag body Q"
proof -
  have "(\<lambda>r. wp (facts kept) etag (bind (RUnlock h) (\<lambda>_. Return r)) Q) = Q" "(\<lambda>r. wp (facts kept) etag (bind (WUnlock h) (\<lambda>_. Return r)) Q) = Q"
    by (simp_all add: fun_eq_iff wp_bind)
  then show "wp (facts kept) etag (deferred (RUnlock h) body) Q = wp (facts kept) etag body Q"
    "wp (facts kept) etag (deferred (WUnlock h) body) Q = wp (facts kept) etag body Q"
    by (intro ext, simp only: deferred_def wp_bind)+
qed

lemma wp_exclusively:
  "(\<And>x. Q (Inl x) g) \<Longrightarrow> wp (facts kept) etag body Q g \<Longrightarrow> wp (facts kept) etag (exclusively n sc body) Q g"
  by (auto simp: exclusively_def wp_bind intro!: wp_WLock)

lemma wp_write_guarded:
  assumes "\<And>x g'. g \<subseteq> g' \<Longrightarrow> Q (Inl x) g'"
    and "\<And>g'. g \<subseteq> g' \<Longrightarrow> Validate sc = Inr () \<Longrightarrow> wp (facts kept) etag body Q g'"
  shows "wp (facts kept) etag (write_guarded n W sc epoch body) Q g"
  unfolding write_guarded_def resourceWriteGuard_def
  using assms
  by (auto simp: wp_bind wp_attempt fence_result_def split: sum.splits option.splits prod.splits intro!: wp_RLock wp_fresh)

lemma wp_putResourceObject:
  assumes "\<not> kept k" "\<And>x g'. g \<subseteq> g' \<Longrightarrow> Q x g'"
  shows "wp (facts kept) etag (putResourceObject n W canceled sc epoch k data) Q g"
  unfolding putResourceObject_def using assms
  by (auto simp: wp_bind wp_attempt split: sum.splits prod.splits intro!: wp_ObjPut wp_readResourceFence wp_ConditionalDelete)

lemma wp_putImmutableSegment:
  assumes "kept k \<Longrightarrow> \<not> resource_class sc"
    and "\<And>x g'. g \<subseteq> g' \<Longrightarrow> Q (Inl x) g'"
    and "\<And>x g'. g \<subseteq> g' \<Longrightarrow> (k, data) \<in> g' \<Longrightarrow> Q (Inr x) g'"
  shows "wp (facts kept) etag (putImmutableSegment n W canceled sc epoch k data) Q g"
  unfolding putImmutableSegment_def using assms
  by (auto simp: wp_bind wp_attempt subset_insertI2 split: sum.splits prod.splits
      intro!: wp_ConditionalCreate wp_GetVersion wp_readResourceFence wp_ConditionalDelete)

lemma wp_claim_object:
  assumes "\<And>x g'. g \<subseteq> g' \<Longrightarrow> Q (Inl x) g'" "\<And>g'. g \<subseteq> g' \<Longrightarrow> (k, data) \<in> g' \<Longrightarrow> Q (Inr ()) g'"
  shows "wp (facts kept) etag (claim_object k data) Q g"
  unfolding claim_object_def using assms
  by (auto simp: wp_bind subset_insertI2 split: sum.splits intro!: wp_ConditionalCreate wp_GetVersion)

subsection \<open>Kept segments of a cell\<close>

text \<open>The objects of a cell that are never replaced: its segments and the claim of an epoch's cut.\<close>

definition immutable :: "Scope \<Rightarrow> string \<Rightarrow> bool" where
  "immutable s k \<longleftrightarrow> HasPrefix k (ScopeKey s @ ''/ltx/'') \<and> (isSegmentKey k \<or> base_name k = ''epoch-cut'')"

lemma base_name_slash: "CHR ''/'' \<notin> set n \<Longrightarrow> base_name (p @ CHR ''/'' # n) = n"
proof -
  assume "CHR ''/'' \<notin> set n"
  then have "takeWhile (\<lambda>c. c \<noteq> CHR ''/'') (rev n @ CHR ''/'' # rev p) = rev n" by (subst takeWhile_append2) auto
  then show ?thesis by (simp add: base_name_def)
qed

lemma base_name_SegPrefix [simp]: "CHR ''/'' \<notin> set n \<Longrightarrow> base_name (SegPrefix s epoch @ n) = n"
  using base_name_slash [of n "ScopeKey s @ ''/ltx/e'' @ dec (unat epoch)"] by (simp add: SegPrefix_def)

lemma base_name_L1Prefix [simp]: "CHR ''/'' \<notin> set n \<Longrightarrow> base_name (L1Prefix s epoch @ n) = n"
  using base_name_slash [of n "SegPrefix s epoch @ ''L1''"] by (simp add: L1Prefix_def)

lemma SegmentName_key: "CHR ''/'' \<notin> set (SegmentName h) \<and> isSegmentKey (SegPrefix s epoch @ SegmentName h) \<and> isSegmentKey (L1Prefix s epoch @ SegmentName h)"
proof -
  have n: "CHR ''/'' \<notin> set (SegmentName h)"
    by (auto simp: SegmentName_def dest!: not_in_dec [THEN notE, rotated] split: prod.splits bool.splits)
  have "HasSuffix (SegmentName h) ''.snapshot'' \<or> HasSuffix (SegmentName h) ''.ltx'' \<or> HasSuffix (SegmentName h) ''.link''
    \<or> HasSuffix (SegmentName h) ''.marker''"
    by (auto simp: SegmentName_def HasSuffix_iff split: prod.splits bool.splits)
  with n show ?thesis by (auto simp: isSegmentKey_def)
qed

lemma BatchName_key: "CHR ''/'' \<notin> set (BatchName a b) \<and> isSegmentKey (SegPrefix s epoch @ BatchName a b)"
proof -
  have n: "CHR ''/'' \<notin> set (BatchName a b)" by (auto simp: BatchName_def dest!: not_in_dec [THEN notE, rotated])
  have "HasSuffix (BatchName a b) ''.batch''" by (auto simp: BatchName_def HasSuffix_iff)
  with n show ?thesis by (auto simp: isSegmentKey_def)
qed

lemma immutable_SegmentName [simp]:
  "immutable s (SegPrefix s epoch @ SegmentName h)" "immutable s (L1Prefix s epoch @ SegmentName h)"
  using SegmentName_key [of h s epoch] by (auto simp: immutable_def SegPrefix_def L1Prefix_def HasPrefix_iff)

lemma immutable_batch [simp]: "immutable s (SegPrefix s epoch @ batch_name hs)"
  using SegmentName_key [of "hd hs" s epoch] BatchName_key [of "hd hs" "last hs" s epoch]
  by (auto simp: immutable_def batch_name_def SegPrefix_def HasPrefix_iff)

lemma immutable_cut [simp]: "immutable s (epoch_cut_key s epoch)"
proof -
  have "base_name (epoch_cut_key s epoch) = ''epoch-cut''" by (simp add: epoch_cut_key_def)
  then show ?thesis by (simp add: immutable_def) (simp add: epoch_cut_key_def SegPrefix_def HasPrefix_iff)
qed

text \<open>The keys that are overwritten are not among them.\<close>

lemma not_immutable_names [simp]:
  "\<not> immutable s' (ManifestName s epoch)" "\<not> immutable s' (IndexName s epoch)"
  "\<not> immutable s' (SnapshotStartedName s epoch txid)" "\<not> immutable s' (SnapshotDoneName s epoch txid)"
  "\<not> immutable s' (resourceFenceKey s)"
proof -
  have b: "base_name (ManifestName s epoch) = ''manifest.json''" "base_name (IndexName s epoch) = ''index.bin''"
    "base_name (SnapshotStartedName s epoch txid) = dec (unat txid) @ ''.snapshot-started''"
    "base_name (SnapshotDoneName s epoch txid) = dec (unat txid) @ ''.snapshot-done''"
    "base_name (resourceFenceKey s) = ''resource-fence.v2''"
    using base_name_slash [of "''resource-fence.v2''" "ScopeKey s"]
    by (simp_all add: ManifestName_def IndexName_def SnapshotStartedName_def SnapshotDoneName_def resourceFenceKey_def)
  have d: "dec n @ x \<noteq> ''epoch-cut''" for n x
  proof
    assume "dec n @ x = ''epoch-cut''"
    then have "hd (dec n) = CHR ''e''" by (metis dec_nonempty hd_append2 list.sel(1))
    moreover have "is_digit (hd (dec n))" using dec_digits [of n] dec_nonempty [of n] by (simp add: list_all_iff)
    ultimately show False by (simp add: is_digit_def)
  qed
  show "\<not> immutable s' (ManifestName s epoch)" "\<not> immutable s' (IndexName s epoch)"
    "\<not> immutable s' (SnapshotStartedName s epoch txid)" "\<not> immutable s' (SnapshotDoneName s epoch txid)"
    "\<not> immutable s' (resourceFenceKey s)"
    by (simp_all add: immutable_def isSegmentKey_def b d HasSuffix_def HasPrefix_def)
qed

text \<open>The objects of another cell are not among them.\<close>

lemma not_immutable_other:
  assumes "Validate s = Inr ()" "Validate s' = Inr ()" "s \<noteq> s'" "HasPrefix k (ScopeKey s @ ''/ltx/'')"
  shows "\<not> immutable s' k"
  using ScopeKey_split [OF assms(1,2)] assms(3,4) by (auto simp: immutable_def HasPrefix_iff)

subsection \<open>The fleet\<close>

text \<open>What a finished handler reports: a segment object acknowledged under a key, an epoch marked with a cut, or nothing of
  interest here.\<close>

datatype replica_result = Acked Scope u64 string bytes | Marked Scope u64 u64 | Finished

definition acked :: "Scope \<Rightarrow> u64 \<Rightarrow> bytes \<Rightarrow> replica_error + string \<times> 'e \<Rightarrow> replica_result" where
  "acked s epoch body r = (case r of Inl _ \<Rightarrow> Finished | Inr (k, _) \<Rightarrow> Acked s epoch k body)"

definition marked :: "Scope \<Rightarrow> u64 \<Rightarrow> u64 \<Rightarrow> replica_error + string \<Rightarrow> replica_result" where
  "marked s epoch cutoff r = (case r of Inl _ \<Rightarrow> Finished | Inr _ \<Rightarrow> Marked s epoch cutoff)"

primrec reads_only :: "('v, 'e, 'w, 'r) prog \<Rightarrow> bool" where
  "reads_only (Return r) = True"
| "reads_only (Get k c) = (\<forall>x. reads_only (c x))"
| "reads_only (Create k v c) = False"
| "reads_only (CAS k v e c) = False"
| "reads_only (CDelete k e c) = False"
| "reads_only (Put k v c) = False"
| "reads_only (Delete k c) = False"
| "reads_only (ListKeys p c) = (\<forall>x. reads_only (c x))"
| "reads_only (Local u c) = (\<forall>t w. reads_only (c t w))"

text \<open>The handlers a node runs while it serves: no deletion under the offline option.\<close>

inductive replica_op :: "replica_wire \<Rightarrow> ('e, replica_result) rprog \<Rightarrow> bool" for W where
  append: "replica_op W (bind (Append n W canceled s epoch seg) (\<lambda>r. Return (acked s epoch seg r)))"
| append_batch: "replica_op W (bind (AppendBatch n W canceled s epoch segs) (\<lambda>r. Return (acked s epoch (concat segs) r)))"
| append_L1: "replica_op W (bind (AppendL1 n W canceled s epoch seg) (\<lambda>r. Return (acked s epoch seg r)))"
| mark_epoch: "replica_op W (bind (MarkEpoch n W canceled s epoch cutoff) (\<lambda>r. Return (marked s epoch cutoff r)))"
| put_manifest: "replica_op W (bind (PutManifest n W canceled s epoch man) (\<lambda>_. Return Finished))"
| put_index: "replica_op W (bind (PutIndex n W canceled s epoch idx) (\<lambda>_. Return Finished))"
| started: "replica_op W (bind (MarkSnapshotStarted s epoch txid) (\<lambda>_. Return Finished))"
| clear_started: "replica_op W (bind (ClearSnapshotStarted s epoch txid) (\<lambda>_. Return Finished))"
| snapshot_done: "replica_op W (bind (MarkSnapshotDone s epoch txid) (\<lambda>_. Return Finished))"
| block: "replica_op W (bind (BlockResource n W s jobID) (\<lambda>_. Return Finished))"
| fence: "replica_op W (bind (FenceResource n W s jobID epoch) (\<lambda>_. Return Finished))"
| allow: "replica_op W (bind (AllowResource n W s jobID) (\<lambda>_. Return Finished))"
| purge: "replica_op W (bind (PurgeResource n W s jobID mx) (\<lambda>_. Return Finished))"
| sweep: "Validate s = Inr () \<Longrightarrow> jobID \<noteq> [] \<Longrightarrow>
    replica_op W (bind (SweepRetired n W tags canceled s jobID floor after) (\<lambda>_. Return Finished))"
| refresh: "replica_op W (bind (RefreshResourceSnapshot n W canceled s) (\<lambda>_. Return Finished))"
| generation: "replica_op W (bind (ResourceGeneration n W canceled s) (\<lambda>_. Return Finished))"
| delete: "\<not> OfflineQuiescent opts \<Longrightarrow> replica_op W (bind (DeleteObjectWithOptions canceled s epoch k opts) (\<lambda>_. Return Finished))"
| reader: "reads_only (p :: (bytes, 'e, 'e replica_mem, unit) prog) \<Longrightarrow> replica_op W (bind p (\<lambda>_. Return Finished))"

definition replica_starts :: "replica_wire \<Rightarrow> (bytes, 'e, 'e replica_mem, replica_result, 'm) starter" where
  "replica_starts W S m a = (case a of Boot \<Rightarrow> True | Run i p \<Rightarrow> replica_op W p)"

definition reported :: "Scope \<Rightarrow> replica_result \<Rightarrow> (string \<times> bytes) set \<Rightarrow> bool" where
  "reported s0 r g =
     (case r of
        Acked s epoch k body \<Rightarrow> s = s0 \<longrightarrow> immutable s k \<and> (k, body) \<in> g
      | Marked s epoch cutoff \<Rightarrow> s = s0 \<longrightarrow> (epoch_cut_key s epoch, Encode (marker_header epoch cutoff) []) \<in> g
      | Finished \<Rightarrow> True)"

lemma reported_simps [simp]:
  "reported s0 Finished g" "reported s0 (acked s epoch body (Inl x)) g" "reported s0 (marked s epoch cutoff (Inl x)) g"
  "reported s0 (acked s epoch body (Inr (k, e))) g = (s = s0 \<longrightarrow> immutable s k \<and> (k, body) \<in> g)"
  "reported s0 (marked s epoch cutoff (Inr k)) g = (s = s0 \<longrightarrow> (epoch_cut_key s epoch, Encode (marker_header epoch cutoff) []) \<in> g)"
  by (simp_all add: reported_def acked_def marked_def)

text \<open>A cell that is no key-value or queue cell.\<close>

definition ordinary :: "Scope \<Rightarrow> bool" where
  "ordinary s \<longleftrightarrow> Validate s = Inr () \<and> \<not> resource_class s"

lemma kept_ordinary:
  assumes "ordinary s0" "Validate s = Inr ()" "immutable s0 k" "HasPrefix k (ScopeKey s @ ''/ltx/'')"
  shows "\<not> resource_class s"
  using not_immutable_other [of s s0 k] assms by (auto simp: ordinary_def)

lemma below_ltx: "HasPrefix (SegPrefix s epoch @ n) (ScopeKey s @ ''/ltx/'')" "HasPrefix (L1Prefix s epoch @ n) (ScopeKey s @ ''/ltx/'')"
  by (simp_all add: L1Prefix_def SegPrefix_def HasPrefix_iff)

lemma wp_finish: "wp (facts kept) etag p (\<lambda>_ _. True) g \<Longrightarrow> wp (facts kept) etag (bind p (\<lambda>_. Return Finished)) (reported s0) g"
  by (simp add: wp_bind)

lemma wp_Append:
  assumes "ordinary s0"
  shows "wp (facts (immutable s0)) etag (bind (Append n W canceled s epoch seg) (\<lambda>r. Return (acked s epoch seg r))) (reported s0) g"
  unfolding Append_def
  by (auto simp: wp_bind wp_attempt Let_def split: sum.splits
      intro!: wp_write_guarded wp_putImmutableSegment dest: kept_ordinary [OF assms _ _ below_ltx(1)])

lemma wp_AppendBatch:
  assumes "ordinary s0"
  shows "wp (facts (immutable s0)) etag (bind (AppendBatch n W canceled s epoch segs) (\<lambda>r. Return (acked s epoch (concat segs) r))) (reported s0) g"
  unfolding AppendBatch_def
  by (auto simp: wp_bind wp_attempt Let_def split: sum.splits
      intro!: wp_write_guarded wp_putImmutableSegment dest: kept_ordinary [OF assms _ _ below_ltx(1)])

lemma wp_AppendL1:
  assumes "ordinary s0"
  shows "wp (facts (immutable s0)) etag (bind (AppendL1 n W canceled s epoch seg) (\<lambda>r. Return (acked s epoch seg r))) (reported s0) g"
  unfolding AppendL1_def
  by (auto simp: wp_bind wp_attempt Let_def split: sum.splits
      intro!: wp_write_guarded wp_putImmutableSegment dest: kept_ordinary [OF assms _ _ below_ltx(2)])

lemma wp_MarkEpoch:
  "wp (facts (immutable s0)) etag (bind (MarkEpoch n W canceled s epoch cutoff) (\<lambda>r. Return (marked s epoch cutoff r))) (reported s0) g"
  unfolding MarkEpoch_def
  by (auto simp: wp_bind wp_attempt Let_def split: sum.splits prod.splits
      intro!: wp_write_guarded wp_claim_object wp_readResourceFence) blast+

lemma wp_updateResourceFence:
  "wp (facts (immutable s0)) etag (updateResourceFence n W sc ch) (\<lambda>_ _. True) g"
proof -
  have "wp (facts (immutable s0)) etag (fence_update i W sc ch) (\<lambda>_ _. True) g" for i g
    by (induction i arbitrary: g)
      (auto simp: wp_bind wp_attempt wp_change split: sum.splits option.splits prod.splits
        intro!: wp_fresh wp_ConditionalCreate wp_ObjCAS)
  then show ?thesis by (auto simp: updateResourceFence_def intro!: wp_exclusively)
qed

lemma resourceObjectEpoch_below: "resourceObjectEpoch sc k = Some e \<Longrightarrow> HasPrefix k (ScopeKey sc @ ''/ltx/'')"
  by (auto simp: resourceObjectEpoch_def Let_def HasPrefix_iff split: if_splits)

lemma wp_purge_loop:
  assumes "ordinary s0" "Validate sc = Inr ()" "resource_class sc"
  shows "wp (facts (immutable s0)) etag (purge_loop sc f next ks) (\<lambda>_ _. True) g"
proof (induction ks)
  case (Cons k ks)
  have "\<not> immutable s0 k" if "resourceObjectEpoch sc k = Some e" for e
    using kept_ordinary [OF assms(1,2) _ resourceObjectEpoch_below [OF that]] assms(3) by blast
  with Cons show ?case by (auto simp: wp_bind split: sum.splits option.splits intro!: wp_ObjDelete)
qed simp

lemma wp_sweep_loop:
  assumes "ordinary s0" "Validate sc = Inr ()" "resource_class sc"
  shows "wp (facts (immutable s0)) etag (sweep_loop tags sc floor next ks) (\<lambda>_ _. True) g"
proof (induction ks arbitrary: g)
  case (Cons k ks)
  have "\<not> immutable s0 k" if "resourceObjectEpoch sc k = Some e" for e
    using kept_ordinary [OF assms(1,2) _ resourceObjectEpoch_below [OF that]] assms(3) by blast
  with Cons show ?case
    by (auto simp: wp_bind split: sum.splits option.splits intro!: wp_GetVersion wp_ConditionalDelete)
qed simp

lemma wp_PurgeResource:
  assumes "ordinary s0"
  shows "wp (facts (immutable s0)) etag (PurgeResource n W sc jobID mx) (\<lambda>_ _. True) g"
  unfolding PurgeResource_def
  by (auto simp: wp_bind wp_attempt fence_result_def no_fence_def split: sum.splits prod.splits
      intro!: wp_exclusively wp_fresh wp_ListPage wp_purge_loop [OF assms])

lemma wp_SweepRetired:
  assumes "ordinary s0" "Validate sc = Inr ()" "jobID \<noteq> []"
  shows "wp (facts (immutable s0)) etag (SweepRetired n W tags canceled sc jobID floor after) (\<lambda>_ _. True) g"
proof -
  have "wp (facts (immutable s0)) etag (SweepRetired n W tags canceled sc jobID floor after) (\<lambda>_ _. True) g" if "\<not> resource_class sc"
    using that assms(3) by (simp add: SweepRetired_def readResourceFence_def wp_attempt no_fence_def)
  moreover have "wp (facts (immutable s0)) etag (SweepRetired n W tags canceled sc jobID floor after) (\<lambda>_ _. True) g" if "resource_class sc"
    unfolding SweepRetired_def
    by (auto simp: wp_bind wp_attempt split: sum.splits prod.splits
        intro!: wp_readResourceFence wp_ListPage wp_sweep_loop [OF assms(1,2) that])
  ultimately show ?thesis by blast
qed

lemma wp_reads_only: "reads_only p \<Longrightarrow> wp (facts kept) etag p (\<lambda>_ _. True) g"
proof (induction p arbitrary: g)
  case (Local u c)
  then show ?case by (simp, meson rangeI)
qed auto

lemma replica_op_wp:
  assumes "replica_op W p" "ordinary s0"
  shows "wp (facts (immutable s0)) etag p (reported s0) {}"
  using assms(1)
proof cases
  case (put_manifest n canceled s epoch man)
  then show ?thesis
    by (auto simp: PutManifest_def wp_attempt wp_bind wp_now_is Let_def split: sum.splits
        intro!: wp_finish wp_write_guarded wp_putResourceObject)
next
  case (put_index n canceled s epoch idx)
  then show ?thesis
    by (auto simp: PutIndex_def wp_attempt split: sum.splits intro!: wp_finish wp_write_guarded wp_putResourceObject)
next
  case (reader p)
  then show ?thesis by (auto intro!: wp_finish wp_reads_only)
next
  case (block n s jobID)
  then show ?thesis by (auto simp: BlockResource_def intro!: wp_finish wp_updateResourceFence)
next
  case (refresh n canceled s)
  then show ?thesis
    by (auto simp: RefreshResourceSnapshot_def readResourceFenceShared_def wp_attempt split: sum.splits intro!: wp_finish wp_fence_loop)
next
  case (generation n canceled s)
  then show ?thesis
    by (auto simp: ResourceGeneration_def wp_attempt split: sum.splits intro!: wp_finish wp_readResourceFence)
qed (auto simp: FenceResource_def AllowResource_def MarkSnapshotStarted_def MarkSnapshotDone_def ClearSnapshotStarted_def
    bucket_put_plain_def DeleteObjectWithOptions_def
    intro!: wp_finish wp_Append wp_AppendBatch wp_AppendL1 wp_MarkEpoch wp_updateResourceFence wp_PurgeResource wp_SweepRetired assms(2))

interpretation segments: kept_objects etag "replica_starts W" "ordinary s0" "immutable s0" "reported s0"
  for etag :: "bytes \<Rightarrow> 'e" and W s0
  by unfold_locales (simp add: replica_starts_def replica_op_wp)

subsection \<open>A handler alone\<close>

lemma run_fresh_ordinary: "ordinary s \<Longrightarrow> run etag now (readResourceFenceFresh W s) B w = (Inr (no_fence, None), B, w)"
  by (simp add: readResourceFenceFresh_def ordinary_def)

lemma run_fence_ordinary: "ordinary s \<Longrightarrow> run etag now (readResourceFence n W canceled s) B w = (Inr (no_fence, None), B, w)"
  by (simp add: readResourceFence_def ordinary_def)

lemma set_lock_twice: "set_lock h l (set_lock h l' w) = set_lock h l w"
  by (simp add: set_lock_def)

lemma run_write_guarded:
  assumes "ordinary s" "\<not> writer (resourceLocks w (resourceLock s))" "\<And>w. run etag now body B w = (r, B', w)"
  shows "run etag now (write_guarded (Suc n) W s epoch body) B w = (r, B', w)"
proof -
  let ?h = "resourceLock s"
  let ?l = "resourceLocks w ?h"
  have "set_lock ?h (?l\<lparr>readers := readers ?l\<rparr>) w = w" by (simp add: set_lock_def)
  then show ?thesis
    using assms
    by (simp add: write_guarded_def resourceWriteGuard_def deferred_def attempt_def run_bind atomically_def run_fresh_ordinary
        RUnlock_def change_def Let_def set_lock_twice) (simp add: set_lock_def)
qed

text \<open>Appending stores a new segment once: a retry of the same bytes succeeds and changes nothing, other bytes are refused.\<close>

lemma run_putImmutableSegment:
  assumes "ordinary s" "key resourceObjects k = Inr k"
  shows "run etag now (putImmutableSegment n W canceled s epoch k data) B w =
    (case B k of
       None \<Rightarrow> (Inr (etag data), B(k \<mapsto> data), w)
     | Some old \<Rightarrow> (if old = data then Inr (etag old) else Inl (ConflictingSegment k), B, w))"
  using assms
  by (auto simp: putImmutableSegment_def ConditionalCreate_def GetVersion_def with_key_def attempt_def run_bind bucket_create_def
      bucket_get_def lift_def run_fence_ordinary split: option.splits)

lemma run_Append:
  assumes "ordinary s" "\<not> writer (resourceLocks w (resourceLock s))" "Decode seg = Inr (h, p)" "Ltx.Header.Epoch h = epoch"
    and "k = SegPrefix s epoch @ SegmentName h" "key resourceObjects k = Inr k"
  shows "run etag now (Append (Suc n) W canceled s epoch seg) B w =
    (case B k of
       None \<Rightarrow> (Inr (k, etag seg), B(k \<mapsto> seg), w)
     | Some old \<Rightarrow> (if old = seg then Inr (k, etag old) else Inl (ConflictingSegment k), B, w))"
  unfolding Append_def using assms
  by (auto simp: Let_def attempt_def run_bind run_putImmutableSegment intro!: run_write_guarded split: option.splits)

subsection \<open>Segment keys are accepted\<close>

lemma Contains_dots_Cons: "Contains (c # s) ''..'' \<longleftrightarrow> Contains s ''..'' \<or> c = CHR ''.'' \<and> s \<noteq> [] \<and> hd s = CHR ''.''"
  by (cases s) (auto simp: HasPrefix_def)

lemma Contains_dots_append:
  "Contains (x @ y) ''..'' \<longleftrightarrow> Contains x ''..'' \<or> Contains y ''..'' \<or> x \<noteq> [] \<and> y \<noteq> [] \<and> last x = CHR ''.'' \<and> hd y = CHR ''.''"
proof (induction x)
  case (Cons c x)
  then show ?case by (cases x) (auto simp: Contains_dots_Cons simp del: Contains.simps(2))
qed simp

lemma no_dots_in_digits: "list_all is_digit s \<Longrightarrow> \<not> Contains s ''..''"
  by (induction s) (auto simp: Contains_dots_Cons is_digit_def simp del: Contains.simps(2))

lemma dec_no_dots [simp]: "\<not> Contains (dec n) ''..''" "last (dec n) \<noteq> CHR ''.''" "hd (dec n) \<noteq> CHR ''.''"
proof -
  show "\<not> Contains (dec n) ''..''" by (rule no_dots_in_digits [OF dec_digits])
  have "last (dec n) \<in> set (dec n)" "hd (dec n) \<in> set (dec n)" by (simp_all add: dec_nonempty)
  then show "last (dec n) \<noteq> CHR ''.''" "hd (dec n) \<noteq> CHR ''.''" using not_in_dec [of "CHR ''.''" n] by auto
qed

lemma resourceObjects_view: "resourceObjects = \<lparr>Prefix = ''cells/'', ob_owner = ''replica'', ob_err = None\<rparr>"
  by code_simp

lemma key_below:
  assumes "Validate s = Inr ()" "\<not> Contains n ''..''" "CHR 0x5C \<notin> set n"
  shows "key resourceObjects (SegPrefix s epoch @ n) = Inr (SegPrefix s epoch @ n)"
proof -
  let ?k = "SegPrefix s epoch @ n"
  have s: "\<not> Contains (Namespace s) ''..''" "\<not> Contains (Class s) ''..''" "\<not> Contains (ScopeID s) ''..''"
    "Namespace s \<noteq> []" "Class s \<noteq> []" "ScopeID s \<noteq> []"
    "CHR 0x5C \<notin> set (Namespace s)" "CHR 0x5C \<notin> set (Class s)" "CHR 0x5C \<notin> set (ScopeID s)"
    using assms(1) by (auto simp: Validate_ok traversal_part_def)
  have p: "\<not> Contains (SegPrefix s epoch) ''..''" "CHR 0x5C \<notin> set (SegPrefix s epoch)" "last (SegPrefix s epoch) = CHR ''/''"
    using s by (auto simp: SegPrefix_def ScopeKey_def ScopeString_def Contains_dots_append Contains_dots_Cons dec_nonempty not_in_dec is_digit_def
        simp del: Contains.simps(2))
  have "\<not> Contains ?k ''..''" using assms(2) p(1,3) by (simp add: Contains_dots_append)
  moreover have "HasPrefix ?k ''cells/''" "\<not> HasPrefix ?k ''/''" by (simp_all add: SegPrefix_def ScopeKey_def HasPrefix_def)
  ultimately show ?thesis using assms(3) p(2) by (simp add: key_def resourceObjects_view)
qed

lemma key_segment:
  "Validate s = Inr () \<Longrightarrow> key resourceObjects (SegPrefix s epoch @ SegmentName h) = Inr (SegPrefix s epoch @ SegmentName h)"
  by (rule key_below)
    (auto simp: SegmentName_def Contains_dots_append Contains_dots_Cons dec_nonempty not_in_dec is_digit_def
      simp del: Contains.simps(2) split: prod.splits bool.splits)

lemma key_cut: "Validate s = Inr () \<Longrightarrow> key resourceObjects (epoch_cut_key s epoch) = Inr (epoch_cut_key s epoch)"
  unfolding epoch_cut_key_def by (rule key_below) (simp_all add: HasPrefix_def)

subsection \<open>Properties\<close>


lemma marker_inj: "Encode (marker_header epoch c) [] = Encode (marker_header epoch c') [] \<Longrightarrow> c = c'"
  using Decode_Encode [of "[]" "marker_header epoch c"] Decode_Encode [of "[]" "marker_header epoch c'"]
  by (simp add: sealed_def marker_header_def)

text \<open>C5: An epoch has one cut: when two calls of \<open>MarkEpoch\<close> succeed for the same epoch of an ordinary cell, on whatever
  nodes and however far apart, they named the same cut.\<close>

theorem one_cut_per_epoch:
  assumes "ordinary s" "idle S\<^sub>0" "reachable etag (replica_starts W) S\<^sub>0 S"
    and "threads S m i = Some (Return (Marked s epoch c))"
    and "reachable etag (replica_starts W) S S'"
    and "threads S' m' i' = Some (Return (Marked s epoch c'))"
  shows "c' = c"
proof -
  have "store S' (epoch_cut_key s epoch) = Some (Encode (marker_header epoch c) [])"
    using segments.reported_kept [OF assms(3,2,1,4,5)] by (auto simp: reported_def facts_hold_def)
  moreover have "store S' (epoch_cut_key s epoch) = Some (Encode (marker_header epoch c') [])"
    using segments.reported_kept [OF reachable_trans [OF assms(5,3)] assms(2,1,6) reachable.init]
    by (auto simp: reported_def facts_hold_def)
  ultimately show ?thesis using marker_inj by fastforce
qed

text \<open>C13: Appending alone: for an ordinary cell whose lock is not held by a writer, a well-formed segment of the epoch is
  stored under its name if nothing is there, accepted again if the same bytes are there, and refused if other bytes
  are; nothing else changes.\<close>

theorem append_once:
  assumes "ordinary s" "\<not> writer (resourceLocks w (resourceLock s))" "Decode seg = Inr (h, p)" "Ltx.Header.Epoch h = epoch"
    and "k = SegPrefix s epoch @ SegmentName h"
  shows "run etag now (Append (Suc n) W canceled s epoch seg) B w =
    (case B k of
       None \<Rightarrow> (Inr (k, etag seg), B(k \<mapsto> seg), w)
     | Some old \<Rightarrow> (if old = seg then Inr (k, etag old) else Inl (ConflictingSegment k), B, w))"
  using assms by (intro run_Append) (simp_all add: key_segment ordinary_def)

subsection \<open>Witnesses\<close>

definition demo_wire :: replica_wire where
  "demo_wire = \<lparr>jFence = \<lparr>marshal = (\<lambda>_. []), unmarshal = (\<lambda>_. None)\<rparr>, jManifest = \<lparr>marshal = (\<lambda>_. []), unmarshal = (\<lambda>_. None)\<rparr>,
     jValid = (\<lambda>_. True), rangeOrder = id\<rparr>"

definition demo_mem :: "bytes replica_mem" where
  "demo_mem = \<lparr>fenceCache = [], fenceRev = 0, fenceFlights = [], fenceCells = Map.empty, newFence = 0,
     resourceLocks = (\<lambda>_. \<lparr>readers = 0, writer = False\<rparr>)\<rparr>"

definition demo_fleet :: "(bytes, bytes, bytes replica_mem, replica_result, nat) system" where
  "demo_fleet = \<lparr>clock = 0, store = Map.empty, life = (\<lambda>_. Up), memory = (\<lambda>_. demo_mem), threads = (\<lambda>_ _. None)\<rparr>"

definition demo_cell :: Scope where
  "demo_cell = \<lparr>Namespace = ''t'', Class = ''Room'', ScopeID = ''x''\<rparr>"

definition demo_header :: Header where
  "demo_header = \<lparr>Version = 1, HKind = KindDelta, Flags = 0, Ltx.Header.Epoch = 1, StartTxID = 1, EndTxID = 2, Length = 0, CRC = 0\<rparr>"

definition demo_segment :: bytes where
  "demo_segment = Encode demo_header []"

lemma demo_ordinary: "ordinary demo_cell"
  by code_simp

lemma demo_decode: "Decode demo_segment = Inr (sealed demo_header [], [])"
  unfolding demo_segment_def by (rule Decode_Encode) simp

text \<open>A handler started on an idle thread of a running node and run to its end.\<close>

lemma run_to_end:
  assumes "life S m = Up" "threads S m i = None" "replica_op W p" "run etag (clock S) p (store S) (memory S m) = (r, B', w')"
  obtains S' where "reachable etag (replica_starts W) S S'" "threads S' m i = Some (Return r)" "store S' = B'"
    "life S' = life S" "clock S' = clock S" "memory S' = (memory S)(m := w')" "\<forall>m' i'. m' \<noteq> m \<longrightarrow> threads S' m' i' = threads S m' i'"
proof -
  let ?S = "set_thread m i (Some p) S"
  have "step etag (replica_starts W) (Some m) S ?S" by (rule step.start) (simp_all add: assms replica_starts_def)
  then have "reachable etag (replica_starts W) S ?S" by (rule step_reachable)
  moreover have "reachable etag (replica_starts W) ?S (after_run m i r B' w' ?S)" by (rule run_reachable) (use assms(4) in simp_all)
  ultimately show thesis by (intro that [of "after_run m i r B' w' ?S"]) (auto simp: after_run_def intro: reachable_trans)
qed

theorem append_once_witness:
  "run id 0 (Append 1 demo_wire False demo_cell 1 demo_segment) Map.empty demo_mem =
     (Inr (SegPrefix demo_cell 1 @ ''1-2.ltx'', demo_segment), [SegPrefix demo_cell 1 @ ''1-2.ltx'' \<mapsto> demo_segment], demo_mem)"
proof -
  have n: "SegmentName (sealed demo_header []) = ''1-2.ltx''" by code_simp
  show ?thesis
    using append_once [of demo_cell demo_mem demo_segment "sealed demo_header []" "[]" 1 "SegPrefix demo_cell 1 @ ''1-2.ltx''" id 0 0
        demo_wire False Map.empty] demo_ordinary demo_decode n
    by (simp add: demo_mem_def sealed_def demo_header_def)
qed

lemma demo_name: "SegmentName (sealed demo_header []) = ''1-2.ltx''"
  by code_simp

lemma demo_append:
  "run id 0 (bind (Append 1 demo_wire False demo_cell 1 demo_segment) (\<lambda>r. Return (acked demo_cell 1 demo_segment r))) Map.empty demo_mem =
     (Acked demo_cell 1 (SegPrefix demo_cell 1 @ ''1-2.ltx'') demo_segment, [SegPrefix demo_cell 1 @ ''1-2.ltx'' \<mapsto> demo_segment], demo_mem)"
proof -
  have "run id 0 (Append (Suc 0) demo_wire False demo_cell 1 demo_segment) Map.empty demo_mem =
     (Inr (SegPrefix demo_cell 1 @ ''1-2.ltx'', id demo_segment), [SegPrefix demo_cell 1 @ ''1-2.ltx'' \<mapsto> demo_segment], demo_mem)"
    using run_Append [of demo_cell demo_mem demo_segment "sealed demo_header []" "[]" 1 "SegPrefix demo_cell 1 @ ''1-2.ltx''" id 0 0
        demo_wire False Map.empty] demo_ordinary demo_decode demo_name key_segment [of demo_cell 1 "sealed demo_header []"]
    by (simp add: demo_mem_def sealed_def demo_header_def ordinary_def)
  then show ?thesis by (simp add: run_bind acked_def)
qed


lemma run_claim_object:
  "key resourceObjects k = Inr k \<Longrightarrow> run etag now (claim_object k seg) B w =
     (case B k of None \<Rightarrow> (Inr (), B(k \<mapsto> seg), w) | Some old \<Rightarrow> (if old = seg then Inr () else Inl ErrEpochMarkerConflict, B, w))"
  by (auto simp: claim_object_def ConditionalCreate_def GetVersion_def with_key_def run_bind bucket_create_def bucket_get_def lift_def
      split: option.splits)

text \<open>Marking an epoch on a bucket that holds nothing but this mark.\<close>

lemma run_MarkEpoch:
  assumes "ordinary s" "\<not> writer (resourceLocks w (resourceLock s))" "cutoff \<noteq> NOT 0" "finite (dom B)"
    and "\<forall>k \<in> dom B. \<not> conflicting_marker s epoch cutoff k"
    and "seg = Encode (marker_header epoch cutoff) []" "k = SegPrefix s epoch @ SegmentName (marker_header epoch cutoff)"
    and "B (epoch_cut_key s epoch) \<in> {None, Some seg}" "B k \<in> {None, Some seg}"
  shows "run etag now (MarkEpoch (Suc n) W canceled s epoch cutoff) B w = (Inr k, B(epoch_cut_key s epoch \<mapsto> seg, k \<mapsto> seg), w)"
proof -
  let ?c = "epoch_cut_key s epoch"
  have v: "Validate s = Inr ()" using assms(1) by (simp add: ordinary_def)
  have l: "\<not> list_ex (conflicting_marker s epoch cutoff) (bucket_list B (SegPrefix s epoch))"
    using assms(4,5) by (auto simp: bucket_list_def list_ex_iff)
  have c: "run etag now (claim_object t seg) B' w' = (Inr (), B'(t \<mapsto> seg), w')"
    if "key resourceObjects t = Inr t" "B' t \<in> {None, Some seg}" for t B' w'
    using that by (auto simp: run_claim_object fun_upd_idem)
  have 1: "run etag now (claim_object ?c seg) B w' = (Inr (), B(?c \<mapsto> seg), w')" for w'
    using assms(8) by (intro c [OF key_cut [OF v]])
  have 2: "run etag now (claim_object k seg) (B(?c \<mapsto> seg)) w' = (Inr (), B(?c \<mapsto> seg, k \<mapsto> seg), w')" for w'
    using assms(7,9) by (intro c) (auto simp: key_segment [OF v])
  show ?thesis
    unfolding MarkEpoch_def using assms(1,2,3) l 1 2
    by (auto simp: Let_def assms(6,7) [symmetric] attempt_def run_bind run_fence_ordinary intro!: run_write_guarded)
qed

lemma own_marks_agree:
  "\<not> conflicting_marker s epoch cutoff (epoch_cut_key s epoch)"
  "cutoff + 1 \<noteq> 0 \<Longrightarrow> \<not> conflicting_marker s epoch cutoff (SegPrefix s epoch @ SegmentName (marker_header epoch cutoff))"
  by (simp_all add: conflicting_marker_def epoch_cut_key_def TrimPrefix_def HasPrefix_iff parseSegmentSpan_SegmentName header_span_def
      marker_header_def kind_defs) (simp add: HasSuffix_def HasPrefix_def)

lemma demo_mark:
  assumes "B = Map.empty \<or> B = [epoch_cut_key demo_cell 2 \<mapsto> Encode (marker_header 2 7) [], SegPrefix demo_cell 2 @ ''8.marker'' \<mapsto> Encode (marker_header 2 7) []]"
  shows "run id 0 (bind (MarkEpoch 1 demo_wire False demo_cell 2 7) (\<lambda>r. Return (marked demo_cell 2 7 r))) B demo_mem =
    (Marked demo_cell 2 7, [epoch_cut_key demo_cell 2 \<mapsto> Encode (marker_header 2 7) [], SegPrefix demo_cell 2 @ ''8.marker'' \<mapsto> Encode (marker_header 2 7) []], demo_mem)"
proof -
  let ?k = "SegPrefix demo_cell 2 @ ''8.marker''"
  let ?seg = "Encode (marker_header 2 7) []"
  have n: "SegmentName (marker_header 2 7) = ''8.marker''" by code_simp
  have c: "\<not> conflicting_marker demo_cell 2 7 (epoch_cut_key demo_cell 2)" "\<not> conflicting_marker demo_cell 2 7 ?k"
    using own_marks_agree [where s = demo_cell and epoch = 2 and cutoff = 7] n by simp_all
  have d: "epoch_cut_key demo_cell 2 \<noteq> ?k" by (simp add: epoch_cut_key_def)
  have B: "finite (dom B)" "\<forall>k \<in> dom B. \<not> conflicting_marker demo_cell 2 7 k" "B (epoch_cut_key demo_cell 2) \<in> {None, Some ?seg}" "B ?k \<in> {None, Some ?seg}"
    using assms c d by (auto split: if_splits)
  have "run id 0 (MarkEpoch (Suc 0) demo_wire False demo_cell 2 7) B demo_mem = (Inr ?k, B(epoch_cut_key demo_cell 2 \<mapsto> ?seg, ?k \<mapsto> ?seg), demo_mem)"
    by (rule run_MarkEpoch [OF demo_ordinary _ _ B(1,2) refl _ B(3,4)]) (simp_all add: demo_mem_def n)
  moreover have "B(epoch_cut_key demo_cell 2 \<mapsto> ?seg, ?k \<mapsto> ?seg) = [epoch_cut_key demo_cell 2 \<mapsto> ?seg, ?k \<mapsto> ?seg]"
    using assms by (auto simp: fun_eq_iff)
  ultimately show ?thesis by (simp only: run_bind One_nat_def marked_def run.simps case_prod_conv sum.case)
qed

theorem one_cut_per_epoch_witness:
  "\<exists>S S'. reachable id (replica_starts demo_wire) demo_fleet S \<and> reachable id (replica_starts demo_wire) S S'
     \<and> threads S 0 0 = Some (Return (Marked demo_cell 2 7)) \<and> threads S' 1 0 = Some (Return (Marked demo_cell 2 7)) \<and> (7 :: u64) = 7"
proof -
  let ?B = "[epoch_cut_key demo_cell 2 \<mapsto> Encode (marker_header 2 7) [], SegPrefix demo_cell 2 @ ''8.marker'' \<mapsto> Encode (marker_header 2 7) []]"
  have i: "idle demo_fleet" by (simp add: idle_def demo_fleet_def)
  obtain S where S: "reachable id (replica_starts demo_wire) demo_fleet S" "threads S 0 0 = Some (Return (Marked demo_cell 2 7))"
    and s: "store S = ?B" "life S = (\<lambda>_. Up)" "clock S = 0" "memory S = (\<lambda>_. demo_mem)(0 := demo_mem)"
      "\<forall>m' i'. m' \<noteq> 0 \<longrightarrow> threads S m' i' = None"
    by (rule run_to_end [of demo_fleet 0 0, OF _ _ replica_op.mark_epoch [of demo_wire 1 False demo_cell 2 7]])
      (use demo_mark [of Map.empty] in \<open>simp_all add: demo_fleet_def\<close>)
  obtain S' where S': "reachable id (replica_starts demo_wire) S S'" "threads S' 1 0 = Some (Return (Marked demo_cell 2 7))"
    by (rule run_to_end [of S 1 0, OF _ _ replica_op.mark_epoch [of demo_wire 1 False demo_cell 2 7]])
      (use demo_mark [of ?B] s in simp_all)
  have "(7 :: u64) = 7" by (rule one_cut_per_epoch [OF demo_ordinary i S S'])
  with S S' show ?thesis by blast
qed

end
