(* ===== verification/Spec2Isabelle.thy ===== *)
theory Spec2Isabelle imports Lz4 Ltx PageMap Wal Chain Restore Paging Drain Waker ObjectStore NodeLog FsBucket LeaseFleet LocalRead ReplicaFleet
begin

text \<open>
  Verification of cellhive: the durable data path and the coordination of the fleet.

  A cell is a SQLite database with one owner at a time. The owner captures the write-ahead log of the database,
  turns committed transactions into segments and puts them into an object store, the bucket; another node restores
  the database from them. Who owns a cell, which node sessions are alive and which session drains or wakes is decided
  by records in the same bucket, changed only by conditional writes. The development models both halves.

  \<^bold>\<open>The data path\<close>, one theory per component, each operation a function over byte strings:

  \<^item> \<open>Prelude\<close>: byte strings, fixed-width integers, Go results, the integer codecs of \<^verbatim>\<open>encoding/binary\<close>.
  \<^item> \<open>Lz4\<close> (\<^verbatim>\<open>internal/lz4/block.go\<close>): the block encoder with its hash table and the decoder; decoding returns the block.
  \<^item> \<open>Ltx\<close> (\<^verbatim>\<open>internal/ltx/ltx.go\<close>, \<^verbatim>\<open>wal_payload.go\<close>): segment header, encoding, batches, object names, transaction
    payloads; what decodes is canonical, batches split without loss, names identify segments.
  \<^item> \<open>PageMap\<close> (\<^verbatim>\<open>wal_pagemap.go\<close>, \<^verbatim>\<open>snapshot_parts.go\<close>): both page-map formats, their readers, the parts of a snapshot;
    round trips, agreement of the readers on arbitrary bytes, and that collapsing transactions is replaying them.
  \<^item> \<open>Wal\<close> (\<^verbatim>\<open>internal/wal/wal.go\<close>): the one-shot reader and the polling cursor. A file is its bytes, and the answers of the
    operating system to a poll are a record, so that the file may change between two system calls. Polling a growing
    log delivers exactly the frames of a one-shot read; a new generation is noticed and delivered whole.
  \<^item> \<open>Chain\<close>, \<open>Restore\<close>, \<open>Paging\<close> (\<^verbatim>\<open>internal/restore\<close>): selection of the chain to restore from, the merge of its pages,
    the fold of a chain into a new snapshot, the writing of the image with failing system calls, the page index. The
    selected chain is a complete snapshot with a gapless suffix and is the newest usable one; the merge is the overlay
    of the segments; folding keeps the database; restoring a file is all or nothing; the page index serves the merge.

  \<^bold>\<open>The fleet\<close>. \<open>Bucket\<close> (\<^verbatim>\<open>internal/bucket/bucket.go\<close>) gives the contract of the object store and the form of every protocol:
  a handler is a \<open>prog\<close>, a tree of the bucket calls and the critical sections it executes, in the order of the code.
  \<open>run\<close> executes a handler alone; \<open>step\<close> interleaves any number of handlers of any number of processes over one bucket,
  with a clock that moves between steps, processes that start and die, calls that fail and writes that take effect
  although the caller is told they failed. Reachability is the reflexive and transitive closure of \<open>step\<close>.

  \<^item> \<open>GoStrings\<close>, \<open>Cell\<close> (\<^verbatim>\<open>internal/cell\<close>): the string functions the code uses, scopes and keys, owner records, placement.
  \<^item> \<open>FsBucket\<close> (\<^verbatim>\<open>internal/bucket/fsbucket.go\<close>): the file-system bucket over a tree of files with failing system calls; it
    implements the contract, keeps to its root, and a failed write leaves every object as it was.
  \<^item> \<open>ObjectStore\<close> (\<^verbatim>\<open>internal/objectstore\<close>): prefix-scoped views; only the owner of a reserved prefix gets one.
  \<^item> \<open>Token\<close>, \<open>Drain\<close> (\<^verbatim>\<open>internal/drain\<close>), \<open>Waker\<close> (\<^verbatim>\<open>internal/waker/election.go\<close>): expiring tokens. The locale \<open>expiring_token\<close>
    proves once that a live token moves only by its holder; both protocols interpret it.
  \<^item> \<open>NodeLog\<close> (\<^verbatim>\<open>internal/nodelog\<close>): recovery records; in every interleaving a record keeps its coordinates, a sealed one stays
    sealed and progress never moves back.
  \<^item> \<open>Lease\<close>, \<open>LeaseFleet\<close> (\<^verbatim>\<open>internal/lease\<close>): the liveness lease of a node session. The locale \<open>lease_fleet\<close> shows that while a
    session counts itself healthy, the lease other nodes read is its own; it is interpreted for the lease manager alone
    and for the whole process.
  \<^item> \<open>Owner\<close>, \<open>Route\<close> (\<^verbatim>\<open>internal/owner\<close>): claims, renewals, releases, the generation counter, the record cache, routes and
    the guards of local reads. \<open>OwnerFleet\<close> lists what a process may begin.
  \<^item> \<open>HandlerLogic\<close>: weakest preconditions for handlers under interleaving, with ghost values. \<open>OwnerEpoch\<close> uses it to show
    that an epoch of a cell is never given to two sessions; \<open>OwnerGuard\<close> and \<open>LocalRead\<close> to show that a session which
    passes its read guard is the owner the bucket names, that no two sessions read a cell locally at one time, and
    that no one takes a cell from a healthy owner.

  \<^bold>\<open>Parameters and hypotheses\<close>. Code that is not in the repository is an argument: JSON codecs with the law that decoding
  returns what was encoded (\<open>lawful\<close>), entity tags as an injective function of the body (\<open>inj\<close>), content hashes, the
  iteration order of Go maps, the callbacks of a claim (\<open>quiet_hooks\<close>: programs that leave leases and owner records
  alone). Properties with such hypotheses have witnesses on a concrete fleet.

  \<^bold>\<open>Bounds\<close>. Integers keep their width where the code can overflow. Loops that poll take the number of polls left
  before the context of the caller is done; the retry loops of the code (the generation counter, conditional updates) keep
  the number of attempts of the source. Process-local revision counters are natural numbers. Times are nanoseconds.

  \<^bold>\<open>Not modelled\<close>. Code whose behaviour is that of an external system: the S3 and provider backends of the bucket, SQLite
  storage, its VFS and the capture loops around it, HTTP servers and clients, the workerd processes and what configures
  them, signatures and tokens, SQL over cell databases, telemetry and configuration, commands and benchmarks. The records
  and files these parts exchange are modelled where the code above reads or writes them.
\<close>

end
